(* ===== verification/Prelude.thy ===== *)
theory Prelude
  imports Main "HOL-Library.Word"
begin

unbundle bit_operations_syntax

text \<open>
  Shared vocabulary of the development: the names of the machine types that the simulator uses,
  the collections that carry the component proofs, and the generic facts about lists and words
  that more than one component needs.

  The simulator's \<^verbatim>\<open>sc_addr\<close>, \<^verbatim>\<open>sc_data\<close>, \<^verbatim>\<open>long long\<close> and \<^verbatim>\<open>unsigned long long\<close> are
  all 64 bits wide and are \<^typ>\<open>64 word\<close> here; signed reading is \<^const>\<open>sint\<close>.
  A C \<^verbatim>\<open>int\<close> is a \<^typ>\<open>32 word\<close>, widened with \<^const>\<open>signed\<close>.
\<close>

type_synonym byte = "8 word"
type_synonym addr = "64 word"
type_synonym quad = "64 word"
type_synonym cint = "32 word"
type_synonym line128 = "128 word"

text \<open>
  \<open>step_defs\<close> collects the defining equations of the handlers, for the proofs that run one
  handler on all its branches; \<open>frame\<close> collects the facts that an operation leaves a field alone.
\<close>

named_theorems step_defs
named_theorems frame

subsection \<open>Lists\<close>

lemma hd_drop_conv_nth_Cons: "n < length xs \<Longrightarrow> drop n xs = xs ! n # drop (Suc n) xs"
  by (rule Cons_nth_drop_Suc [symmetric])

lemma takeWhile_take_all: "\<forall>x \<in> set (take n xs). P x \<Longrightarrow> n \<le> length (takeWhile P xs) \<or> length xs < n"
proof (induction n arbitrary: xs)
  case 0
  then show ?case by simp
next
  case (Suc n)
  then show ?case by (cases xs) auto
qed

lemma map_filter_key_distinct:
  "distinct (map fst xs) \<Longrightarrow> distinct (map fst (filter P xs))"
  by (induction xs) auto

lemma set_map_fst_filter: "set (map fst (filter (\<lambda>e. fst e \<noteq> k) xs)) = set (map fst xs) - {k}"
  by auto

lemma filter_key_notin: "k \<notin> set (map fst xs) \<Longrightarrow> filter (\<lambda>e. fst e \<noteq> k) xs = xs"
  by (induction xs) auto

lemma length_filter_key:
  "distinct (map fst xs) \<Longrightarrow> k \<in> set (map fst xs) \<Longrightarrow>
   Suc (length (filter (\<lambda>e. fst e \<noteq> k) xs)) = length xs"
  by (induction xs) (auto simp: filter_key_notin [simplified])

subsection \<open>Words\<close>

text \<open>\<^verbatim>\<open>1ULL << 63\<close>, the mask the flag computations use.\<close>

definition top_bit :: quad where
  "top_bit = push_bit 63 1"

lemma bit_top_bit_iff: "bit top_bit n \<longleftrightarrow> n = 63"
  unfolding top_bit_def bit_push_bit_iff by (auto simp: bit_1_iff)

lemma top_bit_nonzero [simp]: "top_bit \<noteq> 0"
  by (simp add: top_bit_def)

lemma and_top_bit: "w AND top_bit = (if bit w 63 then top_bit else 0)"
  by (rule bit_word_eqI) (auto simp: bit_and_iff bit_top_bit_iff)

lemma and_top_bit_eq_0_iff [simp]: "w AND top_bit = 0 \<longleftrightarrow> \<not> bit w 63"
  by (simp add: and_top_bit)

lemma and_top_bit_eq_top_iff [simp]: "w AND top_bit = top_bit \<longleftrightarrow> bit w 63"
  by (simp add: and_top_bit)

lemma and_top_bit_neq_1 [simp]: "w AND top_bit \<noteq> 1"
  by (cases "bit w 63") (simp_all add: and_top_bit, simp add: top_bit_def)

lemma bit63_sint: "bit (w :: quad) 63 \<longleftrightarrow> sint w < 0"
  using bit_last_iff [of w] by simp

text \<open>Wrap-around of a value that leaves its range by at most one period.\<close>

lemma ucast_and_top_bit [simp]: "(ucast (w AND top_bit) :: cint) = 0"
  by (rule bit_word_eqI) (auto simp: bit_simps bit_top_bit_iff)

lemma length_takeWhile_less: "\<exists>x \<in> set xs. \<not> P x \<Longrightarrow> length (takeWhile P xs) < length xs"
  by (induction xs) auto

lemma push_bit_Suc_double: "push_bit n v * 2 = push_bit (Suc n) (v :: quad)"
  by (simp add: push_bit_eq_mult)

lemma and_1_eq_1_iff [simp]: "(v :: quad) AND 1 = 1 \<longleftrightarrow> bit v 0"
  by (simp add: and_one_eq bit_0 odd_iff_mod_2_eq_one)

lemma int_mod_wrap:
  fixes y m :: int
  assumes "0 < m" "- m \<le> y" "y < 2 * m"
  shows "y mod m = (if y < 0 then y + m else if m \<le> y then y - m else y)"
proof -
  consider "y < 0" | "m \<le> y" | "0 \<le> y" "y < m" by linarith
  then show ?thesis
  proof cases
    case 1
    then show ?thesis using assms mod_add_self2 [of y m] mod_pos_pos_trivial [of "y + m" m] by simp
  next
    case 2
    then show ?thesis using assms minus_mod_self2 [of y m] mod_pos_pos_trivial [of "y - m" m] by simp
  next
    case 3
    then show ?thesis by simp
  qed
qed

lemma sint_diff_cases:
  fixes a b :: quad
  shows "sint (a - b) = (if sint a - sint b < - (2 ^ 63) then sint a - sint b + 2 ^ 64
     else if sint a - sint b \<ge> 2 ^ 63 then sint a - sint b - 2 ^ 64 else sint a - sint b)"
proof -
  have a: "- (2^63) \<le> sint a" "sint a < 2^63" and b: "- (2^63) \<le> sint b" "sint b < 2^63"
    using sint_range_size [of a] sint_range_size [of b] by (simp_all add: word_size)
  have "sint (a - b) = signed_take_bit 63 (sint a - sint b)"
    by (simp add: sint_word_ariths)
  also have "\<dots> = (if sint a - sint b < - (2 ^ 63) then sint a - sint b + 2 ^ 64
     else if sint a - sint b \<ge> 2 ^ 63 then sint a - sint b - 2 ^ 64 else sint a - sint b)"
    using a b
    by (simp add: signed_take_bit_eq_take_bit_shift take_bit_eq_mod int_mod_wrap)
  finally show ?thesis .
qed

lemma unat_and_63: "unat (v AND 63 :: quad) \<le> 63"
proof -
  have "v AND 63 \<le> (63 :: quad)" by (rule word_and_le1)
  then have "unat (v AND 63) \<le> unat (63 :: quad)" by (simp only: word_le_nat_alt)
  then show ?thesis by simp
qed

lemma sint_bounds_quad: "- (2 ^ 63) \<le> sint (a :: quad)" "sint a < 2 ^ 63"
  using sint_range_size [of a] by (simp_all add: word_size)

lemma sint_word_of_int_quad: "- (2 ^ 63) \<le> k \<Longrightarrow> k < 2 ^ 63 \<Longrightarrow> sint (word_of_int k :: quad) = k"
  by (simp add: sint_sbintrunc' signed_take_bit_int_eq_self)

lemma sint_inject: "sint (a :: 'a :: len word) = sint b \<longleftrightarrow> a = b"
  by (rule word_eq_iff_signed [symmetric])

lemma sint_scast_128: "sint (scast (a :: quad) :: line128) = sint a"
proof -
  have "- (2 ^ 127) \<le> sint a" "sint a < 2 ^ 127" using sint_bounds_quad [of a] by simp_all
  then have "signed_take_bit 127 (sint a) = sint a" by (rule signed_take_bit_int_eq_self)
  then show ?thesis by (simp only: scast_eq sint_sbintrunc') simp
qed

lemma sint_eq_min_iff: "sint (a :: quad) = - (2 ^ 63) \<longleftrightarrow> a = top_bit"
proof -
  have "sint top_bit = - (2 ^ 63)" by (simp add: top_bit_def)
  then show ?thesis by (simp only: sint_inject flip: \<open>sint top_bit = - (2 ^ 63)\<close>)
qed

subsection \<open>Products in 128 bits\<close>

lemma sint_uint_quad: "sint (a :: quad) = uint a - (if bit a 63 then 2 ^ 64 else 0)"
proof -
  have "sint a = signed_take_bit 63 (uint a)" by (simp add: sint_uint)
  also have "\<dots> = uint a - (if bit a 63 then 2 ^ 64 else 0)"
    using uint_lt2p [of a]
    by (auto simp: signed_take_bit_eq_take_bit_minus bit_uint_iff take_bit_int_eq_self) 
  finally show ?thesis .
qed

lemma scast_prod: "(scast a :: line128) * scast b = word_of_int (sint (a :: quad) * sint (b :: quad))"
  by (simp only: scast_eq wi_hom_mult)

lemma low_half: "ucast (word_of_int k :: line128) = (word_of_int k :: quad)"
  by (rule bit_word_eqI) (simp add: bit_simps)

lemma high_half: "ucast (drop_bit 64 (word_of_int k :: line128)) = (word_of_int (k div 2 ^ 64) :: quad)"
proof -
  have "k div 2 ^ 64 = drop_bit 64 k" by (simp add: drop_bit_eq_div)
  then show ?thesis by (auto intro!: bit_word_eqI simp: bit_simps simp del: drop_bit_numeral_minus_bit1)
qed

lemma signed_high_half:
  "ucast (signed_drop_bit 64 (word_of_int k :: line128)) = (word_of_int (k div 2 ^ 64) :: quad)"
proof -
  have "k div 2 ^ 64 = drop_bit 64 k" by (simp add: drop_bit_eq_div)
  then show ?thesis by (auto intro!: bit_word_eqI simp: bit_simps)
qed

lemma prod_low: "ucast ((scast a :: line128) * scast b) = (a :: quad) * (b :: quad)"
  by (simp only: scast_prod low_half) simp

lemma prod_high: "ucast (drop_bit 64 ((scast a :: line128) * scast b)) =
    (word_of_int ((sint (a :: quad) * sint (b :: quad)) div 2 ^ 64) :: quad)"
  by (simp only: scast_prod high_half)

lemma prod_signed_high: "ucast (signed_drop_bit 64 ((scast a :: line128) * scast b)) =
    (word_of_int ((sint (a :: quad) * sint (b :: quad)) div 2 ^ 64) :: quad)"
  by (simp only: scast_prod signed_high_half)

lemma prod_bounds:
  fixes a b :: quad
  shows "- (2 ^ 127) \<le> sint a * sint b" "sint a * sint b < 2 ^ 127"
proof -
  have "\<bar>sint a\<bar> \<le> 2 ^ 63" "\<bar>sint b\<bar> \<le> 2 ^ 63"
    using sint_bounds_quad [of a] sint_bounds_quad [of b] by auto
  then have "\<bar>sint a\<bar> * \<bar>sint b\<bar> \<le> 2 ^ 63 * 2 ^ 63" by (rule mult_mono) simp_all
  then have "\<bar>sint a * sint b\<bar> \<le> 2 ^ 126" by (simp add: abs_mult)
  then show "- (2 ^ 127) \<le> sint a * sint b" "sint a * sint b < 2 ^ 127" by auto
qed

lemma sint_prod_128: "sint ((scast (a :: quad) :: line128) * scast (b :: quad)) = sint a * sint b"
  unfolding scast_prod sint_sbintrunc'
  using prod_bounds [of a b] by (simp add: signed_take_bit_int_eq_self)

lemma prod_neq_scast_iff:
  "((scast (a :: quad) :: line128) * scast (b :: quad) \<noteq> scast (c :: quad)) \<longleftrightarrow>
     sint a * sint b \<noteq> sint c"
  unfolding sint_inject [symmetric] sint_prod_128 sint_scast_128 by (rule refl)

lemma sint_mult_eq_iff:
  "sint (a * b) = sint a * sint b \<longleftrightarrow> - (2 ^ 63) \<le> sint a * sint b \<and> sint a * sint b < 2 ^ 63"
  for a b :: quad
proof -
  have "sint (a * b) = signed_take_bit 63 (sint a * sint b)" by (simp add: sint_word_ariths)
  then show ?thesis by (simp only: signed_take_bit_int_eq_self_iff)
qed

lemma narrow_sint: "sint (ucast (a :: quad) :: cint) = signed_take_bit 31 (sint a)"
  by transfer (simp add: signed_take_bit_take_bit min_def)

lemma narrow_signed_eq_iff:
  "signed (ucast (a :: quad) :: cint) = a \<longleftrightarrow> - (2 ^ 31) \<le> sint a \<and> sint a < 2 ^ 31"
proof -
  have "sint (signed (ucast a :: cint) :: quad) = sint (ucast a :: cint)"
    by transfer (simp add: signed_take_bit_signed_take_bit)
  then have "signed (ucast a :: cint) = a \<longleftrightarrow> signed_take_bit 31 (sint a) = sint a"
    by (simp only: sint_inject [symmetric] narrow_sint)
  then show ?thesis by (simp only: signed_take_bit_int_eq_self_iff)
qed

end
