(* ===== verification/Common.thy ===== *)
theory Common
  imports Prelude
begin

text \<open>
  The data shared by the pipeline stages (\<^verbatim>\<open>core-project/common.h\<close>, \<^verbatim>\<open>common.cc\<close>,
  \<^verbatim>\<open>const.h\<close>): the micro-operation, the architectural register file, the constants, and the
  global variables through which the stages talk to each other.

  The mnemonic and register codes are enumerators of the disassembler's headers, which are not
  part of the repository; the model needs of them only that they are distinct, so they are
  datatypes, with one constructor for every enumerator the source names and an \<open>other\<close>
  constructor for the rest. The three scratch registers (\<^verbatim>\<open>scratchreg\<close> = 999,
  \<^verbatim>\<open>scratchregls\<close> = 888, \<^verbatim>\<open>load_store_reg\<close> = 666) are register codes outside that
  enumeration, and \<^verbatim>\<open>UD_NONE\<close> is the code 0 that an empty operand field holds.
\<close>

subsection \<open>Enumerations\<close>

datatype src_type = NO_SRC | REG | IMMED | IMUL_1 | IMUL_2R | IMUL_2I | IMUL_3 | LOADMUL

datatype mem_op = NONE | READ | WRITE

datatype mnemonic =
    UD_Imov | UD_Icqo | UD_Iadd | UD_Isub | UD_Idec | UD_Iinc | UD_Imul | UD_Idiv | UD_Iidiv
  | UD_Iimul | UD_Iand | UD_Ior | UD_Ixor | UD_Ineg | UD_Inop | UD_Isyscall | UD_Icall
  | UD_Iret | UD_Ipop | UD_Ipush | UD_Iload | UD_Istore | UD_Ipushfq | UD_Itest | UD_Icmp
  | UD_Ijmp | UD_Ija | UD_Ijz | UD_Ijnz | UD_Ijb | UD_Ijl | UD_Ijle | UD_Ijg | UD_Ijge
  | UD_Icmovnz | UD_Icmovns | UD_Icmovg | UD_Ishr | UD_Isar | UD_Ishl | UD_Isal
  | UD_Ilea | UD_Iinvalid | UD_Iother nat

datatype reg =
    UD_NONE
  | UD_R_RAX | UD_R_RBX | UD_R_RCX | UD_R_RDX | UD_R_RSP | UD_R_RBP | UD_R_RSI | UD_R_RDI
  | UD_R_R8 | UD_R_R9 | UD_R_R10 | UD_R_R11 | UD_R_R12 | UD_R_R13 | UD_R_R14 | UD_R_R15
  | UD_R_RIP
  | Scratchreg | Scratchregls | Load_store_reg
  | UD_R_other nat

subsection \<open>Constants of \<open>const.h\<close>\<close>

definition mem_size :: addr where
  "mem_size = 64 * 1024 * 1024"

definition mem_base :: addr where
  "mem_base = 0x4000000000"

definition stack_base :: addr where
  "stack_base = mem_size - 1024"

subsection \<open>The micro-operation and the register file\<close>

record uop =
  src :: src_type
  address :: addr
  opcode :: mnemonic
  reg1 :: reg
  value1 :: quad
  reg2 :: reg
  value2 :: quad
  reg3 :: reg
  value3 :: quad
  immed :: quad
  opsize :: cint

record ARF =
  rax :: quad
  rbx :: quad
  rcx :: quad
  rdx :: quad
  rsp :: quad
  rbp :: quad
  rsi :: quad
  rdi :: quad
  r8 :: quad
  r9 :: quad
  r10 :: quad
  r11 :: quad
  r12 :: quad
  r13 :: quad
  r14 :: quad
  r15 :: quad
  rip :: quad

text \<open>\<^verbatim>\<open>Op.address + Op.opsize\<close>: the address of the next instruction.\<close>

definition next_addr :: "uop \<Rightarrow> addr" where
  "next_addr u = address u + signed (opsize u)"

subsection \<open>The global variables\<close>

text \<open>
  \<^verbatim>\<open>regfile\<close>, the three queues between the stages, \<^verbatim>\<open>RIP_jump\<close> and \<^verbatim>\<open>offsetreg_value\<close>
  are globals of \<^verbatim>\<open>common.cc\<close>; \<^verbatim>\<open>brk_val\<close> is the global of \<^verbatim>\<open>memory.cc\<close> that the
  system calls move. A queue is a list whose head is its front. \<^verbatim>\<open>core_stack\<close> is declared
  but never used and has no field; \<^verbatim>\<open>sys_log\<close> records the effects of system calls.
\<close>

text \<open>
  The effects of system calls outside the simulated core, in order: output handed to the host, the
  end of the simulation, and 64-bit stores that go to the simulated RAM past the cache model.
\<close>

datatype sys_effect =
    Host_write quad addr quad
  | Sim_stop
  | Poke64 addr quad

record globals =
  regfile :: ARF
  dd_uop_queue :: "uop list"
  de_uop_queue :: "uop list"
  ew_uop_queue :: "uop list"
  RIP_jump :: bool
  offsetreg_value :: quad
  brk_val :: quad
  sys_log :: "sys_effect list"

definition ARF_zero :: ARF where
  "ARF_zero = \<lparr>rax = 0, rbx = 0, rcx = 0, rdx = 0, rsp = 0, rbp = 0, rsi = 0, rdi = 0, r8 = 0,
     r9 = 0, r10 = 0, r11 = 0, r12 = 0, r13 = 0, r14 = 0, r15 = 0, rip = 0\<rparr>"

definition globals_init :: globals where
  "globals_init = \<lparr>regfile = ARF_zero, dd_uop_queue = [], de_uop_queue = [], ew_uop_queue = [],
     RIP_jump = False, offsetreg_value = 0, brk_val = 0, sys_log = []\<rparr>"

text \<open>A micro-operation with every field empty, used to write concrete ones.\<close>

definition uop_empty :: uop where
  "uop_empty = \<lparr>src = NO_SRC, address = 0, opcode = UD_Inop, reg1 = UD_NONE, value1 = 0,
     reg2 = UD_NONE, value2 = 0, reg3 = UD_NONE, value3 = 0, immed = 0, opsize = 0\<rparr>"

subsection \<open>Reading and writing a register by its code\<close>

text \<open>
  What a register code names in the register file: \<open>None\<close> for a code that no case of the
  stages' \<^verbatim>\<open>switch\<close> statements lists. \<^verbatim>\<open>UD_R_RIP\<close> is left to the stages, which read it
  from the micro-operation, not from the register file.
\<close>

fun arf_get :: "ARF \<Rightarrow> reg \<Rightarrow> quad option" where
  "arf_get f UD_R_RAX = Some (rax f)"
| "arf_get f UD_R_RBX = Some (rbx f)"
| "arf_get f UD_R_RCX = Some (rcx f)"
| "arf_get f UD_R_RDX = Some (rdx f)"
| "arf_get f UD_R_RSP = Some (rsp f)"
| "arf_get f UD_R_RBP = Some (rbp f)"
| "arf_get f UD_R_RSI = Some (rsi f)"
| "arf_get f UD_R_RDI = Some (rdi f)"
| "arf_get f UD_R_R8 = Some (r8 f)"
| "arf_get f UD_R_R9 = Some (r9 f)"
| "arf_get f UD_R_R10 = Some (r10 f)"
| "arf_get f UD_R_R11 = Some (r11 f)"
| "arf_get f UD_R_R12 = Some (r12 f)"
| "arf_get f UD_R_R13 = Some (r13 f)"
| "arf_get f UD_R_R14 = Some (r14 f)"
| "arf_get f UD_R_R15 = Some (r15 f)"
| "arf_get f _ = None"

definition is_gpr :: "reg \<Rightarrow> bool" where
  "is_gpr r = (r \<in> {UD_R_RAX, UD_R_RBX, UD_R_RCX, UD_R_RDX, UD_R_RSP, UD_R_RBP, UD_R_RSI,
     UD_R_RDI, UD_R_R8, UD_R_R9, UD_R_R10, UD_R_R11, UD_R_R12, UD_R_R13, UD_R_R14, UD_R_R15})"

lemma arf_get_None_iff [simp]: "arf_get f r = None \<longleftrightarrow> \<not> is_gpr r"
  by (cases r) (simp_all add: is_gpr_def)

lemma arf_get_is_gpr: "is_gpr r \<Longrightarrow> \<exists>v. arf_get f r = Some v"
  using arf_get_None_iff [of f r] by (cases "arf_get f r") simp_all

lemma arf_get_SomeD [dest]: "arf_get f r = Some v \<Longrightarrow> is_gpr r"
  using arf_get_None_iff [of f r] by auto

lemma is_gpr_simps [simp]:
  "is_gpr UD_R_RAX" "is_gpr UD_R_RBX" "is_gpr UD_R_RCX" "is_gpr UD_R_RDX" "is_gpr UD_R_RSP"
  "is_gpr UD_R_RBP" "is_gpr UD_R_RSI" "is_gpr UD_R_RDI" "is_gpr UD_R_R8" "is_gpr UD_R_R9"
  "is_gpr UD_R_R10" "is_gpr UD_R_R11" "is_gpr UD_R_R12" "is_gpr UD_R_R13" "is_gpr UD_R_R14"
  "is_gpr UD_R_R15" "\<not> is_gpr UD_NONE" "\<not> is_gpr UD_R_RIP" "\<not> is_gpr Scratchreg"
  "\<not> is_gpr Scratchregls" "\<not> is_gpr Load_store_reg" "\<not> is_gpr (UD_R_other n)"
  by (simp_all add: is_gpr_def)

text \<open>
  Writing a register by its code, as the \<^verbatim>\<open>switch\<close> of the writeback stage does: a code it does
  not list changes nothing.
\<close>

fun arf_set :: "ARF \<Rightarrow> reg \<Rightarrow> quad \<Rightarrow> ARF" where
  "arf_set f UD_R_RAX v = f\<lparr>rax := v\<rparr>"
| "arf_set f UD_R_RBX v = f\<lparr>rbx := v\<rparr>"
| "arf_set f UD_R_RCX v = f\<lparr>rcx := v\<rparr>"
| "arf_set f UD_R_RDX v = f\<lparr>rdx := v\<rparr>"
| "arf_set f UD_R_RSP v = f\<lparr>rsp := v\<rparr>"
| "arf_set f UD_R_RBP v = f\<lparr>rbp := v\<rparr>"
| "arf_set f UD_R_RSI v = f\<lparr>rsi := v\<rparr>"
| "arf_set f UD_R_RDI v = f\<lparr>rdi := v\<rparr>"
| "arf_set f UD_R_R8 v = f\<lparr>r8 := v\<rparr>"
| "arf_set f UD_R_R9 v = f\<lparr>r9 := v\<rparr>"
| "arf_set f UD_R_R10 v = f\<lparr>r10 := v\<rparr>"
| "arf_set f UD_R_R11 v = f\<lparr>r11 := v\<rparr>"
| "arf_set f UD_R_R12 v = f\<lparr>r12 := v\<rparr>"
| "arf_set f UD_R_R13 v = f\<lparr>r13 := v\<rparr>"
| "arf_set f UD_R_R14 v = f\<lparr>r14 := v\<rparr>"
| "arf_set f UD_R_R15 v = f\<lparr>r15 := v\<rparr>"
| "arf_set f UD_R_RIP v = f\<lparr>rip := v\<rparr>"
| "arf_set f _ v = f"

lemma arf_get_set_same: "is_gpr r \<Longrightarrow> arf_get (arf_set f r v) r = Some v"
  by (cases r) simp_all

lemma arf_get_set_other: "r \<noteq> r' \<Longrightarrow> arf_get (arf_set f r v) r' = arf_get f r'"
  by (cases r; cases r') simp_all

subsection \<open>The register interface\<close>

text \<open>
  What dispatch and writeback rely on when they share the register file: a register that exists
  can be read, a write is seen by a read of the same register and by no other. The lemmas are the
  consequences the stages use, proved from the three laws alone.
\<close>

locale register_bank =
  fixes get_reg :: "'f \<Rightarrow> 'r \<Rightarrow> 'v option"
    and put_reg :: "'f \<Rightarrow> 'r \<Rightarrow> 'v \<Rightarrow> 'f"
    and real_reg :: "'r \<Rightarrow> bool"
  assumes get_real: "get_reg f r \<noteq> None \<longleftrightarrow> real_reg r"
    and get_put_same: "real_reg r \<Longrightarrow> get_reg (put_reg f r v) r = Some v"
    and get_put_other: "r \<noteq> r' \<Longrightarrow> get_reg (put_reg f r v) r' = get_reg f r'"
begin

lemma get_put: "get_reg (put_reg f r v) r' =
    (if r = r' \<and> real_reg r' then Some v else get_reg f r')"
proof (cases "r = r' \<and> \<not> real_reg r'")
  case True
  then have "get_reg (put_reg f r v) r' = None" and "get_reg f r' = None"
    using get_real by blast+
  with True show ?thesis by simp
next
  case False
  then show ?thesis by (auto simp: get_put_same get_put_other)
qed

text \<open>A sequence of writes, oldest first.\<close>

lemma get_put_all:
  "get_reg (fold (\<lambda>(r, v) f. put_reg f r v) ws f) r =
     (if real_reg r then (case map_of (rev ws) r of None \<Rightarrow> get_reg f r | Some v \<Rightarrow> Some v)
      else None)"
proof (induction ws arbitrary: f)
  case Nil
  then show ?case using get_real [of f r] by (cases "get_reg f r") auto
next
  case (Cons w ws)
  then show ?case
    by (cases w) (auto simp: get_put map_add_def split: option.splits)
qed

end

interpretation arf: register_bank arf_get arf_set is_gpr
proof unfold_locales
  show "(arf_get f r \<noteq> None) = is_gpr r" for f r by simp
  show "arf_get (arf_set f r v) r = Some v" if "is_gpr r" for f r v
    using that by (rule arf_get_set_same)
  show "arf_get (arf_set f r v) r' = arf_get f r'" if "r \<noteq> r'" for f r r' v
    using that by (rule arf_get_set_other)
qed

end
