(* ===== verification/Alu.thy ===== *)
theory Alu
  imports Common "HOL-Library.Signed_Division"
begin

unbundle bit_operations_syntax

text \<open>
  The arithmetic of the execute stage (\<^verbatim>\<open>core-project/execute.cc\<close>: \<^verbatim>\<open>do_shift\<close> and the
  arithmetic, flag and condition cases of the \<^verbatim>\<open>switch\<close> in \<^verbatim>\<open>Execute::work\<close>). An
  operation maps the current micro-operation and the flags register to the new ones, or to a
  fault: the host traps on a division by zero, and \<^verbatim>\<open>__builtin_clz(0)\<close> has no defined value.
  Signed \<^verbatim>\<open>long long\<close> arithmetic wraps, as the unoptimised build of the repository does.
\<close>

datatype fault =
    Divide_error
  | Undefined_behaviour
  | Assertion_failed
  | Pop_of_empty_queue

subsection \<open>The flags register\<close>

text \<open>\<^verbatim>\<open>bitset<64> eflags\<close> with the bit positions of the \<^verbatim>\<open>MASK_\<close> macros.\<close>

definition MASK_CF :: nat where "MASK_CF = 0"

definition MASK_ZF :: nat where "MASK_ZF = 6"

definition MASK_SF :: nat where "MASK_SF = 7"

definition MASK_OF :: nat where "MASK_OF = 11"

lemmas mask_defs = MASK_CF_def MASK_ZF_def MASK_SF_def MASK_OF_def

text \<open>\<^verbatim>\<open>if (b) eflags.set(n); else eflags.reset(n);\<close>\<close>

definition flag_put :: "nat \<Rightarrow> bool \<Rightarrow> quad \<Rightarrow> quad" where
  "flag_put n b e = (if b then set_bit n e else unset_bit n e)"

lemma bit_flag_put: "n < 64 \<Longrightarrow> bit (flag_put n b e) m = (if m = n then b else bit e m)"
  by (auto simp: flag_put_def bit_set_bit_iff bit_unset_bit_iff)

lemma flag_put_CF [simp]: "bit (flag_put MASK_CF b e) m = (if m = MASK_CF then b else bit e m)"
  and flag_put_ZF [simp]: "bit (flag_put MASK_ZF b e) m = (if m = MASK_ZF then b else bit e m)"
  and flag_put_SF [simp]: "bit (flag_put MASK_SF b e) m = (if m = MASK_SF then b else bit e m)"
  and flag_put_OF [simp]: "bit (flag_put MASK_OF b e) m = (if m = MASK_OF then b else bit e m)"
  by (simp_all add: bit_flag_put mask_defs)

lemma mask_distinct [simp]:
  "MASK_CF \<noteq> MASK_ZF" "MASK_CF \<noteq> MASK_SF" "MASK_CF \<noteq> MASK_OF" "MASK_ZF \<noteq> MASK_CF"
  "MASK_ZF \<noteq> MASK_SF" "MASK_ZF \<noteq> MASK_OF" "MASK_SF \<noteq> MASK_CF" "MASK_SF \<noteq> MASK_ZF"
  "MASK_SF \<noteq> MASK_OF" "MASK_OF \<noteq> MASK_CF" "MASK_OF \<noteq> MASK_ZF" "MASK_OF \<noteq> MASK_SF"
  by (simp_all add: mask_defs)

subsection \<open>Shifts\<close>

text \<open>One turn of the loop of \<^verbatim>\<open>do_shift\<close> on \<^verbatim>\<open>tempval\<close> and the flags.\<close>

definition shift_step :: "mnemonic \<Rightarrow> quad \<times> quad \<Rightarrow> quad \<times> quad" where
  "shift_step m te = (case te of (tempval, e) \<Rightarrow>
     if m = UD_Isal \<or> m = UD_Ishl
     then (tempval * 2, flag_put MASK_CF (tempval AND top_bit = top_bit) e)
     else if m = UD_Isar
     then (signed_drop_bit 1 tempval, flag_put MASK_CF (tempval AND 1 = 1) e)
     else if m = UD_Ishr
     then (drop_bit 1 tempval, flag_put MASK_CF (tempval AND 1 = 1) e)
     else (tempval, e))"

text \<open>
  \<^verbatim>\<open>Op.value1 & countmask == 1\<close> parses as \<^verbatim>\<open>Op.value1 & (countmask == 1)\<close>; the
  overflow computations truncate a 64-bit mask to \<^verbatim>\<open>int\<close>.
\<close>

definition shift_overflow :: "uop \<Rightarrow> quad \<Rightarrow> quad \<Rightarrow> quad" where
  "shift_overflow u tempval e =
     (if value1 u AND of_bool ((63 :: cint) = 1) \<noteq> 0
      then (if opcode u = UD_Isal \<or> opcode u = UD_Ishl
            then flag_put MASK_OF
                   ((ucast ((tempval AND top_bit) XOR of_bool (bit e MASK_CF)) :: cint) \<noteq> 0) e
            else if opcode u = UD_Isar then flag_put MASK_OF False e
            else if opcode u = UD_Ishr
            then flag_put MASK_OF ((ucast (value2 u AND top_bit) :: cint) \<noteq> 0) e
            else e)
      else e)"

definition do_shift :: "uop \<Rightarrow> quad \<Rightarrow> uop \<times> quad" where
  "do_shift u e =
     (let count = unat (value1 u AND 63);
          (tempval, e1) = (shift_step (opcode u) ^^ count) (value2 u, e)
      in (u\<lparr>value2 := tempval\<rparr>, shift_overflow u tempval e1))"

subsection \<open>Multiplication and division\<close>

text \<open>\<^verbatim>\<open>__builtin_clz\<close> counts the leading zeros of an \<^verbatim>\<open>unsigned int\<close>.\<close>

definition builtin_clz :: "cint \<Rightarrow> int option" where
  "builtin_clz w =
     (if w = 0 then None
      else Some (int (length (takeWhile (\<lambda>i. \<not> bit w i) (rev [0..<32])))))"

definition alu_mul :: "uop \<Rightarrow> fault + uop" where
  "alu_mul u =
     (if value1 u = 0 \<or> value2 u = 0 then Inr (u\<lparr>value2 := 0\<rparr>)
      else case (builtin_clz (ucast (value1 u)), builtin_clz (ucast (value2 u))) of
        (Some c1, Some c2) \<Rightarrow>
          (let msb1 = 64 - c1; msb2 = 64 - c2 in
           if msb1 + msb2 > 65
           then (let tempval = (scast (value2 u) :: line128) * scast (value1 u) in
                 Inr (u\<lparr>value2 := ucast tempval, value3 := ucast (drop_bit 64 tempval)\<rparr>))
           else Inr (u\<lparr>value2 := value2 u * value1 u, value3 := 0\<rparr>))
      | _ \<Rightarrow> Inl Undefined_behaviour)"

definition alu_div :: "uop \<Rightarrow> fault + uop" where
  "alu_div u =
     (if value1 u = 0 then Inl Divide_error
      else if value3 u \<noteq> 0
      then (let tempval = push_bit 64 (scast (value3 u) :: line128) OR scast (value2 u) in
            Inr (u\<lparr>value2 := (ucast tempval :: quad) div value1 u,
                   value3 := (ucast tempval :: quad) mod value1 u\<rparr>))
      else Inr (u\<lparr>value3 := value2 u mod value1 u, value2 := value2 u div value1 u\<rparr>))"

text \<open>
  Signed division truncates (\<open>sdiv\<close>, \<open>smod\<close>); the hardware traps when the divisor is 0 and when
  the quotient of the 64-bit division does not fit. The 128-bit division of the first branch is
  done in software and only traps on a zero divisor.
\<close>

definition alu_idiv :: "uop \<Rightarrow> fault + uop" where
  "alu_idiv u =
     (if value1 u = 0 then Inl Divide_error
      else if value3 u \<noteq> 0
      then (let tempval = push_bit 64 (scast (value3 u) :: line128) OR scast (value2 u) in
            Inr (u\<lparr>value2 := word_of_int (sint tempval sdiv sint (value1 u)),
                   value3 := word_of_int (sint tempval smod sint (value1 u))\<rparr>))
      else if value2 u = top_bit \<and> value1 u = - 1 then Inl Divide_error
      else Inr (u\<lparr>value3 := word_of_int (sint (value2 u) smod sint (value1 u)),
                  value2 := word_of_int (sint (value2 u) sdiv sint (value1 u))\<rparr>))"

definition alu_imul :: "uop \<Rightarrow> quad \<Rightarrow> uop \<times> quad" where
  "alu_imul u e =
     (if src u = IMUL_1
      then (let tempval = (scast (value2 u) :: line128) * scast (value1 u);
                hi = (ucast (signed_drop_bit 64 tempval) :: quad)
            in (u\<lparr>value2 := ucast tempval, value3 := hi\<rparr>,
                flag_put MASK_OF (hi \<noteq> 0) (flag_put MASK_CF (hi \<noteq> 0) e)))
      else if src u = IMUL_2I \<or> src u = IMUL_2R
      then (let v2 = value2 u * value1 u;
                tempval = (scast v2 :: line128) * scast (value1 u);
                over = (tempval \<noteq> scast v2)
            in (u\<lparr>value2 := v2\<rparr>, flag_put MASK_OF over (flag_put MASK_CF over e)))
      else if src u = IMUL_3
      then (let v2 = value3 u * value1 u;
                tempval = (scast (value3 u) :: line128) * scast (value1 u);
                over = (tempval \<noteq> scast v2)
            in (u\<lparr>value2 := v2\<rparr>, flag_put MASK_OF over (flag_put MASK_CF over e)))
      else if src u = LOADMUL then (u\<lparr>value2 := value2 u * value1 u\<rparr>, e)
      else (u, e))"

subsection \<open>Test and compare\<close>

definition alu_test :: "uop \<Rightarrow> quad \<Rightarrow> quad" where
  "alu_test u e =
     (let tempval = value1 u AND value2 u in
      flag_put MASK_OF False (flag_put MASK_CF False
        (flag_put MASK_ZF (tempval = 0)
          (flag_put MASK_SF (tempval AND top_bit = 1) e))))"

text \<open>The sign variables of \<^verbatim>\<open>cmp\<close> are \<^verbatim>\<open>int\<close>s that hold a truncated 64-bit mask.\<close>

definition alu_cmp :: "uop \<Rightarrow> quad \<Rightarrow> quad" where
  "alu_cmp u e =
     (let tempval = value2 u - value1 u;
          sign_op1 = (ucast (value1 u AND top_bit) :: cint);
          sign_op2 = (ucast (value2 u AND top_bit) :: cint);
          sum_sign = (ucast (tempval AND top_bit) :: cint)
      in flag_put MASK_OF
           ((sign_op1 = 0 \<and> sign_op2 = 0 \<and> sum_sign \<noteq> 0)
            \<or> (sign_op1 \<noteq> 0 \<and> sign_op2 \<noteq> 0 \<and> sum_sign = 0))
           (flag_put MASK_CF (value2 u < value1 u)
             (flag_put MASK_SF (tempval AND top_bit = top_bit)
               (flag_put MASK_ZF (tempval = 0) e))))"

subsection \<open>The remaining arithmetic cases\<close>

definition alu_cqo :: "uop \<Rightarrow> uop" where
  "alu_cqo u =
     (if value1 u AND top_bit = top_bit then u\<lparr>value2 := value2 u OR - 1\<rparr> else u\<lparr>value2 := 0\<rparr>)"

definition alu_neg :: "uop \<Rightarrow> quad \<Rightarrow> uop \<times> quad" where
  "alu_neg u e =
     (u\<lparr>reg2 := reg1 u, value2 := - value1 u\<rparr>, flag_put MASK_CF (value1 u \<noteq> 0) e)"

text \<open>The conditions of the conditional jumps and moves.\<close>

fun jump_condition :: "mnemonic \<Rightarrow> quad \<Rightarrow> bool" where
  "jump_condition UD_Ijmp e = True"
| "jump_condition UD_Ija e = (\<not> (bit e MASK_CF \<or> bit e MASK_ZF))"
| "jump_condition UD_Ijz e = bit e MASK_ZF"
| "jump_condition UD_Ijnz e = (\<not> bit e MASK_ZF)"
| "jump_condition UD_Ijb e = bit e MASK_CF"
| "jump_condition UD_Ijl e = (bit e MASK_SF \<noteq> bit e MASK_OF)"
| "jump_condition UD_Ijle e = ((bit e MASK_SF \<noteq> bit e MASK_OF) \<or> bit e MASK_ZF)"
| "jump_condition UD_Ijg e = (\<not> ((bit e MASK_SF \<noteq> bit e MASK_OF) \<or> bit e MASK_ZF))"
| "jump_condition UD_Ijge e = (\<not> (bit e MASK_SF \<noteq> bit e MASK_OF))"
| "jump_condition _ e = False"

fun cmov_condition :: "mnemonic \<Rightarrow> quad \<Rightarrow> bool" where
  "cmov_condition UD_Icmovnz e = (\<not> bit e MASK_ZF)"
| "cmov_condition UD_Icmovns e = (\<not> bit e MASK_SF)"
| "cmov_condition UD_Icmovg e = (\<not> ((bit e MASK_SF \<noteq> bit e MASK_OF) \<or> bit e MASK_ZF))"
| "cmov_condition _ e = False"

subsection \<open>Flags after a compare or a test\<close>

lemma flag_put_absorb: "n < 64 \<Longrightarrow> flag_put n b (flag_put n c e) = flag_put n b e"
  by (rule bit_word_eqI) (simp add: bit_flag_put)

lemma flag_put_CF_absorb [simp]: "flag_put MASK_CF b (flag_put MASK_CF c e) = flag_put MASK_CF b e"
  by (rule flag_put_absorb) (simp add: mask_defs)

lemma alu_cmp_flags:
  "bit (alu_cmp u e) MASK_ZF \<longleftrightarrow> value2 u = value1 u"
  "bit (alu_cmp u e) MASK_CF \<longleftrightarrow> value2 u < value1 u"
  "bit (alu_cmp u e) MASK_SF \<longleftrightarrow> sint (value2 u - value1 u) < 0"
  "\<not> bit (alu_cmp u e) MASK_OF"
  by (simp_all add: alu_cmp_def Let_def bit63_sint)

lemma alu_test_flags:
  "bit (alu_test u e) MASK_ZF \<longleftrightarrow> value1 u AND value2 u = 0"
  "\<not> bit (alu_test u e) MASK_CF"
  "\<not> bit (alu_test u e) MASK_SF"
  "\<not> bit (alu_test u e) MASK_OF"
  by (simp_all add: alu_test_def Let_def)

text \<open>The signed difference leaves the range of a 64-bit integer.\<close>

definition sub_overflows :: "quad \<Rightarrow> quad \<Rightarrow> bool" where
  "sub_overflows b a = (sint b - sint a < - (2 ^ 63) \<or> 2 ^ 63 \<le> sint b - sint a)"

lemma sint_diff_neg_iff:
  "(sint (b - a) < 0 \<longleftrightarrow> sint b < sint (a :: quad)) \<longleftrightarrow> \<not> sub_overflows b a"
  using sint_bounds_quad [of a] sint_bounds_quad [of b] sint_diff_cases [of b a]
  by (auto simp: sub_overflows_def)

subsection \<open>Closed forms of the shifts\<close>

lemma shift_step_pow_sal:
  assumes "m = UD_Isal \<or> m = UD_Ishl" and "n \<le> 63"
  shows "(shift_step m ^^ n) (v, e) =
    (push_bit n v, if n = 0 then e else flag_put MASK_CF (bit v (64 - n)) e)"
  using assms(2)
proof (induction n)
  case 0
  then show ?case by simp
next
  case (Suc n)
  have "bit (push_bit n v) 63 = bit v (63 - n)"
    using Suc.prems by (simp add: bit_push_bit_iff)
  with Suc assms(1) show ?case
    by (auto simp: shift_step_def flag_put_absorb push_bit_Suc_double)
qed

lemma shift_step_pow_sar:
  assumes "n \<le> 63"
  shows "(shift_step UD_Isar ^^ n) (v, e) =
    (signed_drop_bit n v, if n = 0 then e else flag_put MASK_CF (bit v (n - 1)) e)"
  using assms
proof (induction n)
  case 0
  then show ?case by simp
next
  case (Suc n)
  then have "bit (signed_drop_bit n v) 0 = bit v n"
    by (simp add: bit_signed_drop_bit_iff)
  with Suc show ?case by (auto simp: shift_step_def)
qed

lemma shift_step_pow_shr:
  assumes "n \<le> 63"
  shows "(shift_step UD_Ishr ^^ n) (v, e) =
    (drop_bit n v, if n = 0 then e else flag_put MASK_CF (bit v (n - 1)) e)"
  using assms
proof (induction n)
  case 0
  then show ?case by simp
next
  case (Suc n)
  then have "bit (drop_bit n v) 0 = bit v n"
    by (simp add: bit_drop_bit_eq)
  with Suc show ?case by (auto simp: shift_step_def drop_bit_drop_bit)
qed

lemma shift_overflow_id [simp]: "shift_overflow u t e = e"
  by (simp add: shift_overflow_def)

text \<open>What a shift by \<open>n\<close> should compute, and the last bit it shifts out.\<close>

definition shift_result :: "mnemonic \<Rightarrow> nat \<Rightarrow> quad \<Rightarrow> quad" where
  "shift_result m n v =
     (if m = UD_Isar then signed_drop_bit n v else if m = UD_Ishr then drop_bit n v
      else push_bit n v)"

definition shift_carry :: "mnemonic \<Rightarrow> nat \<Rightarrow> quad \<Rightarrow> bool" where
  "shift_carry m n v = (if m = UD_Isar \<or> m = UD_Ishr then bit v (n - 1) else bit v (64 - n))"

subsection \<open>Closed forms of multiplication and division\<close>

lemma builtin_clz_bound: "w \<noteq> 0 \<Longrightarrow> \<exists>c. builtin_clz w = Some c \<and> 0 \<le> c \<and> c \<le> 31"
proof -
  assume "w \<noteq> 0"
  then obtain i where "bit w i" by (auto simp: bit_eq_iff)
  then have i: "i < 32" "bit w i" using bit_imp_le_length [of w i] by simp_all
  let ?xs = "rev [0..<32]"
  have "length (takeWhile (\<lambda>i. \<not> bit w i) ?xs) < length ?xs"
    using i by (intro length_takeWhile_less) auto
  then have "length (takeWhile (\<lambda>i. \<not> bit w i) ?xs) \<le> 31" by simp
  with \<open>w \<noteq> 0\<close> show ?thesis by (simp add: builtin_clz_def)
qed

lemma alu_mul_eq:
  assumes "ucast (value1 u) \<noteq> (0 :: cint)" and "ucast (value2 u) \<noteq> (0 :: cint)"
  shows "alu_mul u = Inr (u\<lparr>value2 := value2 u * value1 u,
    value3 := word_of_int ((sint (value2 u) * sint (value1 u)) div 2 ^ 64)\<rparr>)"
proof -
  have nz: "value1 u \<noteq> 0" "value2 u \<noteq> 0" using assms by auto
  obtain c1 c2 where "builtin_clz (ucast (value1 u)) = Some c1" "c1 \<le> 31"
      and "builtin_clz (ucast (value2 u)) = Some c2" "c2 \<le> 31"
    using builtin_clz_bound [OF assms(1)] builtin_clz_bound [OF assms(2)] by blast
  with nz show ?thesis
    by (simp add: alu_mul_def Let_def prod_low prod_high)
qed

lemma alu_mul_unsigned_high:
  "word_of_int ((sint b * sint a) div 2 ^ 64) =
     (word_of_int ((uint b * uint a) div 2 ^ 64) :: quad)
       - (if bit b 63 then a else 0) - (if bit (a :: quad) 63 then (b :: quad) else 0)"
proof -
  let ?p = "if bit b 63 then 1 else (0::int)" and ?q = "if bit a 63 then 1 else (0::int)"
  have "sint b * sint a = uint b * uint a + 2 ^ 64 * (2 ^ 64 * (?p * ?q) - ?p * uint a - ?q * uint b)"
    unfolding sint_uint_quad by (simp add: algebra_simps)
  then have "(sint b * sint a) div 2 ^ 64 =
      (uint b * uint a) div 2 ^ 64 + (2 ^ 64 * (?p * ?q) - ?p * uint a - ?q * uint b)"
    by simp
  then have "word_of_int ((sint b * sint a) div 2 ^ 64) =
      (word_of_int ((uint b * uint a) div 2 ^ 64) :: quad)
       + (word_of_int (2 ^ 64) * word_of_int (?p * ?q) - word_of_int (?p * uint a)
          - word_of_int (?q * uint b))"
    by (simp only: wi_homs)
  moreover have "word_of_int (2 ^ 64) = (0 :: quad)" by simp
  ultimately show ?thesis by simp
qed

lemma div_word_low: "(ucast (push_bit 64 (scast (c :: quad) :: line128) OR scast (b :: quad)) :: quad) = b"
  by (rule bit_word_eqI) (simp add: bit_simps)

lemma alu_div_eq:
  "value1 u \<noteq> 0 \<Longrightarrow>
   alu_div u = Inr (u\<lparr>value2 := value2 u div value1 u, value3 := value2 u mod value1 u\<rparr>)"
  by (simp add: alu_div_def Let_def div_word_low)

lemma cqo_pair:
  "push_bit 64 (scast (if bit a 63 then - 1 else 0 :: quad) :: line128) OR scast (a :: quad) = scast a"
  by (rule bit_word_eqI) (auto simp: bit_simps min_def not_less)

lemma quotient_fits:
  fixes a b :: quad
  assumes "\<not> (a = top_bit \<and> b = - 1)"
  shows "sint (word_of_int (sint a sdiv sint b) :: quad) = sint a sdiv sint b"
proof (rule sint_word_of_int_quad)
  have r: "- \<bar>sint a\<bar> \<le> sint a sdiv sint b" "sint a sdiv sint b \<le> \<bar>sint a\<bar>"
    using sdiv_int_range [of "sint a" "sint b"] by auto
  show "- (2 ^ 63) \<le> sint a sdiv sint b" using r(1) sint_bounds_quad [of a] by linarith
  show "sint a sdiv sint b < 2 ^ 63"
  proof (cases "a = top_bit")
    case True
    then have m: "sint a = - (2 ^ 63)" by (simp only: sint_eq_min_iff)
    have "sint b \<noteq> - 1" using assms True sint_inject [of b "- 1"] by simp
    then have "sint a sdiv sint b \<noteq> - sint a"
      using int_sdiv_negated_is_minus1 [of "sint a" "sint b"] m by simp
    moreover have "\<bar>sint a\<bar> = 2 ^ 63" "- sint a = 2 ^ 63" by (simp_all add: m)
    ultimately show ?thesis using r(2) by linarith
  next
    case False
    then have "sint a \<noteq> - (2 ^ 63)" by (simp only: sint_eq_min_iff not_False_eq_True)
    with r(2) sint_bounds_quad [of a] show ?thesis by linarith
  qed
qed

lemma remainder_fits:
  fixes a b :: quad
  assumes "b \<noteq> 0"
  shows "sint (word_of_int (sint a smod sint b) :: quad) = sint a smod sint b"
proof (rule sint_word_of_int_quad)
  have "sint b \<noteq> 0" using assms sint_inject [of b 0] by simp
  then have r: "- \<bar>sint b\<bar> + 1 \<le> sint a smod sint b" "sint a smod sint b \<le> \<bar>sint b\<bar> - 1"
    using smod_int_range [of "sint b" "sint a"] by auto
  show "- (2 ^ 63) \<le> sint a smod sint b" using r(1) sint_bounds_quad [of b] by linarith
  show "sint a smod sint b < 2 ^ 63" using r(2) sint_bounds_quad [of b] by linarith
qed

lemma alu_cqo_value2: "value2 c = 0 \<Longrightarrow> value2 (alu_cqo c) = (if bit (value1 c) 63 then - 1 else 0)"
  by (simp add: alu_cqo_def)

subsection \<open>Properties\<close>

text \<open>After \<^verbatim>\<open>cmp\<close> the unsigned and equality branches decide the comparison of the operands:
  \<^verbatim>\<open>ja\<close> is taken exactly when the second operand is above the first, \<^verbatim>\<open>jb\<close> when it is
  below, \<^verbatim>\<open>jz\<close> when they are equal and \<^verbatim>\<open>jnz\<close> when they differ.\<close>

lemma cmp_unsigned_branches:
  "jump_condition UD_Ija (alu_cmp u e) = (value1 u < value2 u)
   \<and> jump_condition UD_Ijb (alu_cmp u e) = (value2 u < value1 u)
   \<and> jump_condition UD_Ijz (alu_cmp u e) = (value2 u = value1 u)
   \<and> jump_condition UD_Ijnz (alu_cmp u e) = (value2 u \<noteq> value1 u)"
  by (auto simp: alu_cmp_flags)

text \<open>After \<^verbatim>\<open>cmp\<close> each signed branch decides the signed comparison of the operands exactly
  when their difference does not overflow: the overflow flag is always cleared, because the sign
  bits are truncated to \<^verbatim>\<open>int\<close>, so every branch is wrong on every overflowing pair.\<close>

theorem cmp_signed_branches:
  "((jump_condition UD_Ijl (alu_cmp u e) \<longleftrightarrow> sint (value2 u) < sint (value1 u))
     \<longleftrightarrow> \<not> sub_overflows (value2 u) (value1 u))
   \<and> ((jump_condition UD_Ijge (alu_cmp u e) \<longleftrightarrow> sint (value1 u) \<le> sint (value2 u))
     \<longleftrightarrow> \<not> sub_overflows (value2 u) (value1 u))
   \<and> ((jump_condition UD_Ijle (alu_cmp u e) \<longleftrightarrow> sint (value2 u) \<le> sint (value1 u))
     \<longleftrightarrow> \<not> sub_overflows (value2 u) (value1 u))
   \<and> ((jump_condition UD_Ijg (alu_cmp u e) \<longleftrightarrow> sint (value1 u) < sint (value2 u))
     \<longleftrightarrow> \<not> sub_overflows (value2 u) (value1 u))"
  using sint_diff_neg_iff [of "value2 u" "value1 u"] sint_inject [of "value2 u" "value1 u"]
  by (auto simp: alu_cmp_flags sub_overflows_def)

text \<open>\<^verbatim>\<open>test\<close> reports whether the conjunction of its operands is zero and nothing else: the
  sign of the result is never seen, so after it \<^verbatim>\<open>jl\<close> is never taken, \<^verbatim>\<open>jge\<close> always is
  and \<^verbatim>\<open>cmovns\<close> always moves.\<close>

lemma test_branches:
  "jump_condition UD_Ijz (alu_test u e) = (value1 u AND value2 u = 0)
   \<and> jump_condition UD_Ijle (alu_test u e) = (value1 u AND value2 u = 0)
   \<and> jump_condition UD_Ijg (alu_test u e) = (value1 u AND value2 u \<noteq> 0)
   \<and> \<not> jump_condition UD_Ijl (alu_test u e) \<and> jump_condition UD_Ijge (alu_test u e)
   \<and> cmov_condition UD_Icmovns (alu_test u e)"
  by (auto simp: alu_test_flags)

text \<open>C31: a shift by the count's low six bits computes the left, logical right or arithmetic right
  shift of the operand, the carry flag becomes the last bit shifted out (and is kept when the count
  is 0), and no other flag changes: the overflow flag, which the notes say is set, never is.\<close>

theorem do_shift_correct:
  assumes "opcode u \<in> {UD_Isal, UD_Ishl, UD_Isar, UD_Ishr}"
  defines "n \<equiv> unat (value1 u AND 63)"
  shows "do_shift u e =
    (u\<lparr>value2 := shift_result (opcode u) n (value2 u)\<rparr>,
     if n = 0 then e else flag_put MASK_CF (shift_carry (opcode u) n (value2 u)) e)"
proof -
  have n: "n \<le> 63" unfolding n_def by (rule unat_and_63)
  consider "opcode u = UD_Isal \<or> opcode u = UD_Ishl" | "opcode u = UD_Isar" | "opcode u = UD_Ishr"
    using assms(1) by auto
  then show ?thesis
  proof cases
    case 1
    then show ?thesis using shift_step_pow_sal [OF 1 n, of "value2 u" e]
      by (auto simp: do_shift_def n_def [symmetric] shift_result_def shift_carry_def)
  next
    case 2
    then show ?thesis using shift_step_pow_sar [OF n, of "value2 u" e]
      by (auto simp: do_shift_def n_def [symmetric] shift_result_def shift_carry_def)
  next
    case 3
    then show ?thesis using shift_step_pow_shr [OF n, of "value2 u" e]
      by (auto simp: do_shift_def n_def [symmetric] shift_result_def shift_carry_def)
  qed
qed

theorem do_shift_correct_witness:
  "do_shift (uop_empty\<lparr>opcode := UD_Ishl, value1 := 1, value2 := top_bit\<rparr>) 0
     = (uop_empty\<lparr>opcode := UD_Ishl, value1 := 1, value2 := 0\<rparr>, 1)"
  using do_shift_correct
    [of "uop_empty\<lparr>opcode := UD_Ishl, value1 := 1, value2 := top_bit\<rparr>" 0]
  by (simp add: uop_empty_def shift_result_def shift_carry_def top_bit_def flag_put_def mask_defs)

text \<open>C30: the sequence \<^verbatim>\<open>cqo\<close>, \<^verbatim>\<open>idiv\<close> divides: with the sign word that \<^verbatim>\<open>cqo\<close>
  computes for the dividend as the high operand, \<^verbatim>\<open>idiv\<close> returns the quotient rounded
  towards zero and the remainder, both exact, for every divisor but zero and the one overflowing
  pair.\<close>

theorem cqo_idiv_correct:
  assumes "value2 c = 0" and "value2 u = value1 c" and "value3 u = value2 (alu_cqo c)"
    and "value1 u \<noteq> 0" and "\<not> (value1 c = top_bit \<and> value1 u = - 1)"
  shows "\<exists>w. alu_idiv u = Inr w \<and> sint (value2 w) = sint (value1 c) sdiv sint (value1 u)
     \<and> sint (value3 w) = sint (value1 c) smod sint (value1 u)"
proof -
  have v3: "value3 u = (if bit (value1 c) 63 then - 1 else 0)"
    using assms(1,3) by (simp add: alu_cqo_value2)
  have t: "sint (push_bit 64 (scast (value3 u) :: line128) OR scast (value1 c)) = sint (value1 c)"
    unfolding v3 cqo_pair by (rule sint_scast_128)
  show ?thesis
    using assms(2,4,5) quotient_fits [OF assms(5)] remainder_fits [OF assms(4), of "value1 c"]
    by (auto simp: alu_idiv_def Let_def t)
qed

theorem cqo_idiv_correct_witness:
  "\<exists>w. alu_idiv (uop_empty\<lparr>value1 := 2, value2 := - 7, value3 := - 1\<rparr>) = Inr w
     \<and> sint (value2 w) = - 3 \<and> sint (value3 w) = - 1"
  using cqo_idiv_correct [of "uop_empty\<lparr>value1 := - 7\<rparr>"
      "uop_empty\<lparr>value1 := 2, value2 := - 7, value3 := - 1\<rparr>"]
  by (simp add: uop_empty_def alu_cqo_def and_top_bit bit63_sint)

text \<open>\<^verbatim>\<open>mul\<close> of two operands whose low 32 bits are not zero returns the low half of the
  product and, as the high half, the high half of the unsigned product less each operand whose
  partner has its top bit set: it is the unsigned product exactly for operands below \<open>2 ^ 63\<close>
  (in general it is the signed product).\<close>

lemma alu_mul_product:
  assumes "ucast (value1 u) \<noteq> (0 :: cint)" and "ucast (value2 u) \<noteq> (0 :: cint)"
  shows "alu_mul u = Inr (u\<lparr>value2 := value2 u * value1 u,
    value3 := word_of_int ((uint (value2 u) * uint (value1 u)) div 2 ^ 64)
      - (if bit (value2 u) 63 then value1 u else 0) - (if bit (value1 u) 63 then value2 u else 0)\<rparr>)"
  using alu_mul_eq [OF assms] by (simp only: alu_mul_unsigned_high)

text \<open>\<^verbatim>\<open>div\<close> ignores the high half of the dividend: whatever the third operand holds, the
  result is the quotient and the remainder of the 64-bit low half, and a zero divisor faults.\<close>

lemma alu_div_ignores_high:
  "alu_div u =
     (if value1 u = 0 then Inl Divide_error
      else Inr (u\<lparr>value2 := value2 u div value1 u, value3 := value2 u mod value1 u\<rparr>))"
  using alu_div_eq [of u] by (cases "value1 u = 0") (simp add: alu_div_def, simp)

text \<open>The three-operand \<^verbatim>\<open>imul\<close> returns the wrapped product and sets the carry and overflow
  flags exactly when the signed product does not fit in 64 bits.\<close>

lemma imul3_flags:
  assumes "src u = IMUL_3"
  defines "p \<equiv> sint (value3 u) * sint (value1 u)"
  shows "value2 (fst (alu_imul u e)) = value3 u * value1 u
    \<and> (bit (snd (alu_imul u e)) MASK_CF \<longleftrightarrow> \<not> (- (2 ^ 63) \<le> p \<and> p < 2 ^ 63))
    \<and> (bit (snd (alu_imul u e)) MASK_OF \<longleftrightarrow> \<not> (- (2 ^ 63) \<le> p \<and> p < 2 ^ 63))"
  using assms(1) sint_mult_eq_iff [of "value3 u" "value1 u"]
  by (auto simp: alu_imul_def Let_def prod_neq_scast_iff p_def)

text \<open>The two-operand \<^verbatim>\<open>imul\<close> returns the wrapped product, but its overflow test multiplies
  the result once more: the flag is set exactly when the result is not zero and the source is not
  one, so also for products that fit.\<close>

lemma imul2_flags:
  assumes "src u = IMUL_2R \<or> src u = IMUL_2I"
  shows "value2 (fst (alu_imul u e)) = value2 u * value1 u
    \<and> (bit (snd (alu_imul u e)) MASK_OF \<longleftrightarrow> value2 u * value1 u \<noteq> 0 \<and> value1 u \<noteq> 1)"
proof -
  have "sint (value2 u * value1 u) * sint (value1 u) \<noteq> sint (value2 u * value1 u) \<longleftrightarrow>
      value2 u * value1 u \<noteq> 0 \<and> value1 u \<noteq> 1"
    using sint_inject [of "value1 u" 1] sint_inject [of "value2 u * value1 u" 0] by auto
  with assms show ?thesis by (auto simp: alu_imul_def Let_def prod_neq_scast_iff)
qed

end
