(* ===== verification/Core.thy ===== *)
theory Core
  imports Alu
begin

text \<open>
  The system calls of the simulated program (\<^verbatim>\<open>Core::syscall\<close> in \<^verbatim>\<open>core-project/core.cc\<close>)
  and the reset of the core (\<^verbatim>\<open>Core::do_reset\<close>, \<^verbatim>\<open>CoreCSE502::do_reset\<close>). The host's
  \<^verbatim>\<open>write\<close> system call and the simulation clock are outside the repository: the result of the
  first is the function \<open>host_write\<close>, the value of the second the number \<open>now\<close>.
\<close>

record host =
  host_write :: "quad \<Rightarrow> addr \<Rightarrow> quad \<Rightarrow> quad"
  now :: quad

subsection \<open>System calls\<close>

text \<open>
  The result type of \<^verbatim>\<open>Core::syscall\<close> is \<^verbatim>\<open>int\<close>: every result is cut to 32 bits. The stack
  pointer, the instruction pointer and the last three arguments are not used.
\<close>

definition core_syscall ::
  "host \<Rightarrow> quad \<Rightarrow> quad \<Rightarrow> quad \<Rightarrow> quad \<Rightarrow> quad \<Rightarrow> quad \<Rightarrow> quad \<Rightarrow> quad \<Rightarrow> quad
   \<Rightarrow> globals \<Rightarrow> fault + (cint \<times> globals)" where
  "core_syscall h v_rsp v_rip n a0 a1 a2 a3 a4 a5 g =
     (if n = 1
      then Inr (ucast (host_write h a0 (mem_base + a1) a2),
                g\<lparr>sys_log := sys_log g @ [Host_write a0 (mem_base + a1) a2]\<rparr>)
      else if n = 12
      then (let g = (if brk_val g < a0 then g\<lparr>brk_val := a0\<rparr> else g) in
            Inr (ucast (brk_val g), g))
      else if n = 16 then Inr (0, g)
      else if n = 20 then Inl Assertion_failed
      else if n = 60 then Inr (0, g\<lparr>sys_log := sys_log g @ [Sim_stop]\<rparr>)
      else if n = 228
      then Inr (0, g\<lparr>sys_log := sys_log g @
                      [Poke64 (mem_base + a1 + 0) (now h), Poke64 (mem_base + a1 + 8) 0]\<rparr>)
      else Inl Assertion_failed)"

subsection \<open>Reset\<close>

text \<open>
  \<^verbatim>\<open>Core::do_reset\<close> sets \<^verbatim>\<open>RIP\<close> and \<^verbatim>\<open>RSP\<close>; \<^verbatim>\<open>CoreCSE502::do_reset\<close> then copies
  them, on every edge of the signal, into the fetch stage and the register file. The entry point
  is what the ELF loader found.
\<close>

record core_regs =
  core_RIP :: addr
  core_RSP :: addr

definition core_do_reset :: "addr \<Rightarrow> bool \<Rightarrow> core_regs \<Rightarrow> core_regs" where
  "core_do_reset entry rst c =
     (if rst then c\<lparr>core_RIP := entry, core_RSP := stack_base\<rparr> else c)"

subsection \<open>Properties\<close>

text \<open>C34: the program break never moves down, \<^verbatim>\<open>brk\<close> moves it to the request when that is
  higher and reports the new break (cut to 32 bits), and no other call moves it; an unsupported
  call and \<^verbatim>\<open>writev\<close> fail an assertion, and no call touches registers or queues.\<close>

theorem core_syscall_brk_monotone:
  assumes "core_syscall h s p n a0 a1 a2 a3 a4 a5 g = Inr (r, g')"
  shows "brk_val g' = (if n = 12 then max (brk_val g) a0 else brk_val g)
    \<and> (n = 12 \<longrightarrow> r = ucast (brk_val g'))
    \<and> g'\<lparr>brk_val := brk_val g, sys_log := sys_log g\<rparr> = g
    \<and> n \<in> {1, 12, 16, 60, 228}"
  using assms
  by (auto simp: core_syscall_def Let_def max_def not_less split: if_splits)

theorem core_syscall_brk_monotone_witness:
  "brk_val (snd (projr (core_syscall \<lparr>host_write = (\<lambda>_ _ _. 0), now = 0\<rparr> 0 0 12 4096 0 0 0 0 0
     globals_init))) = 4096"
proof -
  let ?h = "\<lparr>host_write = (\<lambda>_ _ _. 0), now = 0\<rparr>"
  let ?g = "globals_init\<lparr>brk_val := 4096\<rparr>"
  have c: "core_syscall ?h 0 0 12 4096 0 0 0 0 0 globals_init = Inr (4096, ?g)"
    by (simp add: core_syscall_def globals_init_def Let_def)
  show ?thesis using core_syscall_brk_monotone [OF c] unfolding c by (simp add: globals_init_def)
qed

end
