(* ===== verification/Execute.thy ===== *)
theory Execute
  imports Core
begin

text \<open>
  The execute stage (\<^verbatim>\<open>core-project/execute.cc\<close>, \<^verbatim>\<open>execute.h\<close>). \<^verbatim>\<open>Execute::work\<close> is cut
  along its own sections: the wait for a load (\<open>exec_read\<close>), the choice of the next
  micro-operation with the forwarding into the queue and into the operation
  (\<open>exec_issue\<close>, \<open>fwd_queue\<close>, \<open>fwd_op\<close>), the \<^verbatim>\<open>switch\<close> over the opcode
  (\<open>exec_switch\<close> with one definition per group of cases) and the bookkeeping after it
  (\<open>exec_epilogue\<close>). A call reads the port values of the clock edge and the globals, and returns
  the new member state, the new values of the output ports, and the new globals.

  The member state is \<open>exec\<close>, the output ports are \<open>exec_ports\<close> (an output that a call does not
  write keeps its value, as a \<^verbatim>\<open>sc_signal\<close> does), the input ports are \<open>exec_in\<close>. There is one
  data port (\<^verbatim>\<open>d_ports\<close> = 1). \<^verbatim>\<open>pop_front\<close> of an empty queue is undefined behaviour.
\<close>

datatype ex_mode = STATE_NORMAL | STATE_READ | STATE_USESCRATCHREGVALUE | STATE_CLEAR

record exec =
  prev_reg1 :: reg
  prev_value1 :: quad
  prev_reg2 :: reg
  prev_value2 :: quad
  expected_addr :: addr
  prev_addr :: addr
  rip_changed :: bool
  firstrun :: bool
  Op :: uop
  ex_state :: ex_mode
  cyclecount :: cint
  stackpointer :: quad
  eflags :: quad

record exec_ports =
  out_ready :: bool
  clear_out :: bool
  d_op :: mem_op
  d_tagin :: cint
  d_addr :: addr
  d_dout :: quad
  change_RIP :: bool
  new_RIP :: addr

record exec_in =
  in_reset :: bool
  in_clear :: bool
  in_ready :: bool
  d_ready :: bool
  d_tagout :: cint
  d_data :: quad

type_synonym exec_state = "exec \<times> exec_ports \<times> globals"

text \<open>
  The constructor sets every member but \<^verbatim>\<open>rip_changed\<close>, \<^verbatim>\<open>stackpointer\<close> and \<^verbatim>\<open>Op\<close>,
  whose first values are arguments here.
\<close>

definition exec_init :: "bool \<Rightarrow> quad \<Rightarrow> uop \<Rightarrow> exec" where
  "exec_init rc sp u = \<lparr>prev_reg1 = UD_NONE, prev_value1 = 0, prev_reg2 = UD_NONE, prev_value2 = 0,
     expected_addr = 0, prev_addr = 0, rip_changed = rc, firstrun = True, Op = u,
     ex_state = STATE_NORMAL, cyclecount = 0, stackpointer = sp, eflags = 0\<rparr>"

definition exec_ports_init :: exec_ports where
  "exec_ports_init = \<lparr>out_ready = False, clear_out = False, d_op = NONE, d_tagin = 0, d_addr = 0,
     d_dout = 0, change_RIP = False, new_RIP = 0\<rparr>"

definition exec_do_reset :: "bool \<Rightarrow> globals \<Rightarrow> globals" where
  "exec_do_reset rst g = (if rst then g\<lparr>de_uop_queue := []\<rparr> else g)"

subsection \<open>Jumps and system calls\<close>

definition do_jump :: "exec \<times> exec_ports \<Rightarrow> exec \<times> exec_ports" where
  "do_jump xp = (case xp of (x, p) \<Rightarrow>
     let u = Op x; x = x\<lparr>rip_changed := True\<rparr>; p = p\<lparr>change_RIP := True\<rparr>;
         (x, p) = (if src u = REG
                   then (x\<lparr>expected_addr := value1 u\<rparr>, p\<lparr>new_RIP := value1 u\<rparr>)
                   else if src u = IMMED
                   then (x\<lparr>expected_addr := next_addr u + value1 u\<rparr>,
                         p\<lparr>new_RIP := next_addr u + value1 u\<rparr>)
                   else (x, p))
     in (x, p\<lparr>clear_out := True\<rparr>))"

text \<open>
  An argument of a system call is read from the register file, unless the last micro-operation
  wrote its register. The \<^verbatim>\<open>switch\<close> lists exactly the registers that are passed.
\<close>

definition syscall_arg :: "exec \<Rightarrow> reg \<Rightarrow> quad \<Rightarrow> quad" where
  "syscall_arg x r v = (if prev_reg1 x = r then prev_value1 x else v)"

definition do_syscall :: "host \<Rightarrow> exec \<Rightarrow> globals \<Rightarrow> fault + (exec \<times> globals)" where
  "do_syscall h x g =
     (let f = regfile g in
      case core_syscall h (syscall_arg x UD_R_RSP (rsp f)) (address (Op x))
             (syscall_arg x UD_R_RAX (rax f)) (syscall_arg x UD_R_RDI (rdi f))
             (syscall_arg x UD_R_RSI (rsi f)) (syscall_arg x UD_R_RDX (rdx f))
             (syscall_arg x UD_R_R10 (r10 f)) (syscall_arg x UD_R_R8 (r8 f))
             (syscall_arg x UD_R_R9 (r9 f)) g of
        Inl e \<Rightarrow> Inl e
      | Inr (res, g') \<Rightarrow>
          Inr (x\<lparr>prev_reg2 := prev_reg1 x, prev_reg1 := UD_R_RAX,
                 prev_value2 := prev_value1 x, prev_value1 := signed res\<rparr>,
               g'\<lparr>regfile := (regfile g')\<lparr>rax := signed res\<rparr>\<rparr>))"

subsection \<open>Forwarding\<close>

text \<open>The loop over the queued micro-operations of the instruction about to execute.\<close>

definition fwd_entry :: "exec \<Rightarrow> uop \<Rightarrow> uop" where
  "fwd_entry x u =
     (let u = (if reg1 u = prev_reg2 x then u\<lparr>value2 := prev_value2 x\<rparr>
               else if reg2 u = prev_reg2 x then u\<lparr>value2 := prev_value2 x\<rparr>
               else u)
      in if reg1 u = prev_reg1 x then u\<lparr>value1 := prev_value1 x\<rparr>
         else if reg2 u = prev_reg1 x then u\<lparr>value2 := prev_value1 x\<rparr>
         else u)"

fun fwd_queue :: "exec \<Rightarrow> addr \<Rightarrow> uop list \<Rightarrow> uop list" where
  "fwd_queue x front_addr [] = []"
| "fwd_queue x front_addr (u # us) =
     (if address u = front_addr then fwd_entry x u # fwd_queue x front_addr us else u # us)"

text \<open>
  The forwarding into the operation itself: the last writes win, then the stack pointer.
  \<open>give1 r v\<close> is one of its guarded assignments, \<^verbatim>\<open>if(Op.reg1 == r) Op.value1 = v\<close>.
\<close>

definition give1 :: "reg \<Rightarrow> quad \<Rightarrow> uop \<Rightarrow> uop" where
  "give1 r v u = (if reg1 u = r then u\<lparr>value1 := v\<rparr> else u)"

definition give2 :: "reg \<Rightarrow> quad \<Rightarrow> uop \<Rightarrow> uop" where
  "give2 r v u = (if reg2 u = r then u\<lparr>value2 := v\<rparr> else u)"

definition give3 :: "reg \<Rightarrow> quad \<Rightarrow> uop \<Rightarrow> uop" where
  "give3 r v u = (if reg3 u = r then u\<lparr>value3 := v\<rparr> else u)"

definition fwd_op :: "exec \<Rightarrow> quad \<Rightarrow> uop \<Rightarrow> uop" where
  "fwd_op x lsv u =
     (let u = give1 Load_store_reg lsv u;
          u = give2 Load_store_reg lsv u;
          u = give1 (prev_reg2 x) (prev_value2 x) u;
          u = give2 (prev_reg2 x) (prev_value2 x) u;
          u = give3 (prev_reg2 x) (prev_value2 x) u;
          u = give1 (prev_reg1 x) (prev_value1 x) u;
          u = give2 (prev_reg1 x) (prev_value1 x) u;
          u = give3 (prev_reg1 x) (prev_value1 x) u;
          u = (if stackpointer x \<noteq> 0 then give1 UD_R_RSP (stackpointer x) u else u);
          u = (if stackpointer x \<noteq> 0 then give2 UD_R_RSP (stackpointer x) u else u)
      in if stackpointer x \<noteq> 0 then give3 UD_R_RSP (stackpointer x) u else u)"

subsection \<open>The switch over the opcode\<close>

text \<open>The cases that compute on the operands and the flags only, with the default case last.\<close>

fun alu_step :: "mnemonic \<Rightarrow> uop \<Rightarrow> quad \<Rightarrow> fault + (uop \<times> quad)" where
  "alu_step UD_Imov u e = Inr (u\<lparr>value2 := value1 u\<rparr>, e)"
| "alu_step UD_Icqo u e = Inr (alu_cqo u, e)"
| "alu_step UD_Iadd u e = Inr (u\<lparr>value2 := value2 u + value1 u\<rparr>, e)"
| "alu_step UD_Isub u e = Inr (u\<lparr>value2 := value2 u - value1 u\<rparr>, e)"
| "alu_step UD_Idec u e = Inr (u\<lparr>reg2 := reg1 u, value2 := value1 u - 1\<rparr>, e)"
| "alu_step UD_Iinc u e = Inr (u\<lparr>reg2 := reg1 u, value2 := value1 u + 1\<rparr>, e)"
| "alu_step UD_Imul u e = map_sum id (\<lambda>u. (u, e)) (alu_mul u)"
| "alu_step UD_Idiv u e = map_sum id (\<lambda>u. (u, e)) (alu_div u)"
| "alu_step UD_Iidiv u e = map_sum id (\<lambda>u. (u, e)) (alu_idiv u)"
| "alu_step UD_Iimul u e = Inr (alu_imul u e)"
| "alu_step UD_Iand u e = Inr (u\<lparr>value2 := value2 u AND value1 u\<rparr>, e)"
| "alu_step UD_Ior u e = Inr (u\<lparr>value2 := value2 u OR value1 u\<rparr>, e)"
| "alu_step UD_Ixor u e = Inr (u\<lparr>value2 := value2 u XOR value1 u\<rparr>, e)"
| "alu_step UD_Ineg u e = Inr (alu_neg u e)"
| "alu_step UD_Inop u e = Inr (u, e)"
| "alu_step UD_Itest u e = Inr (u, alu_test u e)"
| "alu_step UD_Icmp u e = Inr (u, alu_cmp u e)"
| "alu_step UD_Icmovnz u e =
     Inr (if cmov_condition UD_Icmovnz e then u\<lparr>value2 := value1 u\<rparr> else u, e)"
| "alu_step UD_Icmovns u e =
     Inr (if cmov_condition UD_Icmovns e then u\<lparr>value2 := value1 u\<rparr> else u, e)"
| "alu_step UD_Icmovg u e =
     Inr (if cmov_condition UD_Icmovg e then u\<lparr>value2 := value1 u\<rparr> else u, e)"
| "alu_step UD_Ishr u e = Inr (do_shift u e)"
| "alu_step UD_Isar u e = Inr (do_shift u e)"
| "alu_step UD_Ishl u e = Inr (do_shift u e)"
| "alu_step UD_Isal u e = Inr (do_shift u e)"
| "alu_step _ u e = Inr (u, e)"

definition is_jump :: "mnemonic \<Rightarrow> bool" where
  "is_jump m = (m \<in> {UD_Ijmp, UD_Ija, UD_Ijz, UD_Ijnz, UD_Ijb, UD_Ijl, UD_Ijle, UD_Ijg, UD_Ijge})"

text \<open>A request on the data port: the tag is the address, cut to the width of the \<^verbatim>\<open>int\<close> port.\<close>

definition issue :: "mem_op \<Rightarrow> addr \<Rightarrow> exec_ports \<Rightarrow> exec_ports" where
  "issue m a p = p\<lparr>d_op := m, d_tagin := ucast a, d_addr := a\<rparr>"

definition exec_call :: "exec_state \<Rightarrow> exec_state" where
  "exec_call s = (case s of (x, p, g) \<Rightarrow>
     let u = (Op x)\<lparr>value3 := value3 (Op x) - 8\<rparr>;
         p = (issue WRITE (value3 u) p)\<lparr>d_dout := next_addr u, change_RIP := True\<rparr>;
         x = x\<lparr>Op := u, rip_changed := True\<rparr>;
         (x, p) = (if src u = REG
                   then (x\<lparr>expected_addr := value1 u\<rparr>, p\<lparr>new_RIP := value1 u\<rparr>)
                   else if src u = IMMED
                   then (x\<lparr>expected_addr := next_addr u + value1 u\<rparr>,
                         p\<lparr>new_RIP := next_addr u + value1 u\<rparr>)
                   else (x, p))
     in (x\<lparr>stackpointer := value3 u\<rparr>, p\<lparr>clear_out := True\<rparr>, g))"

text \<open>\<^verbatim>\<open>ret\<close> and \<^verbatim>\<open>pop\<close> read the stack, \<^verbatim>\<open>load\<close> reads at its first operand; the call
  returns at once and the stage waits.\<close>

definition exec_wait_read :: "addr \<Rightarrow> exec_state \<Rightarrow> exec_state" where
  "exec_wait_read a s = (case s of (x, p, g) \<Rightarrow> (x\<lparr>ex_state := STATE_READ\<rparr>, issue READ a p, g))"

definition exec_push :: "quad \<Rightarrow> exec_state \<Rightarrow> exec_state" where
  "exec_push v s = (case s of (x, p, g) \<Rightarrow>
     let u = (Op x)\<lparr>value3 := value3 (Op x) - 8\<rparr>
     in (x\<lparr>Op := u, stackpointer := value3 u\<rparr>, (issue WRITE (value3 u) p)\<lparr>d_dout := v\<rparr>, g))"

text \<open>The result says whether the case returned from the handler.\<close>

definition exec_switch :: "host \<Rightarrow> exec_state \<Rightarrow> fault + (bool \<times> exec_state)" where
  "exec_switch h s = (case s of (x, p, g) \<Rightarrow>
     let u = Op x; m = opcode u in
     if m = UD_Isyscall
     then (case do_syscall h x g of Inl f \<Rightarrow> Inl f | Inr (x', g') \<Rightarrow> Inr (False, x', p, g'))
     else if m = UD_Icall then Inr (False, exec_call s)
     else if m = UD_Iret \<or> m = UD_Ipop then Inr (True, exec_wait_read (value3 u) s)
     else if m = UD_Ipush then Inr (False, exec_push (value1 u) s)
     else if m = UD_Iload then Inr (True, exec_wait_read (value1 u) s)
     else if m = UD_Istore
     then Inr (False, x, (issue WRITE (value2 u) p)\<lparr>d_dout := value1 u\<rparr>, g)
     else if m = UD_Ipushfq then Inr (False, exec_push (eflags x) s)
     else if is_jump m
     then (case (if jump_condition m (eflags x) then do_jump (x, p) else (x, p)) of
             (x', p') \<Rightarrow> Inr (False, x', p', g))
     else (case alu_step m u (eflags x) of
             Inl f \<Rightarrow> Inl f
           | Inr (u', e') \<Rightarrow> Inr (False, x\<lparr>Op := u', eflags := e'\<rparr>, p, g)))"

subsection \<open>After the switch\<close>

definition exec_epilogue :: "exec_state \<Rightarrow> exec_state" where
  "exec_epilogue s = (case s of (x, p, g) \<Rightarrow>
     let u = Op x;
         x = (if \<not> rip_changed x
              then x\<lparr>expected_addr := next_addr u, prev_addr := address u\<rparr>
              else x\<lparr>rip_changed := False\<rparr>);
         x = (if opcode u \<noteq> UD_Inop \<and> opcode u \<noteq> UD_Isyscall \<and> reg2 u \<noteq> UD_NONE
              then (let x = x\<lparr>prev_value2 := prev_value1 x, prev_value1 := value2 u,
                              prev_reg2 := prev_reg1 x, prev_reg1 := reg2 u\<rparr>
                    in if reg2 u = UD_R_RSP then x\<lparr>stackpointer := value2 u\<rparr> else x)
              else x);
         g = (if reg2 u = Load_store_reg then g\<lparr>offsetreg_value := value2 u\<rparr> else g)
     in (x, p\<lparr>out_ready := True\<rparr>,
         g\<lparr>ew_uop_queue := ew_uop_queue g @ [u], de_uop_queue := tl (de_uop_queue g)\<rparr>))"

subsection \<open>Waiting for a load\<close>

text \<open>The completion of the micro-operation \<open>u\<close>: \<^verbatim>\<open>push\<close>, \<^verbatim>\<open>pop_front\<close>, ready, normal.\<close>

definition exec_complete :: "uop \<Rightarrow> exec_state \<Rightarrow> fault + exec_state" where
  "exec_complete u s = (case s of (x, p, g) \<Rightarrow>
     if de_uop_queue g = [] then Inl Pop_of_empty_queue
     else Inr (x\<lparr>Op := u, ex_state := STATE_NORMAL\<rparr>, p\<lparr>out_ready := True\<rparr>,
               g\<lparr>ew_uop_queue := ew_uop_queue g @ [u], de_uop_queue := tl (de_uop_queue g)\<rparr>))"

definition remember :: "uop \<Rightarrow> exec \<Rightarrow> exec" where
  "remember u x = x\<lparr>prev_reg2 := prev_reg1 x, prev_reg1 := reg2 u,
     prev_value2 := prev_value1 x, prev_value1 := value2 u\<rparr>"

definition read_ret :: "exec_in \<Rightarrow> exec_state \<Rightarrow> fault + exec_state" where
  "read_ret i s = (case s of (x, p, g) \<Rightarrow>
     if signed (d_tagout i) \<noteq> value3 (Op x) then Inr s
     else (let u = (Op x)\<lparr>value3 := value3 (Op x) + 8\<rparr>
           in exec_complete u
                (x\<lparr>expected_addr := d_data i, stackpointer := value3 u\<rparr>,
                 p\<lparr>new_RIP := d_data i, change_RIP := True, clear_out := True\<rparr>, g)))"

definition read_pop :: "exec_in \<Rightarrow> exec_state \<Rightarrow> fault + exec_state" where
  "read_pop i s = (case s of (x, p, g) \<Rightarrow>
     if signed (d_tagout i) \<noteq> value3 (Op x) then Inr s
     else (let u = (Op x)\<lparr>value2 := d_data i, value3 := value3 (Op x) + 8\<rparr>
           in exec_complete u
                (remember u (x\<lparr>expected_addr := next_addr u, stackpointer := value3 u\<rparr>), p, g)))"

definition read_load :: "exec_in \<Rightarrow> exec_state \<Rightarrow> fault + exec_state" where
  "read_load i s = (case s of (x, p, g) \<Rightarrow>
     if signed (d_tagout i) \<noteq> value1 (Op x) then Inr s
     else (let u = (Op x)\<lparr>value2 := d_data i\<rparr> in exec_complete u (remember u x, p, g)))"

subsection \<open>The handler\<close>

text \<open>From the test of \<^verbatim>\<open>in_ready\<close> to the end.\<close>

definition exec_op :: "host \<Rightarrow> exec_state \<Rightarrow> fault + exec_state" where
  "exec_op h s = (case s of (x, p, g) \<Rightarrow>
     case exec_switch h (x\<lparr>firstrun := False, Op := fwd_op x (offsetreg_value g) (Op x)\<rparr>, p, g) of
       Inl f \<Rightarrow> Inl f
     | Inr (returned, s') \<Rightarrow> Inr (if returned then s' else exec_epilogue s'))"

definition exec_issue :: "host \<Rightarrow> exec_in \<Rightarrow> exec_state \<Rightarrow> fault + exec_state" where
  "exec_issue h i s = (case s of (x, p, g) \<Rightarrow>
     if \<not> in_ready i then Inr s
     else if length (ew_uop_queue g) > 1 then Inr (x, p\<lparr>out_ready := True\<rparr>, g)
     else case de_uop_queue g of
       [] \<Rightarrow> Inr s
     | u # us \<Rightarrow>
         (let x = x\<lparr>Op := u\<rparr>;
              x = (if address u = prev_addr x then x\<lparr>expected_addr := address u\<rparr> else x);
              g = g\<lparr>de_uop_queue := fwd_queue x (address u) (u # us)\<rparr>
          in if address u \<noteq> expected_addr x \<and> \<not> firstrun x
             then Inr (x, p, g\<lparr>de_uop_queue := tl (de_uop_queue g)\<rparr>)
             else exec_op h (x, p, g)))"

definition exec_work :: "host \<Rightarrow> exec_in \<Rightarrow> exec_state \<Rightarrow> fault + exec_state" where
  "exec_work h i s = (case s of (x, p, g) \<Rightarrow>
     let p = p\<lparr>out_ready := False, change_RIP := False\<rparr>;
         x = x\<lparr>cyclecount := cyclecount x + 1\<rparr>
     in if in_reset i then Inr (x, p, g)
        else if in_clear i
        then exec_issue h i (x, p\<lparr>clear_out := False\<rparr>, g\<lparr>de_uop_queue := []\<rparr>)
        else if ex_state x = STATE_READ
        then (if \<not> d_ready i then Inr (x, p, g)
              else if opcode (Op x) = UD_Iret then read_ret i (x, p, g)
              else if opcode (Op x) = UD_Ipop then read_pop i (x, p, g)
              else if opcode (Op x) = UD_Iload then read_load i (x, p, g)
              else exec_issue h i (x, p, g))
        else exec_issue h i (x, p, g))"

subsection \<open>Accepting a micro-operation\<close>

lemma fwd_queue_Nil_iff [simp]: "fwd_queue x a us = [] \<longleftrightarrow> us = []"
  by (cases us) auto

definition exec_accepts :: "exec_in \<Rightarrow> exec \<Rightarrow> globals \<Rightarrow> bool" where
  "exec_accepts i x g \<longleftrightarrow> \<not> in_reset i \<and> \<not> in_clear i \<and> ex_state x = STATE_NORMAL \<and> in_ready i \<and>
     length (ew_uop_queue g) \<le> 1 \<and> de_uop_queue g \<noteq> [] \<and>
     (address (hd (de_uop_queue g)) \<in> {prev_addr x, expected_addr x} \<or> firstrun x)"

definition exec_front :: "exec \<Rightarrow> globals \<Rightarrow> exec" where
  "exec_front x g = (let u = hd (de_uop_queue g);
       x = x\<lparr>cyclecount := cyclecount x + 1, firstrun := False, Op := fwd_op x (offsetreg_value g) u\<rparr>
     in if address u = prev_addr x then x\<lparr>expected_addr := address u\<rparr> else x)"

lemma give_fields [simp]:
  "address (give1 r v u) = address u" "opsize (give1 r v u) = opsize u"
  "opcode (give1 r v u) = opcode u" "src (give1 r v u) = src u" "immed (give1 r v u) = immed u"
  "reg1 (give1 r v u) = reg1 u" "reg2 (give1 r v u) = reg2 u" "reg3 (give1 r v u) = reg3 u"
  "value1 (give1 r v u) = (if reg1 u = r then v else value1 u)"
  "value2 (give1 r v u) = value2 u" "value3 (give1 r v u) = value3 u"
  "address (give2 r v u) = address u" "opsize (give2 r v u) = opsize u"
  "opcode (give2 r v u) = opcode u" "src (give2 r v u) = src u" "immed (give2 r v u) = immed u"
  "reg1 (give2 r v u) = reg1 u" "reg2 (give2 r v u) = reg2 u" "reg3 (give2 r v u) = reg3 u"
  "value2 (give2 r v u) = (if reg2 u = r then v else value2 u)"
  "value1 (give2 r v u) = value1 u" "value3 (give2 r v u) = value3 u"
  "address (give3 r v u) = address u" "opsize (give3 r v u) = opsize u"
  "opcode (give3 r v u) = opcode u" "src (give3 r v u) = src u" "immed (give3 r v u) = immed u"
  "reg1 (give3 r v u) = reg1 u" "reg2 (give3 r v u) = reg2 u" "reg3 (give3 r v u) = reg3 u"
  "value3 (give3 r v u) = (if reg3 u = r then v else value3 u)"
  "value1 (give3 r v u) = value1 u" "value2 (give3 r v u) = value2 u"
  by (simp_all add: give1_def give2_def give3_def)

lemma fwd_op_cong:
  "prev_reg1 x = prev_reg1 y \<Longrightarrow> prev_value1 x = prev_value1 y \<Longrightarrow> prev_reg2 x = prev_reg2 y \<Longrightarrow>
   prev_value2 x = prev_value2 y \<Longrightarrow> stackpointer x = stackpointer y \<Longrightarrow> fwd_op x lsv u = fwd_op y lsv u"
  by (simp only: fwd_op_def)

lemma fwd_entry_cong:
  "prev_reg1 x = prev_reg1 y \<Longrightarrow> prev_value1 x = prev_value1 y \<Longrightarrow> prev_reg2 x = prev_reg2 y \<Longrightarrow>
   prev_value2 x = prev_value2 y \<Longrightarrow> fwd_entry x u = fwd_entry y u"
  by (simp only: fwd_entry_def)

lemma fwd_queue_cong:
  "prev_reg1 x = prev_reg1 y \<Longrightarrow> prev_value1 x = prev_value1 y \<Longrightarrow> prev_reg2 x = prev_reg2 y \<Longrightarrow>
   prev_value2 x = prev_value2 y \<Longrightarrow> fwd_queue x a us = fwd_queue y a us"
  by (induction us) (simp_all add: fwd_entry_cong [of x y])

lemma fwd_op_fields [simp]:
  "address (fwd_op x lsv u) = address u" "opsize (fwd_op x lsv u) = opsize u"
  "opcode (fwd_op x lsv u) = opcode u" "src (fwd_op x lsv u) = src u" "immed (fwd_op x lsv u) = immed u"
  "reg1 (fwd_op x lsv u) = reg1 u" "reg2 (fwd_op x lsv u) = reg2 u" "reg3 (fwd_op x lsv u) = reg3 u"
  "next_addr (fwd_op x lsv u) = next_addr u"
  by (simp_all add: fwd_op_def next_addr_def Let_def)

lemma fwd_op_value1: "value1 (fwd_op x lsv u) =
   (if reg1 u = UD_R_RSP \<and> stackpointer x \<noteq> 0 then stackpointer x
    else if reg1 u = prev_reg1 x then prev_value1 x
    else if reg1 u = prev_reg2 x then prev_value2 x
    else if reg1 u = Load_store_reg then lsv else value1 u)"
  by (simp add: fwd_op_def Let_def)

lemma fwd_op_value2: "value2 (fwd_op x lsv u) =
   (if reg2 u = UD_R_RSP \<and> stackpointer x \<noteq> 0 then stackpointer x
    else if reg2 u = prev_reg1 x then prev_value1 x
    else if reg2 u = prev_reg2 x then prev_value2 x
    else if reg2 u = Load_store_reg then lsv else value2 u)"
  by (simp add: fwd_op_def Let_def)

lemma fwd_op_value3: "value3 (fwd_op x lsv u) =
   (if reg3 u = UD_R_RSP \<and> stackpointer x \<noteq> 0 then stackpointer x
    else if reg3 u = prev_reg1 x then prev_value1 x
    else if reg3 u = prev_reg2 x then prev_value2 x else value3 u)"
  by (simp add: fwd_op_def Let_def)

lemma exec_work_accepts:
  assumes "exec_accepts i x g"
  shows "exec_work h i (x, p, g) =
    (case exec_switch h (exec_front x g, p\<lparr>out_ready := False, change_RIP := False\<rparr>,
        g\<lparr>de_uop_queue := fwd_queue x (address (hd (de_uop_queue g))) (de_uop_queue g)\<rparr>) of
       Inl f \<Rightarrow> Inl f
     | Inr (returned, s') \<Rightarrow> Inr (if returned then s' else exec_epilogue s'))"
proof -
  from assms obtain u us where q: "de_uop_queue g = u # us"
    by (cases "de_uop_queue g") (auto simp: exec_accepts_def)
  let ?x = "x\<lparr>cyclecount := cyclecount x + 1\<rparr>"
  let ?p = "p\<lparr>out_ready := False, change_RIP := False\<rparr>"
  define y where "y = (if address u = prev_addr x then ?x\<lparr>Op := u, expected_addr := address u\<rparr>
                       else ?x\<lparr>Op := u\<rparr>)"
  have y: "prev_reg1 y = prev_reg1 x" "prev_value1 y = prev_value1 x" "prev_reg2 y = prev_reg2 x"
    "prev_value2 y = prev_value2 x" "stackpointer y = stackpointer x" "Op y = u"
    by (simp_all add: y_def)
  have front: "exec_front x g = y\<lparr>firstrun := False, Op := fwd_op x (offsetreg_value g) u\<rparr>"
    by (simp add: exec_front_def y_def q Let_def)
  have go: "\<not> (address u \<noteq> expected_addr y \<and> \<not> firstrun y)"
    using assms q by (auto simp: exec_accepts_def y_def)
  have "exec_work h i (x, p, g) = exec_issue h i (?x, ?p, g)"
    using assms by (simp add: exec_work_def exec_accepts_def)
  also have "\<dots> = exec_op h (y, ?p, g\<lparr>de_uop_queue := fwd_queue y (address u) (u # us)\<rparr>)"
    using assms q go
    by (cases "address u = prev_addr x"; cases "firstrun x")
      (simp_all add: exec_issue_def exec_accepts_def Let_def y_def del: fwd_queue.simps)
  also have "\<dots> = (case exec_switch h (exec_front x g, ?p,
        g\<lparr>de_uop_queue := fwd_queue x (address u) (u # us)\<rparr>) of
       Inl f \<Rightarrow> Inl f
     | Inr (returned, s') \<Rightarrow> Inr (if returned then s' else exec_epilogue s'))"
    by (simp add: exec_op_def front y fwd_op_cong [of y x] fwd_queue_cong [of y x]
        del: fwd_queue.simps)
  finally show ?thesis by (simp only: q list.sel(1))
qed

lemma exec_front_fields [simp]:
  "Op (exec_front x g) = fwd_op x (offsetreg_value g) (hd (de_uop_queue g))"
  "ex_state (exec_front x g) = ex_state x" "eflags (exec_front x g) = eflags x"
  "rip_changed (exec_front x g) = rip_changed x" "stackpointer (exec_front x g) = stackpointer x"
  "prev_reg1 (exec_front x g) = prev_reg1 x" "prev_value1 (exec_front x g) = prev_value1 x"
  "prev_reg2 (exec_front x g) = prev_reg2 x" "prev_value2 (exec_front x g) = prev_value2 x"
  "firstrun (exec_front x g) = False" "cyclecount (exec_front x g) = cyclecount x + 1"
  "prev_addr (exec_front x g) = prev_addr x"
  by (simp_all add: exec_front_def Let_def)

subsection \<open>The invariant of the stage\<close>

text \<open>
  The stage is either free or waiting for a load; it waits only for one of the three reading
  operations, whose micro-operation is still at the front of its queue, and it never puts a third
  result before writeback.
\<close>

definition exec_inv :: "exec_state \<Rightarrow> bool" where
  "exec_inv s = (case s of (x, p, g) \<Rightarrow>
     ex_state x \<in> {STATE_NORMAL, STATE_READ} \<and>
     (clear_out p \<longrightarrow> ex_state x = STATE_NORMAL) \<and>
     (ex_state x = STATE_READ \<longrightarrow>
        opcode (Op x) \<in> {UD_Iret, UD_Ipop, UD_Iload} \<and> de_uop_queue g \<noteq> []
        \<and> length (ew_uop_queue g) \<le> 1) \<and>
     length (ew_uop_queue g) \<le> 2)"

lemma core_syscall_frame:
  "core_syscall h s q n a0 a1 a2 a3 a4 a5 g = Inr (r, g') \<Longrightarrow>
   de_uop_queue g' = de_uop_queue g \<and> ew_uop_queue g' = ew_uop_queue g \<and> dd_uop_queue g' = dd_uop_queue g"
  by (auto simp: core_syscall_def Let_def split: if_splits)

lemma do_syscall_frame:
  "do_syscall h x g = Inr (x', g') \<Longrightarrow>
   de_uop_queue g' = de_uop_queue g \<and> ew_uop_queue g' = ew_uop_queue g
   \<and> dd_uop_queue g' = dd_uop_queue g \<and> ex_state x' = ex_state x \<and> Op x' = Op x"
  by (auto simp: do_syscall_def Let_def split: sum.splits dest!: core_syscall_frame)

lemma do_jump_frame:
  "do_jump (x, p) = (x', p') \<Longrightarrow> ex_state x' = ex_state x \<and> Op x' = Op x"
  by (auto simp: do_jump_def Let_def split: if_splits)

lemma exec_call_frame:
  "exec_call (x, p, g) = (x', p', g') \<Longrightarrow>
   g' = g \<and> ex_state x' = ex_state x \<and> address (Op x') = address (Op x)"
  by (auto simp: exec_call_def Let_def split: if_splits)

lemma exec_push_frame:
  "exec_push v (x, p, g) = (x', p', g') \<Longrightarrow>
   g' = g \<and> ex_state x' = ex_state x \<and> address (Op x') = address (Op x)"
  by (auto simp: exec_push_def Let_def)

lemma exec_wait_read_frame:
  "exec_wait_read a (x, p, g) = (x', p', g') \<Longrightarrow>
   g' = g \<and> ex_state x' = STATE_READ \<and> Op x' = Op x \<and> clear_out p' = clear_out p"
  by (auto simp: exec_wait_read_def issue_def)

lemma exec_switch_frame:
  assumes "exec_switch h (x, p, g) = Inr (returned, x', p', g')"
  shows "de_uop_queue g' = de_uop_queue g \<and> ew_uop_queue g' = ew_uop_queue g
    \<and> (returned \<longrightarrow> ex_state x' = STATE_READ \<and> opcode (Op x') \<in> {UD_Iret, UD_Ipop, UD_Iload}
                     \<and> clear_out p' = clear_out p)
    \<and> (\<not> returned \<longrightarrow> ex_state x' = ex_state x)"
  using assms unfolding exec_switch_def Let_def split_conv
  by (auto split: sum.splits prod.splits if_split_asm
      dest!: do_syscall_frame do_jump_frame exec_call_frame exec_push_frame exec_wait_read_frame)

lemma exec_epilogue_frame:
  "exec_epilogue (x, p, g) = (x', p', g') \<Longrightarrow>
   ex_state x' = ex_state x \<and> clear_out p' = clear_out p \<and>
   de_uop_queue g' = tl (de_uop_queue g) \<and> length (ew_uop_queue g') = Suc (length (ew_uop_queue g))"
  by (auto simp: exec_epilogue_def Let_def split: if_splits)

lemma exec_op_inv:
  assumes "exec_op h (x, p, g) = Inr (x', p', g')" and "ex_state x = STATE_NORMAL"
    and "\<not> clear_out p" and "de_uop_queue g \<noteq> []" and "length (ew_uop_queue g) \<le> 1"
  shows "exec_inv (x', p', g')"
proof -
  let ?x = "x\<lparr>firstrun := False, Op := fwd_op x (offsetreg_value g) (Op x)\<rparr>"
  from assms(1) obtain returned x1 p1 g1 where
    sw: "exec_switch h (?x, p, g) = Inr (returned, x1, p1, g1)" and
    fin: "(x', p', g') = (if returned then (x1, p1, g1) else exec_epilogue (x1, p1, g1))"
    by (auto simp: exec_op_def split: sum.splits)
  note fr = exec_switch_frame [OF sw]
  show ?thesis
  proof (cases returned)
    case True
    with fr fin assms(3-5) show ?thesis by (auto simp: exec_inv_def)
  next
    case False
    then have "exec_epilogue (x1, p1, g1) = (x', p', g')" using fin by simp
    from exec_epilogue_frame [OF this] fr False assms(2,5) show ?thesis
      by (auto simp: exec_inv_def)
  qed
qed

lemma exec_issue_inv:
  assumes "exec_issue h i (x, p, g) = Inr (x', p', g')" and "ex_state x = STATE_NORMAL"
    and "\<not> clear_out p" and "length (ew_uop_queue g) \<le> 2"
  shows "exec_inv (x', p', g')"
proof (cases "\<not> in_ready i \<or> length (ew_uop_queue g) > 1 \<or> de_uop_queue g = []")
  case True
  then show ?thesis using assms
    by (auto simp: exec_issue_def exec_inv_def split: if_splits list.splits)
next
  case False
  then obtain u us where q: "de_uop_queue g = u # us" by (cases "de_uop_queue g") auto
  define y where "y = (if address u = prev_addr x then x\<lparr>Op := u, expected_addr := address u\<rparr>
                       else x\<lparr>Op := u\<rparr>)"
  define k where "k = g\<lparr>de_uop_queue := fwd_queue y (address u) (u # us)\<rparr>"
  have st: "ex_state y = STATE_NORMAL" using assms(2) by (simp add: y_def)
  have k: "de_uop_queue k \<noteq> []" "ew_uop_queue k = ew_uop_queue g" by (simp_all add: k_def)
  have issue: "exec_issue h i (x, p, g) =
      (if address u \<noteq> expected_addr y \<and> \<not> firstrun y
       then Inr (y, p, k\<lparr>de_uop_queue := tl (de_uop_queue k)\<rparr>)
       else exec_op h (y, p, k))"
    using False q by (simp add: exec_issue_def Let_def k_def y_def)
  show ?thesis
  proof (cases "address u \<noteq> expected_addr y \<and> \<not> firstrun y")
    case True
    then have "x' = y" "p' = p" "g' = k\<lparr>de_uop_queue := tl (de_uop_queue k)\<rparr>"
      using assms(1) issue by simp_all
    then show ?thesis using st assms(4) k by (simp add: exec_inv_def)
  next
    case op: False
    have "exec_op h (y, p, k) = Inr (x', p', g')" using assms(1) issue op by (simp only: if_False)
    then show ?thesis by (rule exec_op_inv) (use st assms(3) k False in simp_all)
  qed
qed

lemma exec_complete_inv:
  assumes "exec_complete u (x, p, g) = Inr (x', p', g')" and "length (ew_uop_queue g) \<le> 1"
  shows "exec_inv (x', p', g')"
  using assms by (auto simp: exec_complete_def exec_inv_def split: if_splits)

lemma read_inv:
  assumes "exec_inv (x, p, g)" and "ex_state x = STATE_READ"
    and "read_ret i (x, p, g) = Inr s' \<or> read_pop i (x, p, g) = Inr s' \<or> read_load i (x, p, g) = Inr s'"
  shows "exec_inv s'"
proof -
  have le: "length (ew_uop_queue g) \<le> 1" using assms(1,2) by (simp add: exec_inv_def)
  obtain x' p' g' where s': "s' = (x', p', g')" by (cases s')
  from assms(3) show ?thesis
    unfolding s' using assms(1) le
    by (elim disjE; cases "signed (d_tagout i) = value3 (Op x)"; cases "signed (d_tagout i) = value1 (Op x)")
      (auto simp: read_ret_def read_pop_def read_load_def Let_def elim!: exec_complete_inv)
qed

lemma exec_work_inv:
  assumes "exec_inv s" and "in_clear i = clear_out (fst (snd s))"
    and "exec_work h i s = Inr s'"
  shows "exec_inv s'"
proof -
  obtain x p g where s: "s = (x, p, g)" by (cases s)
  obtain x' p' g' where s': "s' = (x', p', g')" by (cases s')
  let ?x = "x\<lparr>cyclecount := cyclecount x + 1\<rparr>"
  let ?p = "p\<lparr>out_ready := False, change_RIP := False\<rparr>"
  have inv: "exec_inv (?x, ?p, g)" and clr: "in_clear i = clear_out ?p"
    using assms(1,2) by (simp_all add: s exec_inv_def)
  have st: "ex_state ?x \<in> {STATE_NORMAL, STATE_READ}" "length (ew_uop_queue g) \<le> 2"
    using inv by (simp_all add: exec_inv_def)
  consider "in_reset i" | "\<not> in_reset i" "in_clear i"
    | "\<not> in_reset i" "\<not> in_clear i" "ex_state ?x = STATE_READ"
    | "\<not> in_reset i" "\<not> in_clear i" "ex_state ?x = STATE_NORMAL"
    using st by auto
  then show ?thesis
  proof cases
    case 1
    then show ?thesis using assms(3) inv by (simp add: s exec_work_def)
  next
    case 2
    then have "exec_issue h i (?x, ?p\<lparr>clear_out := False\<rparr>, g\<lparr>de_uop_queue := []\<rparr>) = Inr (x', p', g')"
      using assms(3) by (simp add: s s' exec_work_def)
    moreover have "ex_state ?x = STATE_NORMAL" using inv clr 2 by (simp add: exec_inv_def)
    ultimately show ?thesis unfolding s' by (rule exec_issue_inv) (use st in simp_all)
  next
    case 3
    then have "opcode (Op ?x) \<in> {UD_Iret, UD_Ipop, UD_Iload}" using inv by (simp add: exec_inv_def)
    with 3 assms(3) [unfolded s exec_work_def split_conv Let_def]
    have "s' = (?x, ?p, g) \<or> read_ret i (?x, ?p, g) = Inr s' \<or>
        read_pop i (?x, ?p, g) = Inr s' \<or> read_load i (?x, ?p, g) = Inr s'"
      by (auto split: if_split_asm)
    with read_inv [OF inv 3(3)] inv show ?thesis by blast
  next
    case 4
    then have "exec_issue h i (?x, ?p, g) = Inr (x', p', g')"
      using assms(3) by (simp add: s s' exec_work_def)
    then show ?thesis unfolding s' by (rule exec_issue_inv) (use 4 clr st in simp_all)
  qed
qed

subsection \<open>Results, jumps and memory\<close>

lemma issue_fields [simp]:
  "d_op (issue m a p) = m" "d_tagin (issue m a p) = ucast a" "d_addr (issue m a p) = a"
  "clear_out (issue m a p) = clear_out p" "out_ready (issue m a p) = out_ready p"
  by (simp_all add: issue_def)

lemma exec_work_read:
  assumes "exec_accepts i x g" and "opcode (hd (de_uop_queue g)) \<in> {UD_Iret, UD_Ipop, UD_Iload}"
    and "u = fwd_op x (offsetreg_value g) (hd (de_uop_queue g))"
    and "a = (if opcode u = UD_Iload then value1 u else value3 u)"
  shows "exec_work h i (x, p, g) =
    Inr ((exec_front x g)\<lparr>ex_state := STATE_READ\<rparr>,
         issue READ a (p\<lparr>out_ready := False, change_RIP := False\<rparr>),
         g\<lparr>de_uop_queue := fwd_queue x (address u) (de_uop_queue g)\<rparr>)"
  using exec_work_accepts [OF assms(1), of h p] assms(2-)
  by (auto simp: exec_switch_def exec_wait_read_def Let_def)

lemma exec_work_call:
  assumes "exec_accepts i x g" and "u = fwd_op x (offsetreg_value g) (hd (de_uop_queue g))"
    and "opcode u = UD_Icall" and "src u = IMMED"
  shows "\<exists>x' p' g'. exec_work h i (x, p, g) = Inr (x', p', g') \<and>
      d_op p' = WRITE \<and> d_addr p' = value3 u - 8 \<and> d_dout p' = next_addr u \<and>
      new_RIP p' = next_addr u + value1 u \<and> change_RIP p' \<and> clear_out p' \<and>
      expected_addr x' = next_addr u + value1 u \<and>
      (reg2 u \<noteq> UD_R_RSP \<longrightarrow> stackpointer x' = value3 u - 8)"
proof -
  let ?p = "p\<lparr>out_ready := False, change_RIP := False\<rparr>"
  let ?g = "g\<lparr>de_uop_queue := fwd_queue x (address (hd (de_uop_queue g))) (de_uop_queue g)\<rparr>"
  define y where "y = exec_front x g"
  have y: "Op y = u" by (simp add: y_def assms(2))
  have work: "exec_work h i (x, p, g) = Inr (exec_epilogue (exec_call (y, ?p, ?g)))"
    using exec_work_accepts [OF assms(1), of h p] assms(3) y
    by (simp add: exec_switch_def flip: y_def)
  have call: "exec_call (y, ?p, ?g) =
     (y\<lparr>Op := u\<lparr>value3 := value3 u - 8\<rparr>, rip_changed := True,
        expected_addr := next_addr u + value1 u, stackpointer := value3 u - 8\<rparr>,
      (issue WRITE (value3 u - 8) ?p)\<lparr>d_dout := next_addr u, change_RIP := True,
        new_RIP := next_addr u + value1 u, clear_out := True\<rparr>, ?g)"
    unfolding exec_call_def Let_def split_conv y using assms(4) by (simp add: next_addr_def)
  show ?thesis
    unfolding work call exec_epilogue_def Let_def split_conv by (simp add: issue_def)
qed

lemma core_syscall_no_pop: "core_syscall h s q n a0 a1 a2 a3 a4 a5 g \<noteq> Inl Pop_of_empty_queue"
  by (simp add: core_syscall_def Let_def split: if_splits)

lemma alu_step_no_pop: "alu_step m u e \<noteq> Inl Pop_of_empty_queue"
  by (cases m) (simp_all add: alu_mul_def alu_div_def alu_idiv_def builtin_clz_def Let_def
      split: if_splits sum.splits option.splits)

lemma exec_switch_no_pop: "exec_switch h s \<noteq> Inl Pop_of_empty_queue"
  using core_syscall_no_pop alu_step_no_pop
  by (auto simp: exec_switch_def do_syscall_def Let_def split: sum.splits prod.splits if_splits)

lemma exec_issue_no_pop: "exec_issue h i s \<noteq> Inl Pop_of_empty_queue"
  using exec_switch_no_pop
  by (auto simp: exec_issue_def exec_op_def Let_def split: sum.splits prod.splits list.splits if_splits)

lemma exec_work_no_pop:
  assumes "exec_inv s"
  shows "exec_work h i s \<noteq> Inl Pop_of_empty_queue"
  using assms exec_issue_no_pop
  by (cases s) (auto simp: exec_inv_def exec_work_def Let_def read_ret_def read_pop_def read_load_def
      exec_complete_def remember_def split: if_splits)

definition is_plain :: "mnemonic \<Rightarrow> bool" where
  "is_plain m \<longleftrightarrow> m \<notin> {UD_Isyscall, UD_Icall, UD_Iret, UD_Ipop, UD_Ipush, UD_Iload, UD_Istore,
     UD_Ipushfq} \<and> \<not> is_jump m"

lemma exec_switch_plain:
  assumes "is_plain (opcode (Op x))" and "alu_step (opcode (Op x)) (Op x) (eflags x) = Inr (u', e')"
  shows "exec_switch h (x, p, g) = Inr (False, x\<lparr>Op := u', eflags := e'\<rparr>, p, g)"
  using assms by (simp add: exec_switch_def is_plain_def Let_def)

lemma alu_step_keeps:
  assumes "alu_step m u e = Inr (u', e')"
  shows "opcode u' = opcode u \<and> address u' = address u \<and> opsize u' = opsize u"
  using assms
  by (cases m)
    (auto simp: alu_mul_def alu_div_def alu_idiv_def alu_imul_def alu_cqo_def alu_neg_def do_shift_def
       Let_def split: if_splits sum.splits option.splits prod.splits)

lemma exec_switch_jump:
  assumes "is_jump (opcode (Op x))"
  shows "exec_switch h (x, p, g) =
    (case (if jump_condition (opcode (Op x)) (eflags x) then do_jump (x, p) else (x, p)) of
       (x', p') \<Rightarrow> Inr (False, x', p', g))"
proof -
  have "opcode (Op x) \<notin> {UD_Isyscall, UD_Icall, UD_Iret, UD_Ipop, UD_Ipush, UD_Iload, UD_Istore,
      UD_Ipushfq}"
    using assms by (auto simp: is_jump_def)
  with assms show ?thesis by (simp add: exec_switch_def Let_def)
qed

lemma do_jump_immed:
  assumes "src (Op x) = IMMED"
  shows "do_jump (x, p) = (x\<lparr>rip_changed := True, expected_addr := next_addr (Op x) + value1 (Op x)\<rparr>,
      p\<lparr>change_RIP := True, new_RIP := next_addr (Op x) + value1 (Op x), clear_out := True\<rparr>)"
  unfolding do_jump_def Let_def split_conv using assms by simp

subsection \<open>Properties\<close>

text \<open>The inputs and the host of the witnesses.\<close>

definition sample_in :: exec_in where
  "sample_in = \<lparr>in_reset = False, in_clear = False, in_ready = True, d_ready = True,
     d_tagout = 4088, d_data = 77\<rparr>"

definition sample_host :: host where
  "sample_host = \<lparr>host_write = (\<lambda>_ _ _. 0), now = 0\<rparr>"

text \<open>C11: operands that dispatch read from the register file before the last two results
  reached it are, after forwarding, the contents of the register file with these two results
  written, the later one last, and with the execute stage's own copy in the stack pointer once the
  stage has one: after the first push, pop, call or return, RSP is read from that copy, whatever was
  dispatched.\<close>

theorem fwd_op_current:
  assumes "is_gpr r"
    and "f' = (let F = arf_set (arf_set f (prev_reg2 x) (prev_value2 x)) (prev_reg1 x) (prev_value1 x)
               in if stackpointer x \<noteq> 0 then arf_set F UD_R_RSP (stackpointer x) else F)"
  shows "(reg1 u = r \<and> Some (value1 u) = arf_get f r \<longrightarrow> Some (value1 (fwd_op x lsv u)) = arf_get f' r) \<and>
         (reg2 u = r \<and> Some (value2 u) = arf_get f r \<longrightarrow> Some (value2 (fwd_op x lsv u)) = arf_get f' r) \<and>
         (reg3 u = r \<and> Some (value3 u) = arf_get f r \<longrightarrow> Some (value3 (fwd_op x lsv u)) = arf_get f' r)"
proof -
  have "arf_get f' r = (if r = UD_R_RSP \<and> stackpointer x \<noteq> 0 then Some (stackpointer x)
      else if r = prev_reg1 x then Some (prev_value1 x)
      else if r = prev_reg2 x then Some (prev_value2 x) else arf_get f r)"
    unfolding assms(2) Let_def using assms(1)
    by (cases "stackpointer x = 0") (auto simp: arf.get_put simp del: arf_set.simps)
  then show ?thesis
    using assms(1) by (auto simp: fwd_op_value1 fwd_op_value2 fwd_op_value3)
qed

theorem fwd_op_current_witness:
  "Some (value1 (fwd_op ((exec_init False 4096 uop_empty)\<lparr>prev_reg1 := UD_R_RSP, prev_value1 := 5\<rparr>) 0
      (uop_empty\<lparr>reg1 := UD_R_RSP\<rparr>)))
   = arf_get (ARF_zero\<lparr>rsp := 4096\<rparr>) UD_R_RSP \<and>
   Some (value2 (fwd_op ((exec_init False 4096 uop_empty)\<lparr>prev_reg1 := UD_R_RAX, prev_value1 := 5\<rparr>) 0
      (uop_empty\<lparr>reg2 := UD_R_RAX\<rparr>)))
   = arf_get (ARF_zero\<lparr>rax := 5, rsp := 4096\<rparr>) UD_R_RAX"
proof
  let ?x = "(exec_init False 4096 uop_empty)\<lparr>prev_reg1 := UD_R_RSP, prev_value1 := 5\<rparr>"
  show "Some (value1 (fwd_op ?x 0 (uop_empty\<lparr>reg1 := UD_R_RSP\<rparr>))) = arf_get (ARF_zero\<lparr>rsp := 4096\<rparr>) UD_R_RSP"
    using fwd_op_current [of UD_R_RSP "ARF_zero\<lparr>rsp := 4096\<rparr>" ARF_zero ?x "uop_empty\<lparr>reg1 := UD_R_RSP\<rparr>" 0]
    by (simp add: exec_init_def uop_empty_def ARF_zero_def)
  let ?y = "(exec_init False 4096 uop_empty)\<lparr>prev_reg1 := UD_R_RAX, prev_value1 := 5\<rparr>"
  show "Some (value2 (fwd_op ?y 0 (uop_empty\<lparr>reg2 := UD_R_RAX\<rparr>))) = arf_get (ARF_zero\<lparr>rax := 5, rsp := 4096\<rparr>) UD_R_RAX"
    using fwd_op_current [of UD_R_RAX "ARF_zero\<lparr>rax := 5, rsp := 4096\<rparr>" ARF_zero ?y "uop_empty\<lparr>reg2 := UD_R_RAX\<rparr>" 0]
    by (simp add: exec_init_def uop_empty_def ARF_zero_def)
qed

text \<open>A computing micro-operation appends its result to the writeback queue, moves the
  expected address to the next instruction, starts no memory request, and whatever executes next
  reads its result for each operand that names the destination.\<close>

lemma exec_result_forwarded:
  assumes "exec_accepts i x g" and "u = fwd_op x (offsetreg_value g) (hd (de_uop_queue g))"
    and "is_plain (opcode u)" and "opcode u \<noteq> UD_Inop" and "\<not> rip_changed x"
    and "alu_step (opcode u) u (eflags x) = Inr (u', e')"
    and "is_gpr (reg2 u')" and "reg2 u' \<noteq> UD_R_RSP"
  shows "\<exists>x' p' g'. exec_work h i (x, p, g) = Inr (x', p', g') \<and>
           ew_uop_queue g' = ew_uop_queue g @ [u'] \<and> eflags x' = e' \<and>
           expected_addr x' = next_addr u \<and> d_op p' = d_op p \<and> clear_out p' = clear_out p \<and>
           (\<forall>lsv v. (reg1 v = reg2 u' \<longrightarrow> value1 (fwd_op x' lsv v) = value2 u') \<and>
                    (reg2 v = reg2 u' \<longrightarrow> value2 (fwd_op x' lsv v) = value2 u') \<and>
                    (reg3 v = reg2 u' \<longrightarrow> value3 (fwd_op x' lsv v) = value2 u'))"
proof -
  let ?p = "p\<lparr>out_ready := False, change_RIP := False\<rparr>"
  let ?g = "g\<lparr>de_uop_queue := fwd_queue x (address (hd (de_uop_queue g))) (de_uop_queue g)\<rparr>"
  let ?x = "(exec_front x g)\<lparr>Op := u', eflags := e'\<rparr>"
  have op: "Op (exec_front x g) = u" by (simp add: assms(2))
  have "exec_switch h (exec_front x g, ?p, ?g) = Inr (False, ?x, ?p, ?g)"
    by (rule exec_switch_plain) (use assms op in simp_all)
  with assms(1) have work: "exec_work h i (x, p, g) = Inr (exec_epilogue (?x, ?p, ?g))"
    by (simp add: exec_work_accepts)
  obtain x' p' g' where epi: "exec_epilogue (?x, ?p, ?g) = (x', p', g')"
    by (cases "exec_epilogue (?x, ?p, ?g)") auto
  note keeps = alu_step_keeps [OF assms(6)]
  have "opcode u \<noteq> UD_Isyscall" using assms(3) by (simp add: is_plain_def)
  moreover have "reg2 u' \<noteq> UD_NONE" using assms(7) by auto
  ultimately have x': "prev_reg1 x' = reg2 u' \<and> prev_value1 x' = value2 u' \<and> eflags x' = e' \<and>
      expected_addr x' = next_addr u \<and> stackpointer x' = stackpointer x"
    using assms keeps epi[symmetric] by (simp add: exec_epilogue_def Let_def next_addr_def)
  have "ew_uop_queue g' = ew_uop_queue g @ [u'] \<and> d_op p' = d_op p \<and> clear_out p' = clear_out p"
    using epi[symmetric] by (simp add: exec_epilogue_def Let_def)
  with work epi x' assms(8) show ?thesis
    by (simp add: fwd_op_value1 fwd_op_value2 fwd_op_value3)
qed

text \<open>A micro-operation whose address is neither the expected one nor that of the
  instruction executed last has no effect but to leave the queue: no result, no flag, no memory
  request, no redirection.\<close>

lemma exec_work_squash:
  assumes "\<not> in_reset i" "\<not> in_clear i" "ex_state x = STATE_NORMAL" "in_ready i"
    and "length (ew_uop_queue g) \<le> 1" "de_uop_queue g = u # us"
    and "address u \<notin> {expected_addr x, prev_addr x}" "\<not> firstrun x"
  shows "exec_work h i (x, p, g) =
    Inr (x\<lparr>cyclecount := cyclecount x + 1, Op := u\<rparr>, p\<lparr>out_ready := False, change_RIP := False\<rparr>,
         g\<lparr>de_uop_queue := fwd_queue x (address u) us\<rparr>)"
  using assms
  by (simp add: exec_work_def exec_issue_def Let_def fwd_queue_cong [of "x\<lparr>cyclecount := cyclecount x + 1, Op := u\<rparr>" x])

text \<open>C24: a jump to an immediate displacement redirects the fetch stage and clears the younger
  stages exactly when its condition holds of the flags, to the next address plus the displacement;
  otherwise the next address is expected. The flags are kept.\<close>

theorem jump_redirects_iff:
  assumes "exec_accepts i x g" and "u = hd (de_uop_queue g)" and "is_jump (opcode u)"
    and "src u = IMMED" and "reg2 u = UD_NONE"
    and "reg1 u \<notin> {prev_reg1 x, prev_reg2 x, Load_store_reg, UD_R_RSP}"
    and "\<not> rip_changed x" "\<not> clear_out p"
    and "taken = jump_condition (opcode u) (eflags x)"
  shows "\<exists>x' p' g'. exec_work h i (x, p, g) = Inr (x', p', g') \<and>
           change_RIP p' = taken \<and> clear_out p' = taken \<and> eflags x' = eflags x \<and>
           (taken \<longrightarrow> new_RIP p' = next_addr u + value1 u) \<and>
           expected_addr x' = (if taken then next_addr u + value1 u else next_addr u)"
proof -
  let ?p = "p\<lparr>out_ready := False, change_RIP := False\<rparr>"
  let ?g = "g\<lparr>de_uop_queue := fwd_queue x (address (hd (de_uop_queue g))) (de_uop_queue g)\<rparr>"
  define y where "y = exec_front x g"
  have y: "opcode (Op y) = opcode u" "src (Op y) = IMMED" "next_addr (Op y) = next_addr u"
    "reg2 (Op y) = UD_NONE" "value1 (Op y) = value1 u" "eflags y = eflags x" "\<not> rip_changed y"
    using assms by (simp_all add: y_def fwd_op_value1)
  have work: "exec_work h i (x, p, g) =
    Inr (exec_epilogue (case (if taken then do_jump (y, ?p) else (y, ?p)) of (x', p') \<Rightarrow> (x', p', ?g)))"
    using exec_work_accepts [OF assms(1), of h p] assms(3,9) y
    by (simp add: exec_switch_jump flip: y_def split: prod.splits)
  show ?thesis
    using y assms(8) by (simp add: work do_jump_immed exec_epilogue_def Let_def del: fwd_queue.simps)
qed


theorem jump_redirects_iff_witness:
  "\<exists>x' p' g'. exec_work sample_host sample_in
      ((exec_init False 0 uop_empty)\<lparr>prev_reg1 := UD_R_RCX, prev_reg2 := UD_R_RCX\<rparr>, exec_ports_init,
       globals_init\<lparr>de_uop_queue := [uop_empty\<lparr>opcode := UD_Ijmp, src := IMMED, reg1 := Scratchreg, opsize := 2, value1 := 6\<rparr>]\<rparr>)
      = Inr (x', p', g') \<and> new_RIP p' = 8 \<and> clear_out p'"
proof -
  let ?x = "(exec_init False 0 uop_empty)\<lparr>prev_reg1 := UD_R_RCX, prev_reg2 := UD_R_RCX\<rparr>"
  let ?u = "uop_empty\<lparr>opcode := UD_Ijmp, src := IMMED, reg1 := Scratchreg, opsize := 2, value1 := 6\<rparr>"
  let ?g = "globals_init\<lparr>de_uop_queue := [?u]\<rparr>"
  have acc: "exec_accepts sample_in ?x ?g"
    by (simp add: exec_accepts_def sample_in_def exec_init_def globals_init_def)
  have q: "?u = hd (de_uop_queue ?g)" and r: "next_addr ?u + value1 ?u = 8" "opcode ?u = UD_Ijmp"
    by (simp_all add: next_addr_def uop_empty_def)
  show ?thesis
    using jump_redirects_iff [OF acc q _ _ _ _ _ _ refl, of exec_ports_init sample_host] unfolding r
    by (auto simp: is_jump_def exec_init_def exec_ports_init_def uop_empty_def)
qed

text \<open>A load waits for the answer whose tag is its own; the port carries tags of 32 bits
  and the stage compares the tag with the 64-bit address, so the load completes, with the data as
  its result, exactly when the address is a signed 32-bit number, and waits on otherwise.\<close>

lemma load_completes_iff:
  assumes "ex_state x = STATE_READ" and "opcode (Op x) = UD_Iload" and "de_uop_queue g \<noteq> []"
    and "\<not> in_reset i" "\<not> in_clear i" "d_ready i"
    and "d_tagout i = d_tagin (issue READ (value1 (Op x)) q)"
  shows "\<exists>x' p' g'. exec_work h i (x, p, g) = Inr (x', p', g') \<and>
      (if - (2 ^ 31) \<le> sint (value1 (Op x)) \<and> sint (value1 (Op x)) < 2 ^ 31
       then ew_uop_queue g' = ew_uop_queue g @ [(Op x)\<lparr>value2 := d_data i\<rparr>] \<and>
            ex_state x' = STATE_NORMAL \<and>
            (prev_reg1 x', prev_value1 x') = (reg2 (Op x), d_data i)
       else ew_uop_queue g' = ew_uop_queue g \<and> de_uop_queue g' = de_uop_queue g \<and>
            ex_state x' = STATE_READ \<and> \<not> out_ready p')"
proof -
  have tag: "signed (d_tagout i) = value1 (Op x) \<longleftrightarrow>
      - (2 ^ 31) \<le> sint (value1 (Op x)) \<and> sint (value1 (Op x)) < 2 ^ 31"
    unfolding assms(7) by (simp only: issue_fields narrow_signed_eq_iff)
  show ?thesis
  proof (cases "signed (d_tagout i) = value1 (Op x)")
    case True
    then show ?thesis using assms(1-6) tag
      by (simp add: exec_work_def read_load_def exec_complete_def remember_def Let_def)
  next
    case False
    then show ?thesis using assms(1-6) tag
      by (simp add: exec_work_def read_load_def del: not_le not_less)
  qed
qed

text \<open>A call stores the address of the next instruction below the stack pointer; a return
  that executes with the stack pointer of the call and is answered with that datum continues at
  that address with the stack pointer of before the call.\<close>

lemma call_ret_returns:
  assumes "exec_accepts i1 x1 g1" and "c = fwd_op x1 (offsetreg_value g1) (hd (de_uop_queue g1))"
    and "opcode c = UD_Icall" "src c = IMMED" "reg2 c = UD_NONE"
    and "exec_work h i1 (x1, p1, g1) = Inr (x2, p2, g2)"
    and "exec_accepts i3 x3 g3" "stackpointer x3 = stackpointer x2"
    and "opcode (hd (de_uop_queue g3)) = UD_Iret" "reg3 (hd (de_uop_queue g3)) = UD_R_RSP"
    and "exec_work h i3 (x3, p3, g3) = Inr (x4, p4, g4)"
    and "\<not> in_reset i5" "\<not> in_clear i5" "d_ready i5"
    and "d_tagout i5 = d_tagin p4" "d_data i5 = (if d_addr p4 = d_addr p2 then d_dout p2 else other)"
    and "0 < sint (value3 c - 8)" "sint (value3 c - 8) < 2 ^ 31"
  shows "\<exists>x5 p5 g5. exec_work h i5 (x4, p4, g4) = Inr (x5, p5, g5) \<and>
      change_RIP p5 \<and> new_RIP p5 = next_addr c \<and> expected_addr x5 = next_addr c \<and>
      stackpointer x5 = value3 c"
proof -
  have two: "d_addr p2 = value3 c - 8" "d_dout p2 = next_addr c" "stackpointer x2 = value3 c - 8"
    using exec_work_call [OF assms(1-4), of h p1] assms(5,6) by auto
  let ?u = "fwd_op x3 (offsetreg_value g3) (hd (de_uop_queue g3))"
  have nz: "value3 c - 8 \<noteq> 0" using assms(17) by auto
  have v3: "value3 ?u = value3 c - 8"
    using assms(8,10) two nz by (simp add: fwd_op_value3)
  have four: "x4 = (exec_front x3 g3)\<lparr>ex_state := STATE_READ\<rparr>"
      "p4 = issue READ (value3 c - 8) (p3\<lparr>out_ready := False, change_RIP := False\<rparr>)"
      "de_uop_queue g4 \<noteq> []"
    using exec_work_read [OF assms(7) _ refl refl, of h p3] assms(7,9,11) v3
    by (auto simp: exec_accepts_def)
  have tag: "signed (d_tagout i5) = value3 c - 8"
    unfolding assms(15) four(2) issue_fields narrow_signed_eq_iff using assms(17,18) by simp
  have dat: "d_data i5 = next_addr c" using assms(16) two four by (simp add: issue_def)
  show ?thesis
    using assms(9,12-14) four v3 tag dat
    by (simp add: exec_work_def read_ret_def exec_complete_def Let_def)
qed


end
