(* ===== verification/LruSet.thy ===== *)
theory LruSet
  imports Prelude
begin

text \<open>
  The least-recently-used set of \<^verbatim>\<open>core-project/lruset.h\<close>, from which the memory model builds
  its caches. The C++ class keeps a Boost \<^verbatim>\<open>bimap\<close> with a set of keys on the left and a list of
  values on the right; the order of the list is the order of use, and is the only order the class
  looks at. Here it is a list of pairs, least recently used first.

  \<^verbatim>\<open>get\<close> returns a reference to the stored value, through which the caller may assign; that
  assignment is \<open>lru_assign\<close>.
\<close>

record ('k, 'v) lruset =
  capacity :: nat
  entries :: "('k \<times> 'v) list"

definition lru_new :: "nat \<Rightarrow> ('k, 'v) lruset" where
  "lru_new c = \<lparr>capacity = c, entries = []\<rparr>"

definition lru_get :: "'k \<Rightarrow> bool \<Rightarrow> ('k, 'v) lruset \<Rightarrow> 'v option \<times> ('k, 'v) lruset" where
  "lru_get k promote s = (case map_of (entries s) k of
     None \<Rightarrow> (None, s)
   | Some v \<Rightarrow> (Some v, if promote
                         then s\<lparr>entries := filter (\<lambda>e. fst e \<noteq> k) (entries s) @ [(k, v)]\<rparr>
                         else s))"

definition lru_assign :: "'k \<Rightarrow> 'v \<Rightarrow> ('k, 'v) lruset \<Rightarrow> ('k, 'v) lruset" where
  "lru_assign k v s = s\<lparr>entries := map (\<lambda>e. if fst e = k then (k, v) else e) (entries s)\<rparr>"

text \<open>
  \<^verbatim>\<open>put\<close> returns the evicted pair, or the default pair \<open>none\<close> (a local that the code does
  not assign then). Inserting a key that is present leaves a \<^verbatim>\<open>bimap\<close> unchanged, but the
  eviction comes first and does not ask. With capacity 0 the code would dereference
  \<^verbatim>\<open>begin()\<close> of an empty list; the caches have capacities 128 and 1024.
\<close>

definition lru_put :: "'k \<times> 'v \<Rightarrow> 'k \<Rightarrow> 'v \<Rightarrow> ('k, 'v) lruset \<Rightarrow> ('k \<times> 'v) \<times> ('k, 'v) lruset" where
  "lru_put none k v s =
     (let (victim, es) = (if length (entries s) = capacity s
                          then (case entries s of [] \<Rightarrow> (none, []) | e # es \<Rightarrow> (e, es))
                          else (none, entries s))
      in (victim, s\<lparr>entries := (if k \<in> fst ` set es then es else es @ [(k, v)])\<rparr>))"

subsection \<open>The invariant\<close>

definition lru_inv :: "('k, 'v) lruset \<Rightarrow> bool" where
  "lru_inv s \<longleftrightarrow> 0 < capacity s \<and> distinct (map fst (entries s)) \<and> length (entries s) \<le> capacity s"

lemma lru_inv_new [simp]: "lru_inv (lru_new c) \<longleftrightarrow> 0 < c"
  by (simp add: lru_inv_def lru_new_def)

lemma capacity_get [simp]: "capacity (snd (lru_get k b s)) = capacity s"
  by (simp add: lru_get_def split: option.split)

lemma capacity_put [simp]: "capacity (snd (lru_put n k v s)) = capacity s"
  by (simp add: lru_put_def Let_def split: prod.split)

lemma capacity_assign [simp]: "capacity (lru_assign k v s) = capacity s"
  by (simp add: lru_assign_def)

lemma lru_inv_get [intro]:
  assumes "lru_inv s" shows "lru_inv (snd (lru_get k b s))"
proof (cases "map_of (entries s) k")
  case None
  then show ?thesis using assms by (simp add: lru_get_def)
next
  case (Some v)
  then have "k \<in> set (map fst (entries s))" by (force dest: map_of_SomeD)
  then have "Suc (length (filter (\<lambda>e. fst e \<noteq> k) (entries s))) = length (entries s)"
    using assms by (intro length_filter_key) (simp_all add: lru_inv_def)
  then show ?thesis using assms Some
    by (auto simp: lru_inv_def lru_get_def map_filter_key_distinct)
qed

lemma lru_inv_put [intro]:
  assumes "lru_inv s" shows "lru_inv (snd (lru_put n k v s))"
  using assms
  by (auto simp: lru_inv_def lru_put_def Let_def split: prod.splits list.splits if_splits)

lemma keys_assign: "map fst (entries (lru_assign k v s)) = map fst (entries s)"
  by (simp add: lru_assign_def)

lemma lru_inv_assign [intro]: "lru_inv s \<Longrightarrow> lru_inv (lru_assign k v s)"
  by (simp add: lru_inv_def keys_assign) (simp add: lru_assign_def)

lemma lru_get_result: "fst (lru_get k b s) = map_of (entries s) k"
  by (simp add: lru_get_def split: option.split)

subsection \<open>What the set remembers\<close>

text \<open>
  The way the memory uses a set: look a key up and move it to the end, insert it when it is not
  there. \<open>lastn c xs\<close> is the last \<open>c\<close> elements; \<^const>\<open>remdups\<close> keeps the last occurrence of
  each key of a trace.
\<close>

definition lru_access :: "'k \<times> 'v \<Rightarrow> 'v \<Rightarrow> 'k \<Rightarrow> ('k, 'v) lruset \<Rightarrow> ('k, 'v) lruset" where
  "lru_access none v k s = (case lru_get k True s of
     (Some _, s') \<Rightarrow> s' | (None, s') \<Rightarrow> snd (lru_put none k v s'))"

definition lastn :: "nat \<Rightarrow> 'a list \<Rightarrow> 'a list" where
  "lastn n xs = drop (length xs - n) xs"

lemma remdups_snoc: "remdups (xs @ [k]) = filter (\<lambda>x. x \<noteq> k) (remdups xs) @ [k]"
  by (induction xs) auto

lemma lastn_split: "\<exists>as. xs = as @ lastn n xs \<and> (length (lastn n xs) < n \<longrightarrow> as = []) \<and> length (lastn n xs) \<le> n"
  by (rule exI [of _ "take (length xs - n) xs"]) (auto simp: lastn_def)

lemma lastn_snoc: "0 < n \<Longrightarrow> lastn n (xs @ [k]) = lastn (n - 1) xs @ [k]"
  by (auto simp: lastn_def Suc_diff_le drop_Cons' not_le)

lemma filter_neq_notin: "k \<notin> set xs \<Longrightarrow> filter (\<lambda>x. x \<noteq> k) xs = xs"
  by (induction xs) auto

lemma lastn_append_short: "length ys \<ge> n \<Longrightarrow> lastn n (xs @ ys) = lastn n ys"
  by (simp add: lastn_def)

lemma lastn_long: "length xs \<le> n \<Longrightarrow> lastn n xs = xs"
  by (simp add: lastn_def)

lemma length_filter_neq_distinct: "distinct xs \<Longrightarrow> k \<in> set xs \<Longrightarrow> Suc (length (filter (\<lambda>x. x \<noteq> k) xs)) = length xs"
  by (induction xs) (auto simp: filter_neq_notin)

text \<open>One access on the level of keys.\<close>

lemma lastn_access:
  assumes "distinct xs" and "0 < n"
  shows "lastn n (filter (\<lambda>x. x \<noteq> k) xs @ [k]) =
    (if k \<in> set (lastn n xs) then filter (\<lambda>x. x \<noteq> k) (lastn n xs) @ [k]
     else (if length (lastn n xs) = n then tl (lastn n xs) else lastn n xs) @ [k])"
proof -
  define ys where "ys = lastn n xs"
  obtain as where xs: "xs = as @ ys" and short: "length ys < n \<longrightarrow> as = []" and le: "length ys \<le> n"
    using lastn_split [of xs n] by (auto simp: ys_def)
  let ?f = "filter (\<lambda>x. x \<noteq> k)"
  have "lastn (n - 1) (?f xs) =
    (if k \<in> set ys then ?f ys else if length ys = n then tl ys else ys)"
  proof (cases "k \<in> set ys")
    case True
    then have "Suc (length (?f ys)) = length ys" and "k \<notin> set as"
      using assms(1) xs by (auto intro: length_filter_neq_distinct)
    then show ?thesis using True xs short le assms(2)
      by (cases "length ys < n") (auto simp: lastn_append_short lastn_long)
  next
    case False
    then have f: "?f xs = ?f as @ ys" by (simp add: xs filter_neq_notin)
    show ?thesis
    proof (cases "length ys = n")
      case True
      then show ?thesis using False assms(2)
        by (cases ys) (auto simp: f lastn_append_short lastn_def)
    next
      case False': False
      then show ?thesis using False le short by (simp add: f lastn_long)
    qed
  qed
  then show ?thesis using assms(2) by (simp add: lastn_snoc ys_def)
qed

lemma keys_get_hit:
  assumes "k \<in> fst ` set (entries s)"
  shows "map fst (entries (snd (lru_get k True s))) = filter (\<lambda>x. x \<noteq> k) (map fst (entries s)) @ [k]"
proof -
  obtain v where "map_of (entries s) k = Some v"
    using assms by (metis map_of_eq_None_iff option.exhaust)
  then show ?thesis by (simp add: lru_get_def filter_map o_def)
qed

lemma keys_access:
  assumes "lru_inv s"
  shows "map fst (entries (lru_access n v k s)) =
    (if k \<in> set (map fst (entries s)) then filter (\<lambda>x. x \<noteq> k) (map fst (entries s)) @ [k]
     else (if length (entries s) = capacity s then tl (map fst (entries s)) else map fst (entries s)) @ [k])"
proof (cases "k \<in> fst ` set (entries s)")
  case True
  then obtain v' where "map_of (entries s) k = Some v'" by (metis map_of_eq_None_iff option.exhaust)
  with True show ?thesis by (simp add: lru_access_def lru_get_def filter_map o_def)
next
  case False
  then have "map_of (entries s) k = None" by (simp add: map_of_eq_None_iff)
  then have "lru_get k True s = (None, s)" by (simp add: lru_get_def)
  with False show ?thesis using assms
    by (auto simp: lru_access_def lru_put_def Let_def lru_inv_def split: list.split)
qed

lemma lru_inv_access [intro]:
  assumes "lru_inv s" shows "lru_inv (lru_access n v k s)"
  using lru_inv_get [OF assms, of k True] lru_inv_put [of "snd (lru_get k True s)" n k v]
  by (cases "lru_get k True s"; cases "fst (lru_get k True s)") (simp_all add: lru_access_def)

lemma capacity_access [simp]: "capacity (lru_access n v k s) = capacity s"
  using capacity_get [of k True s]
  by (cases "lru_get k True s"; cases "fst (lru_get k True s)") (simp_all add: lru_access_def)

text \<open>C20: after any trace of accesses to an empty set of capacity \<open>c\<close> the set holds exactly the
  last \<open>c\<close> distinct keys of the trace, least recently used first: the cache implements the
  replacement policy its name promises.\<close>

theorem lru_holds_last_keys:
  assumes "0 < c"
  shows "map fst (entries (fold (lru_access none v) ks (lru_new c))) = lastn c (remdups ks)"
proof -
  have "map fst (entries (fold (lru_access none v) ks (lru_new c))) = lastn c (remdups ks)
    \<and> lru_inv (fold (lru_access none v) ks (lru_new c))
    \<and> capacity (fold (lru_access none v) ks (lru_new c)) = c"
  proof (induction ks rule: rev_induct)
    case Nil
    then show ?case using assms by (simp add: lru_new_def lastn_def lru_inv_def)
  next
    case (snoc k ks)
    define s where "s = fold (lru_access none v) ks (lru_new c)"
    have keys: "map fst (entries s) = lastn c (remdups ks)" and inv: "lru_inv s" and cap: "capacity s = c"
      using snoc by (simp_all add: s_def)
    have len: "length (entries s) = length (lastn c (remdups ks))" by (simp flip: keys)
    have "map fst (entries (lru_access none v k s)) = lastn c (remdups (ks @ [k]))"
      unfolding keys_access [OF inv] remdups_snoc lastn_access [OF distinct_remdups assms] keys len cap ..
    then show ?case using inv cap by (simp add: s_def [symmetric] lru_inv_access)
  qed
  then show ?thesis by blast
qed

theorem lru_holds_last_keys_witness:
  "map fst (entries (fold (lru_access (0, True) False) [1, 2, 3, 1, 4 :: nat] (lru_new 2))) = [1, 4]"
proof -
  have r: "lastn 2 (remdups [1, 2, 3, 1, 4 :: nat]) = [1, 4]" by (simp add: lastn_def)
  show ?thesis unfolding lru_holds_last_keys [of 2, simplified] by (rule r)
qed

end
