(* ===== verification/DelayBucket.thy ===== *)
theory DelayBucket
  imports Prelude "HOL-Library.Multiset"
begin

text \<open>
  The delay bucket of \<^verbatim>\<open>core-project/delaybucket.h\<close>: a priority queue of items with the
  simulation time (here in picoseconds) at which they become available. The comparison object says
  \<^verbatim>\<open>l.first >= r.first\<close>, so the top is an item of the least time; which one of several with
  that time is up to \<^verbatim>\<open>std::priority_queue\<close> (and the comparison, not being strict, is not one
  the standard allows). The choice is a parameter \<open>pick\<close> of the model, about which the clients
  know only the contract \<open>tie_break\<close>.
\<close>

type_synonym 'a bucket = "(nat \<times> 'a) list"

definition bucket_add :: "nat \<Rightarrow> 'a \<Rightarrow> nat \<Rightarrow> 'a bucket \<Rightarrow> 'a bucket" where
  "bucket_add now v delay q = q @ [(now + delay, v)]"

definition bucket_get :: "('a bucket \<Rightarrow> nat) \<Rightarrow> nat \<Rightarrow> 'a bucket \<Rightarrow> 'a option \<times> 'a bucket" where
  "bucket_get pick now q =
     (if q = [] then (None, q)
      else if fst (q ! pick q) \<le> now
      then (Some (snd (q ! pick q)), take (pick q) q @ drop (Suc (pick q)) q)
      else (None, q))"

subsection \<open>The contract of the priority queue\<close>

text \<open>The items that are available no later than \<open>t\<close>.\<close>

definition due_by :: "nat \<Rightarrow> 'a bucket \<Rightarrow> nat" where
  "due_by t q = length (filter (\<lambda>e. fst e \<le> t) q)"

lemma due_by_add [simp]: "due_by t (bucket_add now v delay q) = due_by t q + (if now + delay \<le> t then 1 else 0)"
  by (simp add: due_by_def bucket_add_def)

lemma mset_remove_nth: "i < length q \<Longrightarrow> mset q = add_mset (q ! i) (mset (take i q @ drop (Suc i) q))"
  by (metis append_take_drop_id Cons_nth_drop_Suc mset.simps(2) mset_append union_mset_add_mset_right)

lemma due_by_mset: "due_by t q = size (filter_mset (\<lambda>e. fst e \<le> t) (mset q))"
  by (simp add: due_by_def flip: mset_filter)

locale tie_break =
  fixes pick :: "(nat \<times> 'a) list \<Rightarrow> nat"
  assumes pick_in: "q \<noteq> [] \<Longrightarrow> pick q < length q"
    and pick_least: "q \<noteq> [] \<Longrightarrow> e \<in> set q \<Longrightarrow> fst (q ! pick q) \<le> fst e"
begin

lemma get_None_iff: "fst (bucket_get pick now q) = None \<longleftrightarrow> (\<forall>e\<in>set q. now < fst e)"
proof (cases "q = []")
  case False
  from pick_in [OF this] have "q ! pick q \<in> set q" by simp
  then have "now < fst (q ! pick q) \<longleftrightarrow> (\<forall>e\<in>set q. now < fst e)"
    using pick_least [OF False] less_le_trans by blast
  with False show ?thesis by (simp add: bucket_get_def flip: not_less)
qed (simp add: bucket_get_def)

lemma get_None_same: "fst (bucket_get pick now q) = None \<Longrightarrow> snd (bucket_get pick now q) = q"
  by (auto simp: bucket_get_def split: if_splits)

lemma get_Some:
  assumes "bucket_get pick now q = (Some v, q')"
  shows "\<exists>t \<le> now. mset q = add_mset (t, v) (mset q') \<and> (\<forall>e\<in>set q. t \<le> fst e)"
proof -
  have ne: "q \<noteq> []" and t: "fst (q ! pick q) \<le> now" and v: "v = snd (q ! pick q)"
    and q': "q' = take (pick q) q @ drop (Suc (pick q)) q"
    using assms by (auto simp: bucket_get_def split: if_splits)
  have "mset q = add_mset (fst (q ! pick q), v) (mset q')"
    using mset_remove_nth [OF pick_in [OF ne]] by (simp add: v q')
  with t pick_least [OF ne] show ?thesis by blast
qed

text \<open>An item that is due is handed out, or one more item stands before it no longer.\<close>

lemma get_progress:
  assumes "(t, x) \<in> set q" and "t \<le> now" and "bucket_get pick now q = (r, q')"
  shows "r = Some x \<and> due_by t q = Suc (due_by t q') \<or> (t, x) \<in> set q' \<and> due_by t q = Suc (due_by t q')"
proof (cases r)
  case None
  then have "now < t" using get_None_iff [of now q] assms(1,3) by force
  with assms(2) show ?thesis by simp
next
  case (Some v)
  from get_Some [OF assms(3) [unfolded Some]] obtain s where
    s: "mset q = add_mset (s, v) (mset q')" "\<forall>e\<in>set q. s \<le> fst e" by blast
  then have "s \<le> t" using assms(1) by force
  then have due: "due_by t q = Suc (due_by t q')" by (simp add: due_by_mset s(1))
  have "(t, x) \<in># add_mset (s, v) (mset q')" using assms(1) by (simp flip: s(1))
  then show ?thesis using due Some by auto
qed

end

subsection \<open>A concrete queue\<close>

text \<open>The first item of the least time.\<close>

fun pick_first :: "(nat \<times> 'a) list \<Rightarrow> nat" where
  "pick_first [] = 0"
| "pick_first [e] = 0"
| "pick_first (e # q) = (if fst e \<le> fst (q ! pick_first q) then 0 else Suc (pick_first q))"

lemma pick_first_in: "q \<noteq> [] \<Longrightarrow> pick_first q < length q"
  by (induction q rule: pick_first.induct) auto

lemma pick_first_least: "e \<in> set q \<Longrightarrow> fst (q ! pick_first q) \<le> fst e"
  by (induction q rule: pick_first.induct) (auto intro: order_trans)

interpretation first: tie_break pick_first
  by unfold_locales (simp_all add: pick_first_in pick_first_least)

lemma tie_break_first [simp, intro]: "tie_break pick_first"
  by (rule first.tie_break_axioms)

end
