(* ===== verification/Memory.thy ===== *)
theory Memory
  imports LruSet DelayBucket Common Alu
begin

text \<open>
  The memory of the simulator (\<^verbatim>\<open>core-project/memory.cc\<close>, \<^verbatim>\<open>memory.h\<close>): a byte array behind
  two first-level caches and a second-level cache that keep no data, only which addresses are
  resident and dirty, and so decide the latency of a request. Answers wait in two delay buckets;
  while a request for an address is outstanding, the tags of further requests for it are queued
  in a table of miss status registers (\<^verbatim>\<open>mshr\<close>) and answered with it.

  The model has the one instruction port and the one data port of \<^verbatim>\<open>const.h\<close>. Times are in
  picoseconds. The choice of the delay bucket among items of equal time is the parameter
  \<open>pick\<close>. A failed \<^verbatim>\<open>assert\<close> is \<^verbatim>\<open>Assertion_failed\<close>.
\<close>

datatype dirty = CLEAN | DIRTY

type_synonym cache = "(addr, dirty) lruset"
type_synonym response = "cint \<times> addr"

record memory =
  L1i :: cache
  L1d :: cache
  L2 :: cache
  mem :: "addr \<Rightarrow> byte"
  i_resp :: "response bucket"
  d_resp :: "response bucket"
  i_mshr :: "addr \<Rightarrow> cint list option"
  d_mshr :: "addr \<Rightarrow> cint list option"
  mi_ready :: bool
  mi_tagout :: cint
  mi_data :: line128
  md_ready :: bool
  md_tagout :: cint
  md_data :: quad

record memory_in =
  mm_reset :: bool
  mi_op :: mem_op
  mi_tagin :: cint
  mi_addr :: addr
  md_op :: mem_op
  md_tagin :: cint
  md_addr :: addr
  md_din :: quad

definition memory_new :: "(addr \<Rightarrow> byte) \<Rightarrow> memory" where
  "memory_new bytes = \<lparr>L1i = lru_new 128, L1d = lru_new 128, L2 = lru_new 1024, mem = bytes,
     i_resp = [], d_resp = [], i_mshr = Map.empty, d_mshr = Map.empty,
     mi_ready = False, mi_tagout = 0, mi_data = 0, md_ready = False, md_tagout = 0, md_data = 0\<rparr>"

subsection \<open>Reading and writing bytes\<close>

text \<open>
  Sixteen instruction bytes are read with the first byte in the highest position, eight data bytes
  with the first byte in the lowest.
\<close>

definition mem_i_read :: "(addr \<Rightarrow> byte) \<Rightarrow> addr \<Rightarrow> fault + line128" where
  "mem_i_read bytes a =
     (if a mod 16 \<noteq> 0 then Inl Assertion_failed
      else Inr (word_rcat (map (\<lambda>b. bytes (a + word_of_nat b)) [0..<16])))"

definition mem_d_read :: "(addr \<Rightarrow> byte) \<Rightarrow> addr \<Rightarrow> fault + quad" where
  "mem_d_read bytes a =
     (if a mod 8 \<noteq> 0 then Inl Assertion_failed
      else Inr (word_rcat (map (\<lambda>b. bytes (a + 8 - word_of_nat b - 1)) [0..<8])))"

definition mem_d_write :: "addr \<Rightarrow> quad \<Rightarrow> (addr \<Rightarrow> byte) \<Rightarrow> fault + (addr \<Rightarrow> byte)" where
  "mem_d_write a v bytes =
     (if a mod 8 \<noteq> 0 then Inl Assertion_failed
      else Inr (fold (\<lambda>b f. f(a + word_of_nat b := ucast (drop_bit (8 * b) v))) [0..<8] bytes))"

subsection \<open>Answers\<close>

text \<open>The queued tags of an address become available at once, in the order they were queued.\<close>

definition release :: "nat \<Rightarrow> addr \<Rightarrow> cint list option \<Rightarrow> response bucket \<Rightarrow> response bucket" where
  "release now a tags q = (case tags of
     None \<Rightarrow> q | Some ts \<Rightarrow> fold (\<lambda>t q. bucket_add now (t, a) 0 q) ts q)"

definition mem_i_answer ::
  "(response bucket \<Rightarrow> nat) \<Rightarrow> nat \<Rightarrow> memory \<Rightarrow> fault + memory" where
  "mem_i_answer pick now m = (case bucket_get pick now (i_resp m) of
     (None, _) \<Rightarrow> Inr (m\<lparr>mi_ready := False\<rparr>)
   | (Some (tag, a), q) \<Rightarrow> (case mem_i_read (mem m) a of
       Inl f \<Rightarrow> Inl f
     | Inr v \<Rightarrow> Inr (m\<lparr>mi_ready := True, mi_tagout := tag, mi_data := v,
                      i_resp := release now a (i_mshr m a) q,
                      i_mshr := (i_mshr m)(a := None)\<rparr>)))"

definition mem_d_answer ::
  "(response bucket \<Rightarrow> nat) \<Rightarrow> nat \<Rightarrow> memory \<Rightarrow> fault + memory" where
  "mem_d_answer pick now m = (case bucket_get pick now (d_resp m) of
     (None, _) \<Rightarrow> Inr (m\<lparr>md_ready := False\<rparr>)
   | (Some (tag, a), q) \<Rightarrow> (case mem_d_read (mem m) a of
       Inl f \<Rightarrow> Inl f
     | Inr v \<Rightarrow> Inr (m\<lparr>md_ready := True, md_tagout := tag, md_data := v,
                      d_resp := release now a (d_mshr m a) q,
                      d_mshr := (d_mshr m)(a := None)\<rparr>)))"

subsection \<open>Requests\<close>

text \<open>
  The latency of a request in nanoseconds, and the caches after it. The pair a \<^verbatim>\<open>put\<close> returns
  when nothing is evicted is the default pair, address 0 and \<^verbatim>\<open>CLEAN\<close>.
\<close>

definition no_victim :: "addr \<times> dirty" where
  "no_victim = (0, CLEAN)"

definition i_latency :: "addr \<Rightarrow> memory \<Rightarrow> nat \<times> memory" where
  "i_latency a m = (case lru_get a True (L1i m) of
     (Some _, c1) \<Rightarrow> (2, m\<lparr>L1i := c1\<rparr>)
   | (None, c1) \<Rightarrow>
       (let m = m\<lparr>L1i := snd (lru_put no_victim a CLEAN c1)\<rparr> in
        case lru_get a True (L2 m) of
          (Some _, c2) \<Rightarrow> (2 + 9, m\<lparr>L2 := c2\<rparr>)
        | (None, c2) \<Rightarrow> (2 + 9 + 100, m\<lparr>L2 := snd (lru_put no_victim a CLEAN c2)\<rparr>)))"

text \<open>A dirty victim of the first-level cache marks the second level, under the address of the
  request.\<close>

definition d_victim :: "addr \<Rightarrow> addr \<times> dirty \<Rightarrow> memory \<Rightarrow> memory" where
  "d_victim a victim m =
     (if snd victim = DIRTY
      then (case lru_get a False (L2 m) of
              (None, c2) \<Rightarrow> m\<lparr>L2 := snd (lru_put no_victim a DIRTY c2)\<rparr>
            | (Some _, c2) \<Rightarrow> m\<lparr>L2 := lru_assign a DIRTY c2\<rparr>)
      else m)"

definition d_latency :: "mem_op \<Rightarrow> addr \<Rightarrow> memory \<Rightarrow> nat \<times> memory" where
  "d_latency op a m = (case lru_get a True (L1d m) of
     (Some _, c1) \<Rightarrow> (3, m\<lparr>L1d := if op = WRITE then lru_assign a DIRTY c1 else c1\<rparr>)
   | (None, c1) \<Rightarrow>
       (case lru_put no_victim a (if op = READ then CLEAN else DIRTY) c1 of
          (victim, c1) \<Rightarrow>
            (let m = d_victim a victim (m\<lparr>L1d := c1\<rparr>) in
             case lru_get a True (L2 m) of
               (Some _, c2) \<Rightarrow> (3 + 9, m\<lparr>L2 := c2\<rparr>)
             | (None, c2) \<Rightarrow> (3 + 9 + 100, m\<lparr>L2 := snd (lru_put no_victim a CLEAN c2)\<rparr>))))"

text \<open>\<^verbatim>\<open>ns\<close> is one nanosecond, a thousand picoseconds.\<close>

definition mem_i_request :: "nat \<Rightarrow> memory_in \<Rightarrow> memory \<Rightarrow> fault + memory" where
  "mem_i_request now i m =
     (if mi_op i = NONE then Inr m
      else if mi_op i \<noteq> READ then Inl Assertion_failed
      else case i_mshr m (mi_addr i) of
        Some tags \<Rightarrow> Inr (m\<lparr>i_mshr := (i_mshr m)(mi_addr i := Some (tags @ [mi_tagin i]))\<rparr>)
      | None \<Rightarrow> (case i_latency (mi_addr i) m of (latency, m) \<Rightarrow>
          if \<not> mi_addr i > 0xffff then Inl Assertion_failed
          else if \<not> mi_addr i < mem_size then Inl Assertion_failed
          else Inr (m\<lparr>i_resp := bucket_add now (mi_tagin i, mi_addr i) (latency * 1000) (i_resp m),
                     i_mshr := (i_mshr m)(mi_addr i := Some [])\<rparr>)))"

definition mem_d_request :: "nat \<Rightarrow> memory_in \<Rightarrow> memory \<Rightarrow> fault + memory" where
  "mem_d_request now i m =
     (if md_op i = NONE then Inr m
      else if \<not> md_addr i > 0xffff then Inl Assertion_failed
      else if \<not> md_addr i < mem_size then Inl Assertion_failed
      else case (if md_op i = WRITE then mem_d_write (md_addr i) (md_din i) (mem m) else Inr (mem m)) of
        Inl f \<Rightarrow> Inl f
      | Inr bytes \<Rightarrow>
          (let m = m\<lparr>mem := bytes\<rparr> in
           case d_mshr m (md_addr i) of
             Some tags \<Rightarrow> Inr (m\<lparr>d_mshr := (d_mshr m)(md_addr i := Some (tags @ [md_tagin i]))\<rparr>)
           | None \<Rightarrow> (case d_latency (md_op i) (md_addr i) m of (latency, m) \<Rightarrow>
               Inr (m\<lparr>d_resp := bucket_add now (md_tagin i, md_addr i) (latency * 1000) (d_resp m),
                     d_mshr := (d_mshr m)(md_addr i := Some [])\<rparr>))))"

subsection \<open>The handler\<close>

definition and_then :: "'e + 'a \<Rightarrow> ('a \<Rightarrow> 'e + 'b) \<Rightarrow> 'e + 'b" where
  "and_then r f = (case r of Inl e \<Rightarrow> Inl e | Inr x \<Rightarrow> f x)"

definition mem_work ::
  "(response bucket \<Rightarrow> nat) \<Rightarrow> nat \<Rightarrow> memory_in \<Rightarrow> memory \<Rightarrow> fault + memory" where
  "mem_work pick now i m =
     (if mm_reset i then Inr m
      else and_then (mem_i_answer pick now m) (\<lambda>m.
           and_then (mem_d_answer pick now m) (\<lambda>m.
           and_then (mem_i_request now i m) (\<lambda>m.
           mem_d_request now i m))))"

lemma and_then_Inr [simp]: "and_then r f = Inr y \<longleftrightarrow> (\<exists>x. r = Inr x \<and> f x = Inr y)"
  by (cases r) (simp_all add: and_then_def)

subsection \<open>Bytes\<close>

lemma bit_word_rcat:
  "bit (word_rcat (ws :: 'a :: len word list) :: 'b :: len word) n \<longleftrightarrow>
     n < LENGTH('b) \<and> n div LENGTH('a) < length ws \<and> bit (rev ws ! (n div LENGTH('a))) (n mod LENGTH('a))"
  by (simp add: word_rcat_def bit_horner_sum_uint_exp_iff bit_word_of_int_iff)

lemma bit_word_of_bytes_low:
  assumes "n < 64"
  shows "bit (word_rcat (map (\<lambda>b. f (7 - b)) [0..<8]) :: quad) n = bit (f (n div 8) :: byte) (n mod 8)"
proof -
  have "n div 8 < 8" using assms by simp
  moreover have "rev (map (\<lambda>b. f (7 - b)) [0..<8]) ! k = f k" if "k < 8" for k
  proof -
    have "[0..<8] ! (7 - k) = 7 - k" by (subst nth_upt) simp_all
    then show ?thesis using that by (simp add: rev_nth)
  qed
  ultimately have "rev (map (\<lambda>b. f (7 - b)) [0..<8]) ! (n div 8) = f (n div 8)" by blast
  then show ?thesis using assms \<open>n div 8 < 8\<close> by (simp add: bit_word_rcat)
qed

lemma mem_d_read_bytes:
  "mem_d_read bytes a = (if a mod 8 \<noteq> 0 then Inl Assertion_failed
     else Inr (word_rcat (map (\<lambda>b. bytes (a + word_of_nat (7 - b))) [0..<8])))"
proof -
  have "map (\<lambda>b. bytes (a + 8 - word_of_nat b - 1)) [0..<8] = map (\<lambda>b. bytes (a + word_of_nat (7 - b))) [0..<8]"
    by (rule map_cong) (auto simp: of_nat_diff algebra_simps)
  then show ?thesis by (simp only: mem_d_read_def)
qed

lemma offset_eq_iff:
  assumes "n < 2 ^ 64"
  shows "x = a + word_of_nat n \<longleftrightarrow> unat (x - a :: addr) = n"
proof
  assume "x = a + word_of_nat n"
  then show "unat (x - a) = n" using assms by (simp add: unat_of_nat take_bit_nat_eq_self)
next
  assume "unat (x - a) = n"
  then have "word_of_nat n = x - a" by auto
  then show "x = a + word_of_nat n" by simp
qed

lemma fold_bytes:
  "n \<le> 2 ^ 64 \<Longrightarrow> fold (\<lambda>b f. f(a + word_of_nat b := g b)) [0..<n] bytes x =
     (if unat (x - a :: addr) < n then g (unat (x - a)) else bytes x)"
proof (induction n)
  case 0
  then show ?case by simp
next
  case (Suc n)
  then show ?case by (auto simp: offset_eq_iff less_Suc_eq)
qed

text \<open>A host store of eight bytes through a pointer into the simulated memory, not checked for
  alignment.\<close>

definition store64 :: "addr \<Rightarrow> quad \<Rightarrow> (addr \<Rightarrow> byte) \<Rightarrow> addr \<Rightarrow> byte" where
  "store64 a v bytes = fold (\<lambda>b f. f(a + word_of_nat b := ucast (drop_bit (8 * b) v))) [0..<8] bytes"

lemma store64_byte:
  "store64 a v bytes x = (if unat (x - a) < 8 then ucast (drop_bit (8 * unat (x - a)) v) else bytes x)"
  unfolding store64_def using fold_bytes [of 8 a "\<lambda>b. ucast (drop_bit (8 * b) v)" bytes x] by simp

lemma mem_d_write_store64: "a mod 8 = 0 \<Longrightarrow> mem_d_write a v bytes = Inr (store64 a v bytes)"
  by (simp add: mem_d_write_def store64_def)

lemma mod_8_unat: "(a :: addr) mod 8 = 0 \<longleftrightarrow> 8 dvd unat a"
  by (simp add: word_arith_nat_mod unat_eq_zero [symmetric] dvd_eq_mod_eq_0 unat_of_nat)


lemma aligned_offset:
  assumes "(a :: addr) mod 8 = 0" "a' mod 8 = 0" "k < 8" "unat (a' + word_of_nat k - a) < 8"
  shows "a' = a \<and> unat (a' + word_of_nat k - a) = k"
proof -
  define d where "d = a' - a"
  have "8 dvd unat d"
  proof -
    obtain k l where kl: "unat a' = 8 * k" "unat a = 8 * l"
      using assms(1,2) by (auto simp: mod_8_unat elim!: dvdE)
    have "uint d mod 8 = (int (unat a') - int (unat a)) mod 2 ^ 64 mod 8"
      by (simp add: d_def uint_word_ariths)
    also have "\<dots> = (int (unat a') - int (unat a)) mod 8"
      by (rule mod_mod_cancel) (simp add: dvd_def)
    also have "\<dots> = (8 * (int k - int l)) mod 8" by (simp add: kl right_diff_distrib)
    also have "\<dots> = 0" by (rule mod_mult_self1_is_0)
    finally have "int (unat d) mod 8 = 0" by simp
    then show ?thesis by presburger
  qed
  have le: "unat d \<le> 2 ^ 64 - 8" 
  proof -
    have "unat d < 2 ^ 64" by (rule order_less_le_trans [OF unsigned_less]) simp
    moreover obtain k where "unat d = 8 * k" using \<open>8 dvd unat d\<close> by (elim dvdE)
    ultimately show ?thesis by simp
  qed
  have "unat (d + word_of_nat k) = unat d + k"
    using le assms(3) by (simp add: unat_word_ariths unat_of_nat take_bit_nat_eq_self)
  moreover have sh: "a' + word_of_nat k - a = d + word_of_nat k" by (simp add: d_def)
  ultimately have "unat d + k < 8" using assms(4) unfolding sh by simp
  then have "unat d = 0" using \<open>8 dvd unat d\<close> by (auto dest: dvd_imp_le)
  then have "d = 0" by (simp add: unat_eq_0)
  then have "a' = a" by (simp add: d_def)
  then show ?thesis using \<open>unat (d + word_of_nat k) = unat d + k\<close> \<open>unat d = 0\<close> unfolding sh by simp
qed

lemma mem_d_read_write:
  assumes "mem_d_write a v bytes = Inr bytes'" and "a' mod 8 = 0"
  shows "mem_d_read bytes' a' = (if a' = a then Inr v else mem_d_read bytes a')"
proof -
  have al: "a mod 8 = 0" and b': "bytes' x = (if unat (x - a) < 8 then ucast (drop_bit (8 * unat (x - a)) v) else bytes x)" for x
    using assms(1) fold_bytes [of 8 a "\<lambda>b. ucast (drop_bit (8 * b) v)" bytes x]
    by (auto simp: mem_d_write_def split: if_splits)
  show ?thesis
  proof (cases "a' = a")
    case True
    have "word_rcat (map (\<lambda>b. bytes' (a' + word_of_nat (7 - b))) [0..<8]) = v"
    proof (rule bit_eqI)
      fix n
      assume "possible_bit TYPE(quad) n"
      then have n: "n < 64" by simp
      have k: "unat (word_of_nat (n div 8) :: addr) = n div 8"
        using n by (simp add: unat_of_nat take_bit_nat_eq_self)
      have "n div 8 < 8" using n by simp
      moreover have "bit (ucast (drop_bit (8 * (n div 8)) v) :: byte) (n mod 8) = bit v n"
        by (simp add: bit_simps)
      ultimately show "bit (word_rcat (map (\<lambda>b. bytes' (a' + word_of_nat (7 - b))) [0..<8]) :: quad) n = bit v n"
        using n k True bit_word_of_bytes_low [OF n, of "\<lambda>k. bytes' (a' + word_of_nat k)"] by (simp add: b')
    qed
    then show ?thesis using True assms(2) by (simp add: mem_d_read_bytes)
  next
    case False
    have "bytes' (a' + word_of_nat k) = bytes (a' + word_of_nat k)" if "k < 8" for k
      using aligned_offset [OF al assms(2) that] False by (auto simp: b')
    then have "map (\<lambda>b. bytes' (a' + word_of_nat (7 - b))) [0..<8] = map (\<lambda>b. bytes (a' + word_of_nat (7 - b))) [0..<8]"
      by (intro map_cong refl) (rule \<open>\<And>k. k < 8 \<Longrightarrow> bytes' (a' + word_of_nat k) = bytes (a' + word_of_nat k)\<close>, simp)
    then show ?thesis using False by (simp only: mem_d_read_bytes if_False)
  qed
qed

subsection \<open>Residency and latency\<close>

definition resident :: "addr \<Rightarrow> cache \<Rightarrow> bool" where
  "resident a c \<longleftrightarrow> a \<in> fst ` set (entries c)"

lemma get_resident: "fst (lru_get a b c) \<noteq> None \<longleftrightarrow> resident a c"
  by (simp add: lru_get_result resident_def map_of_eq_None_iff)

lemma lru_get_cases:
  obtains v c' where "resident a c" "lru_get a b c = (Some v, c')"
  | "\<not> resident a c" "lru_get a b c = (None, c)"
proof (cases "map_of (entries c) a")
  case None
  then have "\<not> resident a c" by (simp add: resident_def map_of_eq_None_iff)
  moreover have "lru_get a b c = (None, c)" using None by (simp add: lru_get_def)
  ultimately show ?thesis by (rule that(2))
next
  case (Some v)
  then have "resident a c" by (force simp: resident_def dest: map_of_SomeD)
  moreover have "lru_get a b c = (Some v, snd (lru_get a b c))" using Some by (simp add: lru_get_def)
  ultimately show ?thesis by (rule that(1))
qed

lemma resident_put [simp]: "resident a (snd (lru_put n a v c))"
  by (auto simp: resident_def lru_put_def Let_def split: prod.split)

lemma resident_assign [simp]: "resident b (lru_assign a v c) = resident b c"
  using keys_assign [of a v c] by (metis resident_def list.set_map)

lemma resident_get:
  assumes "lru_get a p c = (r, c')"
  shows "resident b c' = resident b c"
proof (cases "map_of (entries c) a")
  case None
  then show ?thesis using assms by (simp add: lru_get_def)
next
  case (Some v)
  then have "a \<in> set (map fst (entries c))" by (force dest: map_of_SomeD)
  moreover have "c' = c \<or> entries c' = filter (\<lambda>e. fst e \<noteq> a) (entries c) @ [(a, v)]"
    using assms Some by (auto simp: lru_get_def)
  ultimately show ?thesis
    by (auto simp: resident_def simp flip: set_map simp: set_map_fst_filter simp del: set_map)
qed

lemma lru_put_victim:
  assumes "lru_inv c"
  shows "fst (lru_put n a v c) = (if length (entries c) = capacity c then hd (entries c) else n)"
  using assms by (auto simp: lru_put_def Let_def lru_inv_def split: list.splits)

lemma i_latency_levels:
  "fst (i_latency a m) = (if resident a (L1i m) then 2 else if resident a (L2 m) then 11 else 111)"
  by (rule lru_get_cases [of a "L1i m" True]; rule lru_get_cases [of a "L2 m" True])
    (simp_all add: i_latency_def)

subsection \<open>Requests and answers\<close>

definition outstanding :: "response bucket \<Rightarrow> (addr \<Rightarrow> cint list option) \<Rightarrow> response \<Rightarrow> nat" where
  "outstanding q w r = count (image_mset snd (mset q)) r +
     (case w (snd r) of None \<Rightarrow> 0 | Some ts \<Rightarrow> count (mset ts) (fst r))"

lemma mset_release: "image_mset snd (mset (release now a w q)) =
    image_mset snd (mset q) + (case w of None \<Rightarrow> {#} | Some ts \<Rightarrow> image_mset (\<lambda>t. (t, a)) (mset ts))"
proof (cases w)
  case (Some ts)
  have "image_mset snd (mset (fold (\<lambda>t q. bucket_add now (t, a) 0 q) ts q)) =
      image_mset snd (mset q) + image_mset (\<lambda>t. (t, a)) (mset ts)"
    by (induction ts arbitrary: q) (simp_all add: bucket_add_def)
  then show ?thesis using Some by (simp add: release_def)
qed (simp add: release_def)

lemma count_pairs: "count (image_mset (\<lambda>t. (t, a)) (mset ts)) r = (if snd r = a then count (mset ts) (fst r) else 0)"
  by (induction ts) (auto simp: prod_eq_iff)

lemma outstanding_release:
  "outstanding (release now a (w a) q) (w(a := None)) r = outstanding q w r"
  by (auto simp: outstanding_def mset_release count_pairs split: option.split)

lemma outstanding_get:
  assumes "tie_break pick" and "bucket_get pick now q = (Some x, q')"
  shows "outstanding q w r = outstanding q' w r + (if r = x then 1 else 0)"
proof -
  from tie_break.get_Some [OF assms] obtain t where "mset q = add_mset (t, x) (mset q')" by blast
  then have "image_mset snd (mset q) = add_mset x (image_mset snd (mset q'))" by simp
  then show ?thesis by (simp add: outstanding_def)
qed

lemma outstanding_new:
  assumes "w a = None"
  shows "outstanding (bucket_add now (tag, a) d q) (w(a := Some [])) r =
    outstanding q w r + (if r = (tag, a) then 1 else 0)"
  using assms by (auto simp: outstanding_def bucket_add_def)

lemma outstanding_queue:
  assumes "w a = Some ts"
  shows "outstanding q (w(a := Some (ts @ [tag]))) r =
    outstanding q w r + (if r = (tag, a) then 1 else 0)"
  using assms by (cases r) (auto simp: outstanding_def)

abbreviation "i_out m \<equiv> outstanding (i_resp m) (i_mshr m)"
abbreviation "d_out m \<equiv> outstanding (d_resp m) (d_mshr m)"


lemma latency_frame:
  "\<exists>c1 c2. snd (i_latency a m) = m\<lparr>L1i := c1, L2 := c2\<rparr>"
  "\<exists>c1 c2. snd (d_latency op a m) = m\<lparr>L1d := c1, L2 := c2\<rparr>"
proof -
  obtain r1 c1 where g1: "lru_get a True (L1i m) = (r1, c1)" by (cases "lru_get a True (L1i m)")
  obtain r2 c2 where g2: "lru_get a True (L2 m) = (r2, c2)" by (cases "lru_get a True (L2 m)")
  have "snd (i_latency a m) = m\<lparr>L1i := c1\<rparr> \<or>
      snd (i_latency a m) = m\<lparr>L1i := snd (lru_put no_victim a CLEAN c1), L2 := c2\<rparr> \<or>
      snd (i_latency a m) = m\<lparr>L1i := snd (lru_put no_victim a CLEAN c1), L2 := snd (lru_put no_victim a CLEAN c2)\<rparr>"
    by (simp add: i_latency_def g1 g2 Let_def split: option.split)
  moreover have "m\<lparr>L1i := c1\<rparr> = m\<lparr>L1i := c1, L2 := L2 m\<rparr>" by simp
  ultimately show "\<exists>c1 c2. snd (i_latency a m) = m\<lparr>L1i := c1, L2 := c2\<rparr>" by metis
next
  obtain r1 c1 where g1: "lru_get a True (L1d m) = (r1, c1)" by (cases "lru_get a True (L1d m)")
  define k where "k = (if op = READ then CLEAN else DIRTY)"
  obtain victim c2 where p: "lru_put no_victim a k c1 = (victim, c2)" by (cases "lru_put no_victim a k c1")
  obtain c3 where v: "d_victim a victim (m\<lparr>L1d := c2\<rparr>) = m\<lparr>L1d := c2, L2 := c3\<rparr>"
  proof
    show "d_victim a victim (m\<lparr>L1d := c2\<rparr>) = m\<lparr>L1d := c2, L2 := L2 (d_victim a victim (m\<lparr>L1d := c2\<rparr>))\<rparr>"
      by (simp add: d_victim_def split: prod.split option.split)
  qed
  obtain r3 c4 where g3: "lru_get a True c3 = (r3, c4)" by (cases "lru_get a True c3")
  have "snd (d_latency op a m) = m\<lparr>L1d := if op = WRITE then lru_assign a DIRTY c1 else c1, L2 := L2 m\<rparr> \<or>
      snd (d_latency op a m) = m\<lparr>L1d := c2, L2 := c4\<rparr> \<or>
      snd (d_latency op a m) = m\<lparr>L1d := c2, L2 := snd (lru_put no_victim a CLEAN c4)\<rparr>"
    unfolding d_latency_def g1 k_def [symmetric] p prod.case Let_def v
    by (cases r1; cases r3) (simp_all add: g3)
  then show "\<exists>c1 c2. snd (d_latency op a m) = m\<lparr>L1d := c1, L2 := c2\<rparr>" by metis
qed

lemma i_answer_step:
  assumes "tie_break pick" and "mem_i_answer pick now m = Inr m'"
  shows "d_resp m' = d_resp m \<and> d_mshr m' = d_mshr m \<and> mem m' = mem m \<and>
    L1i m' = L1i m \<and> L1d m' = L1d m \<and> L2 m' = L2 m \<and>
    (\<exists>a. (\<forall>r. i_out m r = i_out m' r + (if mi_ready m' \<and> r = (mi_tagout m', a) then 1 else 0)) \<and>
         (mi_ready m' \<longrightarrow> mem_i_read (mem m) a = Inr (mi_data m')))"
proof (cases "fst (bucket_get pick now (i_resp m))")
  case None
  then have "m' = m\<lparr>mi_ready := False\<rparr>" using assms(2)
    by (simp add: mem_i_answer_def split: prod.splits option.splits)
  then show ?thesis by simp
next
  case (Some x)
  then obtain tag a q where g: "bucket_get pick now (i_resp m) = (Some (tag, a), q)"
    by (metis prod.collapse)
  then obtain v where v: "mem_i_read (mem m) a = Inr v" and
    m': "m' = m\<lparr>mi_ready := True, mi_tagout := tag, mi_data := v,
          i_resp := release now a (i_mshr m a) q, i_mshr := (i_mshr m)(a := None)\<rparr>"
    using assms(2) by (auto simp: mem_i_answer_def split: sum.splits)
  then show ?thesis using outstanding_get [OF assms(1) g, of "i_mshr m"]
    by (auto simp: outstanding_release)
qed

lemma d_answer_step:
  assumes "tie_break pick" and "mem_d_answer pick now m = Inr m'"
  shows "i_resp m' = i_resp m \<and> i_mshr m' = i_mshr m \<and> mem m' = mem m \<and>
    L1i m' = L1i m \<and> L1d m' = L1d m \<and> L2 m' = L2 m \<and>
    mi_ready m' = mi_ready m \<and> mi_tagout m' = mi_tagout m \<and> mi_data m' = mi_data m \<and>
    (\<exists>a. (\<forall>r. d_out m r = d_out m' r + (if md_ready m' \<and> r = (md_tagout m', a) then 1 else 0)) \<and>
         (md_ready m' \<longrightarrow> mem_d_read (mem m) a = Inr (md_data m')))"
proof (cases "fst (bucket_get pick now (d_resp m))")
  case None
  then have "m' = m\<lparr>md_ready := False\<rparr>" using assms(2)
    by (simp add: mem_d_answer_def split: prod.splits option.splits)
  then show ?thesis by simp
next
  case (Some x)
  then obtain tag a q where g: "bucket_get pick now (d_resp m) = (Some (tag, a), q)"
    by (metis prod.collapse)
  then obtain v where v: "mem_d_read (mem m) a = Inr v" and
    m': "m' = m\<lparr>md_ready := True, md_tagout := tag, md_data := v,
          d_resp := release now a (d_mshr m a) q, d_mshr := (d_mshr m)(a := None)\<rparr>"
    using assms(2) by (auto simp: mem_d_answer_def split: sum.splits)
  then show ?thesis using outstanding_get [OF assms(1) g, of "d_mshr m"]
    by (auto simp: outstanding_release)
qed

lemma i_request_step:
  assumes "mem_i_request now i m = Inr m'"
  shows "d_resp m' = d_resp m \<and> d_mshr m' = d_mshr m \<and> mem m' = mem m \<and>
    mi_ready m' = mi_ready m \<and> mi_tagout m' = mi_tagout m \<and> mi_data m' = mi_data m \<and>
    md_ready m' = md_ready m \<and> md_tagout m' = md_tagout m \<and> md_data m' = md_data m \<and>
    i_out m' r = i_out m r + (if mi_op i \<noteq> NONE \<and> r = (mi_tagin i, mi_addr i) then 1 else 0)"
proof (cases "mi_op i = NONE")
  case True
  then show ?thesis using assms by (simp add: mem_i_request_def)
next
  case op: False
  show ?thesis
  proof (cases "i_mshr m (mi_addr i)")
    case None
    obtain c1 c2 where fr: "snd (i_latency (mi_addr i) m) = m\<lparr>L1i := c1, L2 := c2\<rparr>"
      using latency_frame(1) by blast
    have "m' = m\<lparr>L1i := c1, L2 := c2,
        i_resp := bucket_add now (mi_tagin i, mi_addr i) (fst (i_latency (mi_addr i) m) * 1000) (i_resp m),
        i_mshr := (i_mshr m)(mi_addr i := Some [])\<rparr>"
      using assms op None fr by (cases "i_latency (mi_addr i) m") (auto simp: mem_i_request_def split: if_splits)
    then show ?thesis using op outstanding_new [of "i_mshr m", OF None] by simp
  next
    case (Some ts)
    then have "m' = m\<lparr>i_mshr := (i_mshr m)(mi_addr i := Some (ts @ [mi_tagin i]))\<rparr>"
      using assms op by (auto simp: mem_i_request_def split: if_splits)
    then show ?thesis using op outstanding_queue [of "i_mshr m", OF Some] by simp
  qed
qed

lemma d_request_step:
  assumes "mem_d_request now i m = Inr m'"
  shows "i_resp m' = i_resp m \<and> i_mshr m' = i_mshr m \<and> L1i m' = L1i m \<and>
    mi_ready m' = mi_ready m \<and> mi_tagout m' = mi_tagout m \<and> mi_data m' = mi_data m \<and>
    md_ready m' = md_ready m \<and> md_tagout m' = md_tagout m \<and> md_data m' = md_data m \<and>
    d_out m' r = d_out m r + (if md_op i \<noteq> NONE \<and> r = (md_tagin i, md_addr i) then 1 else 0) \<and>
    (if md_op i = WRITE then mem_d_write (md_addr i) (md_din i) (mem m) = Inr (mem m') else mem m' = mem m)"
proof (cases "md_op i = NONE")
  case True
  then show ?thesis using assms by (simp add: mem_d_request_def)
next
  case op: False
  obtain bytes where b: "(if md_op i = WRITE then mem_d_write (md_addr i) (md_din i) (mem m) else Inr (mem m)) = Inr bytes"
    using assms op by (simp add: mem_d_request_def split: if_split_asm sum.splits)
  let ?m = "m\<lparr>mem := bytes\<rparr>"
  have written: "if md_op i = WRITE then mem_d_write (md_addr i) (md_din i) (mem m) = Inr bytes else bytes = mem m"
    using b by (simp split: if_splits)
  show ?thesis
  proof (cases "d_mshr m (md_addr i)")
    case None
    obtain c1 c2 where fr: "snd (d_latency (md_op i) (md_addr i) ?m) = ?m\<lparr>L1d := c1, L2 := c2\<rparr>"
      using latency_frame(2) by blast
    have "m' = ?m\<lparr>L1d := c1, L2 := c2,
        d_resp := bucket_add now (md_tagin i, md_addr i) (fst (d_latency (md_op i) (md_addr i) ?m) * 1000) (d_resp m),
        d_mshr := (d_mshr m)(md_addr i := Some [])\<rparr>"
      using assms op None fr
      by (cases "d_latency (md_op i) (md_addr i) ?m")
        (simp add: mem_d_request_def b Let_def split: if_split_asm)
    then show ?thesis using op outstanding_new [of "d_mshr m", OF None] written by simp
  next
    case (Some ts)
    then have "m' = ?m\<lparr>d_mshr := (d_mshr m)(md_addr i := Some (ts @ [md_tagin i]))\<rparr>"
      using assms op by (simp add: mem_d_request_def b Let_def split: if_split_asm)
    then show ?thesis using op outstanding_queue [of "d_mshr m", OF Some] written by simp
  qed
qed

subsection \<open>The invariant of the memory\<close>

text \<open>
  The caches are well formed, every address with queued tags has an answer on its way, and no answer
  is further away than the largest latency.
\<close>

definition waiting_ok :: "response bucket \<Rightarrow> (addr \<Rightarrow> cint list option) \<Rightarrow> bool" where
  "waiting_ok q w \<longleftrightarrow> (\<forall>a. w a \<noteq> None \<longrightarrow> (\<exists>t tag. (t, (tag, a)) \<in> set q))"

definition on_time :: "nat \<Rightarrow> 'a bucket \<Rightarrow> bool" where
  "on_time now q \<longleftrightarrow> (\<forall>e \<in> set q. fst e \<le> now + 112000)"

definition mem_inv :: "nat \<Rightarrow> memory \<Rightarrow> bool" where
  "mem_inv now m \<longleftrightarrow> lru_inv (L1i m) \<and> lru_inv (L1d m) \<and> lru_inv (L2 m) \<and>
     waiting_ok (i_resp m) (i_mshr m) \<and> waiting_ok (d_resp m) (d_mshr m) \<and>
     on_time now (i_resp m) \<and> on_time now (d_resp m)"

lemma set_release: "set (release now a w q) =
    set q \<union> (case w of None \<Rightarrow> {} | Some ts \<Rightarrow> (\<lambda>t. (now, (t, a))) ` set ts)"
proof (cases w)
  case (Some ts)
  have "set (fold (\<lambda>t q. bucket_add now (t, a) 0 q) ts q) = set q \<union> (\<lambda>t. (now, (t, a))) ` set ts"
    by (induction ts arbitrary: q) (auto simp: bucket_add_def)
  then show ?thesis using Some by (simp add: release_def)
qed (simp add: release_def)

lemma set_bucket_add [simp]: "set (bucket_add now v d q) = insert (now + d, v) (set q)"
  by (auto simp: bucket_add_def)

lemma get_keeps_others:
  assumes "tie_break pick" and "bucket_get pick now q = (Some x, q')" and "(t, y) \<in> set q" and "y \<noteq> x"
  shows "(t, y) \<in> set q'"
proof -
  obtain s where "mset q = add_mset (s, x) (mset q')" using tie_break.get_Some [OF assms(1,2)] by blast
  then have "set q = insert (s, x) (set q')" by (metis set_mset_add_mset_insert set_mset_mset)
  with assms(3,4) show ?thesis by auto
qed

lemma get_subset:
  assumes "tie_break pick" and "bucket_get pick now q = (Some x, q')"
  shows "set q' \<subseteq> set q"
proof -
  obtain s where "mset q = add_mset (s, x) (mset q')" using tie_break.get_Some [OF assms] by blast
  then show ?thesis by (metis set_mset_add_mset_insert set_mset_mset subset_insertI)
qed

lemma answer_queues_ok:
  assumes "tie_break pick" and "bucket_get pick now q = (Some (tag, a), q')"
    and "waiting_ok q w" and "on_time now q"
  shows "waiting_ok (release now a (w a) q') (w(a := None)) \<and> on_time now (release now a (w a) q')"
proof
  show "waiting_ok (release now a (w a) q') (w(a := None))"
    unfolding waiting_ok_def
  proof (intro allI impI)
    fix b assume "(w(a := None)) b \<noteq> None"
    then have "b \<noteq> a" "w b \<noteq> None" by (auto split: if_splits)
    then obtain t tag' where "(t, (tag', b)) \<in> set q" using assms(3) by (auto simp: waiting_ok_def)
    then have "(t, (tag', b)) \<in> set q'" using get_keeps_others [OF assms(1,2)] \<open>b \<noteq> a\<close> by blast
    then show "\<exists>t tag. (t, (tag, b)) \<in> set (release now a (w a) q')" by (auto simp: set_release)
  qed
  show "on_time now (release now a (w a) q')"
    using get_subset [OF assms(1,2)] assms(4) by (auto simp: on_time_def set_release split: option.split)
qed

lemma i_answer_inv:
  assumes "tie_break pick" and "mem_inv now m" and "mem_i_answer pick now m = Inr m'"
  shows "mem_inv now m'"
proof (cases "fst (bucket_get pick now (i_resp m))")
  case None
  then have "m' = m\<lparr>mi_ready := False\<rparr>" using assms(3)
    by (simp add: mem_i_answer_def split: prod.splits option.splits)
  then show ?thesis using assms(2) by (simp add: mem_inv_def)
next
  case (Some x)
  then obtain tag a q where g: "bucket_get pick now (i_resp m) = (Some (tag, a), q)"
    by (metis prod.collapse)
  then obtain v where
    m': "m' = m\<lparr>mi_ready := True, mi_tagout := tag, mi_data := v,
          i_resp := release now a (i_mshr m a) q, i_mshr := (i_mshr m)(a := None)\<rparr>"
    using assms(3) by (auto simp: mem_i_answer_def split: sum.splits)
  show ?thesis using answer_queues_ok [OF assms(1) g, of "i_mshr m"] assms(2)
    by (simp add: m' mem_inv_def)
qed

lemma d_answer_inv:
  assumes "tie_break pick" and "mem_inv now m" and "mem_d_answer pick now m = Inr m'"
  shows "mem_inv now m'"
proof (cases "fst (bucket_get pick now (d_resp m))")
  case None
  then have "m' = m\<lparr>md_ready := False\<rparr>" using assms(3)
    by (simp add: mem_d_answer_def split: prod.splits option.splits)
  then show ?thesis using assms(2) by (simp add: mem_inv_def)
next
  case (Some x)
  then obtain tag a q where g: "bucket_get pick now (d_resp m) = (Some (tag, a), q)"
    by (metis prod.collapse)
  then obtain v where
    m': "m' = m\<lparr>md_ready := True, md_tagout := tag, md_data := v,
          d_resp := release now a (d_mshr m a) q, d_mshr := (d_mshr m)(a := None)\<rparr>"
    using assms(3) by (auto simp: mem_d_answer_def split: sum.splits)
  show ?thesis using answer_queues_ok [OF assms(1) g, of "d_mshr m"] assms(2)
    by (simp add: m' mem_inv_def)
qed

lemma lru_inv_put_fst: "lru_put n a v c = (x, c') \<Longrightarrow> lru_inv c \<Longrightarrow> lru_inv c'"
  using lru_inv_put [of c n a v] by simp

lemma lru_inv_get_fst: "lru_get a p c = (r, c') \<Longrightarrow> lru_inv c \<Longrightarrow> lru_inv c'"
  using lru_inv_get [of c a p] by simp

lemma i_latency_lru:
  assumes "i_latency a m = (l, m')" and "lru_inv (L1i m)" "lru_inv (L1d m)" "lru_inv (L2 m)"
  shows "lru_inv (L1i m') \<and> lru_inv (L1d m') \<and> lru_inv (L2 m') \<and> l \<le> 112"
proof -
  obtain r1 c1 where g1: "lru_get a True (L1i m) = (r1, c1)" by (cases "lru_get a True (L1i m)")
  obtain r2 c2 where g2: "lru_get a True (L2 m) = (r2, c2)" by (cases "lru_get a True (L2 m)")
  have inv: "lru_inv c1" "lru_inv c2"
    using lru_inv_get_fst [OF g1 assms(2)] lru_inv_get_fst [OF g2 assms(4)] by simp_all
  show ?thesis using assms inv by (cases r1; cases r2) (auto simp: i_latency_def g1 g2)
qed

lemma d_victim_lru:
  assumes "lru_inv (L1d m)" "lru_inv (L2 m)"
  shows "lru_inv (L1d (d_victim a v m)) \<and> lru_inv (L2 (d_victim a v m))"
  using assms
  by (auto simp: d_victim_def split: prod.splits option.splits
      intro: lru_inv_put lru_inv_assign lru_inv_get_fst)


lemma d_latency_lru:
  assumes "lru_inv (L1i m)" "lru_inv (L1d m)" "lru_inv (L2 m)"
  shows "lru_inv (L1d (snd (d_latency op a m))) \<and> lru_inv (L2 (snd (d_latency op a m)))
    \<and> L1i (snd (d_latency op a m)) = L1i m \<and> fst (d_latency op a m) \<le> 112"
proof -
  define k where "k = (if op = READ then CLEAN else DIRTY)"
  obtain r1 c1 where g1: "lru_get a True (L1d m) = (r1, c1)" by (cases "lru_get a True (L1d m)")
  obtain victim c2 where p: "lru_put no_victim a k c1 = (victim, c2)" by (cases "lru_put no_victim a k c1")
  have i1: "lru_inv c1" by (rule lru_inv_get_fst [OF g1 assms(2)])
  have i2: "lru_inv c2" by (rule lru_inv_put_fst [OF p i1])
  define m1 where "m1 = d_victim a victim (m\<lparr>L1d := c2\<rparr>)"
  have m1: "lru_inv (L1d m1)" "lru_inv (L2 m1)" "L1i m1 = L1i m"
    using d_victim_lru [of "m\<lparr>L1d := c2\<rparr>" a victim] i2 assms(3)
    by (simp_all add: m1_def d_victim_def split: prod.split option.split)
  obtain r3 c4 where g3: "lru_get a True (L2 m1) = (r3, c4)" by (cases "lru_get a True (L2 m1)")
  have i4: "lru_inv c4" by (rule lru_inv_get_fst [OF g3 m1(2)])
  show ?thesis
    unfolding d_latency_def g1 k_def [symmetric] p prod.case Let_def m1_def [symmetric]
    using i1 i4 m1 assms by (cases r1; cases r3) (auto simp: g3)
qed

lemma request_queues_ok:
  assumes "waiting_ok q w" and "on_time now q" and "l \<le> 112"
  shows "waiting_ok (bucket_add now (tag, a) (l * 1000) q) (w(a := Some []))
    \<and> on_time now (bucket_add now (tag, a) (l * 1000) q)"
  using assms by (auto simp: waiting_ok_def on_time_def)

lemma waiting_queue_ok:
  "waiting_ok q w \<Longrightarrow> w a = Some ts \<Longrightarrow> waiting_ok q (w(a := Some ts'))"
  by (auto simp: waiting_ok_def)

lemma i_request_inv:
  assumes "mem_inv now m" and "mem_i_request now i m = Inr m'"
  shows "mem_inv now m'"
proof (cases "mi_op i = NONE \<or> i_mshr m (mi_addr i) \<noteq> None")
  case True
  then show ?thesis using assms
    by (auto simp: mem_i_request_def mem_inv_def intro: waiting_queue_ok split: if_splits option.splits)
next
  case False
  obtain l m1 where lat: "i_latency (mi_addr i) m = (l, m1)" by (cases "i_latency (mi_addr i) m")
  obtain c1 c2 where fr: "m1 = m\<lparr>L1i := c1, L2 := c2\<rparr>" using latency_frame(1) [of "mi_addr i" m] lat by auto
  have m': "m' = m1\<lparr>i_resp := bucket_add now (mi_tagin i, mi_addr i) (l * 1000) (i_resp m1),
        i_mshr := (i_mshr m1)(mi_addr i := Some [])\<rparr>"
    using assms(2) False lat by (auto simp: mem_i_request_def split: if_splits)
  show ?thesis using assms(1) i_latency_lru [OF lat] request_queues_ok [of "i_resp m" "i_mshr m" now l]
    by (simp add: mem_inv_def m' fr)
qed

lemma d_request_inv:
  assumes "mem_inv now m" and "mem_d_request now i m = Inr m'"
  shows "mem_inv now m'"
proof (cases "md_op i = NONE")
  case True
  then show ?thesis using assms by (simp add: mem_d_request_def)
next
  case op: False
  obtain bytes where b: "(if md_op i = WRITE then mem_d_write (md_addr i) (md_din i) (mem m) else Inr (mem m)) = Inr bytes"
    using assms op by (simp add: mem_d_request_def split: if_split_asm sum.splits)
  let ?m = "m\<lparr>mem := bytes\<rparr>"
  have inv: "mem_inv now ?m" using assms(1) by (simp add: mem_inv_def)
  show ?thesis
  proof (cases "d_mshr m (md_addr i)")
    case None
    obtain l m1 where lat: "d_latency (md_op i) (md_addr i) ?m = (l, m1)"
      by (cases "d_latency (md_op i) (md_addr i) ?m")
    obtain c1 c2 where fr: "m1 = ?m\<lparr>L1d := c1, L2 := c2\<rparr>"
      using latency_frame(2) [of "md_op i" "md_addr i" ?m] lat by auto
    have m': "m' = m1\<lparr>d_resp := bucket_add now (md_tagin i, md_addr i) (l * 1000) (d_resp m1),
        d_mshr := (d_mshr m1)(md_addr i := Some [])\<rparr>"
      using assms op None lat fr by (simp add: mem_d_request_def b Let_def split: if_split_asm)
    show ?thesis
      using inv d_latency_lru [of ?m "md_op i" "md_addr i"] request_queues_ok [of "d_resp m" "d_mshr m" now l]
      by (simp add: mem_inv_def m' fr lat)
  next
    case (Some ts)
    then have "m' = ?m\<lparr>d_mshr := (d_mshr m)(md_addr i := Some (ts @ [md_tagin i]))\<rparr>"
      using assms op by (simp add: mem_d_request_def b Let_def split: if_split_asm)
    then show ?thesis using inv waiting_queue_ok [of "d_resp m" "d_mshr m", OF _ Some]
      by (simp add: mem_inv_def)
  qed
qed

subsection \<open>Progress\<close>

lemma due_by_release: "t < now \<Longrightarrow> due_by t (release now a w q) = due_by t q"
proof (cases w)
  case (Some ts)
  assume "t < now"
  then have "due_by t (fold (\<lambda>u q. bucket_add now (u, a) 0 q) ts q) = due_by t q"
    by (induction ts arbitrary: q) simp_all
  then show ?thesis using Some by (simp add: release_def)
qed (simp add: release_def)

lemma d_request_due:
  assumes "mem_d_request now i m = Inr m'" and "t < now"
  shows "set (d_resp m) \<subseteq> set (d_resp m') \<and> due_by t (d_resp m') = due_by t (d_resp m)"
proof (cases "md_op i = NONE")
  case True
  then show ?thesis using assms by (simp add: mem_d_request_def)
next
  case op: False
  obtain bytes where b: "(if md_op i = WRITE then mem_d_write (md_addr i) (md_din i) (mem m) else Inr (mem m)) = Inr bytes"
    using assms op by (simp add: mem_d_request_def split: if_split_asm sum.splits)
  let ?m = "m\<lparr>mem := bytes\<rparr>"
  obtain l m1 where lat: "d_latency (md_op i) (md_addr i) ?m = (l, m1)"
    by (cases "d_latency (md_op i) (md_addr i) ?m")
  obtain c1 c2 where fr: "m1 = ?m\<lparr>L1d := c1, L2 := c2\<rparr>"
    using latency_frame(2) [of "md_op i" "md_addr i" ?m] lat by auto
  show ?thesis using assms op
    by (auto simp: mem_d_request_def b lat fr Let_def split: if_split_asm option.splits)
qed

lemma d_answer_progress:
  assumes "tie_break pick" and "mem_d_answer pick now m = Inr m'"
    and "(t, (tag, a)) \<in> set (d_resp m)" and "t < now"
  shows "(md_ready m' \<and> md_tagout m' = tag \<and> mem_d_read (mem m) a = Inr (md_data m')) \<or>
    (t, (tag, a)) \<in> set (d_resp m') \<and> due_by t (d_resp m) = Suc (due_by t (d_resp m'))"
proof (cases "fst (bucket_get pick now (d_resp m))")
  case None
  then have "now < t" using tie_break.get_None_iff [OF assms(1), of now "d_resp m"] assms(3) by force
  with assms(4) show ?thesis by simp
next
  case (Some x)
  then obtain tag' a' q where g: "bucket_get pick now (d_resp m) = (Some (tag', a'), q)"
    by (metis prod.collapse)
  then obtain v where v: "mem_d_read (mem m) a' = Inr v" and
    m': "m' = m\<lparr>md_ready := True, md_tagout := tag', md_data := v,
          d_resp := release now a' (d_mshr m a') q, d_mshr := (d_mshr m)(a' := None)\<rparr>"
    using assms(2) by (auto simp: mem_d_answer_def split: sum.splits)
  show ?thesis using tie_break.get_progress [OF assms(1,3) less_imp_le [OF assms(4)] g] v assms(4)
    by (auto simp: m' set_release due_by_release)
qed

fun mem_trace :: "(response bucket \<Rightarrow> nat) \<Rightarrow> nat \<Rightarrow> memory_in list \<Rightarrow> memory \<Rightarrow> fault + memory list" where
  "mem_trace pick now [] m = Inr []"
| "mem_trace pick now (i # is) m =
     and_then (mem_work pick now i m) (\<lambda>m'.
       and_then (mem_trace pick (now + 500) is m') (\<lambda>ms. Inr (m' # ms)))"

subsection \<open>Loading a program\<close>

text \<open>
  \<^verbatim>\<open>load_elf\<close>. The structures of \<^verbatim>\<open>elf.h\<close> are read from the file by layout; the fields that
  the function uses are arguments here: the entry point, the offset and the number of the program
  headers, and the headers themselves (the ten the local array holds). \<open>Load_exit\<close> is
  \<^verbatim>\<open>exit(-1)\<close>, \<open>Load_undefined\<close> a segment that runs outside the array without the test
  noticing: the sum is taken in 64 bits, and \<^verbatim>\<open>p_filesz\<close> is not tested at all.
\<close>

datatype load_fault = Load_assert | Load_exit | Load_undefined

record phdr =
  p_type :: "32 word"
  p_offset :: quad
  p_vaddr :: addr
  p_filesz :: quad
  p_memsz :: quad

definition PT_LOAD :: "32 word" where "PT_LOAD = 1"

definition PT_GNU_STACK :: "32 word" where "PT_GNU_STACK = 0x6474e551"

definition in_range :: "addr \<Rightarrow> quad \<Rightarrow> addr \<Rightarrow> bool" where
  "in_range lo n x \<longleftrightarrow> unat lo \<le> unat x \<and> unat x < unat lo + unat n"

definition load_segment :: "byte list \<Rightarrow> phdr \<Rightarrow> (addr \<Rightarrow> byte) \<Rightarrow> load_fault + (addr \<Rightarrow> byte)" where
  "load_segment file p bytes =
     (if p_type p = PT_LOAD
      then (if p_vaddr p + p_memsz p > mem_size then Inl Load_exit
            else if unat (p_vaddr p) + unat (p_memsz p) > unat mem_size then Inl Load_undefined
            else (let bytes = (\<lambda>x. if in_range (p_vaddr p) (p_memsz p) x then 0 else bytes x) in
              if sint (p_offset p) < 0 then Inl Load_assert
              else if length file < unat (p_offset p) + unat (p_filesz p) \<and> p_filesz p \<noteq> 0
              then Inl Load_assert
              else if unat (p_vaddr p) + unat (p_filesz p) > unat mem_size then Inl Load_undefined
              else Inr (\<lambda>x. if in_range (p_vaddr p) (p_filesz p) x
                            then file ! (unat (p_offset p) + (unat x - unat (p_vaddr p)))
                            else bytes x)))
      else if p_type p = PT_GNU_STACK then Inr bytes
      else Inl Load_exit)"

fun load_segments :: "byte list \<Rightarrow> phdr list \<Rightarrow> (addr \<Rightarrow> byte) \<Rightarrow> load_fault + (addr \<Rightarrow> byte)" where
  "load_segments file [] bytes = Inr bytes"
| "load_segments file (p # ps) bytes = and_then (load_segment file p bytes) (load_segments file ps)"

definition load_elf ::
  "byte list \<Rightarrow> addr \<Rightarrow> quad \<Rightarrow> nat \<Rightarrow> phdr list \<Rightarrow> (addr \<Rightarrow> byte) \<Rightarrow> load_fault + ((addr \<Rightarrow> byte) \<times> addr)" where
  "load_elf file e_entry e_phoff phnum phdrs bytes =
     (if \<not> phnum < 10 then Inl Load_assert
      else if sint e_phoff < 0 then Inl Load_assert
      else if length file < unat e_phoff + 10 * 56 then Inl Load_assert
      else and_then (load_segments file (take phnum phdrs) bytes) (\<lambda>bytes. Inr (bytes, e_entry)))"

text \<open>What one segment leaves at an address, and which addresses it touches.\<close>

definition covers :: "phdr \<Rightarrow> addr \<Rightarrow> bool" where
  "covers p x \<longleftrightarrow> p_type p = PT_LOAD \<and> (in_range (p_vaddr p) (p_memsz p) x \<or> in_range (p_vaddr p) (p_filesz p) x)"

definition segment_byte :: "byte list \<Rightarrow> phdr \<Rightarrow> addr \<Rightarrow> byte" where
  "segment_byte file p x =
     (let k = unat x - unat (p_vaddr p) in
      if k < unat (p_filesz p) then file ! (unat (p_offset p) + k) else 0)"

lemma load_segment_byte:
  assumes "load_segment file p bytes = Inr bytes'"
  shows "bytes' x = (if covers p x then segment_byte file p x else bytes x)"
  using assms
  by (auto simp: load_segment_def covers_def segment_byte_def in_range_def Let_def split: if_splits)

lemma load_segments_byte:
  assumes "load_segments file ps bytes = Inr bytes'"
  shows "bytes' x = (case filter (\<lambda>p. covers p x) (rev ps) of [] \<Rightarrow> bytes x | p # _ \<Rightarrow> segment_byte file p x)"
  using assms
proof (induction ps arbitrary: bytes)
  case Nil
  then show ?case by simp
next
  case (Cons p ps)
  then obtain b1 where b1: "load_segment file p bytes = Inr b1" and rest: "load_segments file ps b1 = Inr bytes'"
    by auto
  show ?case unfolding Cons.IH [OF rest] using load_segment_byte [OF b1, of x]
    by (cases "filter (\<lambda>p. covers p x) (rev ps)") auto
qed

definition sample_request :: memory_in where
  "sample_request = \<lparr>mm_reset = False, mi_op = NONE, mi_tagin = 0, mi_addr = 0,
     md_op = READ, md_tagin = 7, md_addr = 0x10000, md_din = 0\<rparr>"

definition sample_idle :: memory_in where
  "sample_idle = sample_request\<lparr>md_op := NONE\<rparr>"

definition sample_memory :: memory where
  "sample_memory = memory_new (\<lambda>_. 0)"

lemma sample_step: "mem_work pick_first 0 sample_request sample_memory =
   Inr (sample_memory\<lparr>L1d := \<lparr>capacity = 128, entries = [(0x10000, CLEAN)]\<rparr>,
     L2 := \<lparr>capacity = 1024, entries = [(0x10000, CLEAN)]\<rparr>,
     d_resp := [(112000, (7, 0x10000))], d_mshr := [0x10000 \<mapsto> []]\<rparr>)"
  by (simp add: mem_work_def mem_i_answer_def mem_d_answer_def mem_i_request_def mem_d_request_def
      and_then_def sample_memory_def sample_request_def memory_new_def bucket_get_def bucket_add_def
      d_latency_def d_victim_def lru_get_def lru_put_def lru_new_def no_victim_def mem_size_def)

subsection \<open>Properties\<close>

text \<open>C10: no request is lost and no answer is invented: counting for each port the requests by
  tag and address that wait in the bucket or in the table, a clock edge adds exactly the request on
  the port and removes exactly the answer it drives, whose datum is that of its address.\<close>

theorem mem_work_conserves:
  assumes "tie_break pick" and "\<not> mm_reset i" and "mem_work pick now i m = Inr m'"
  shows "\<exists>a b.
    (\<forall>r. i_out m' r + (if mi_ready m' \<and> r = (mi_tagout m', a) then 1 else 0) =
         i_out m r + (if mi_op i \<noteq> NONE \<and> r = (mi_tagin i, mi_addr i) then 1 else 0)) \<and>
    (\<forall>r. d_out m' r + (if md_ready m' \<and> r = (md_tagout m', b) then 1 else 0) =
         d_out m r + (if md_op i \<noteq> NONE \<and> r = (md_tagin i, md_addr i) then 1 else 0)) \<and>
    (mi_ready m' \<longrightarrow> mem_i_read (mem m) a = Inr (mi_data m')) \<and>
    (md_ready m' \<longrightarrow> mem_d_read (mem m) b = Inr (md_data m'))"
proof -
  obtain m1 m2 m3 where steps: "mem_i_answer pick now m = Inr m1" "mem_d_answer pick now m1 = Inr m2"
    "mem_i_request now i m2 = Inr m3" "mem_d_request now i m3 = Inr m'"
    using assms(2,3) by (auto simp: mem_work_def)
  note s1 = i_answer_step [OF assms(1) steps(1)] and s2 = d_answer_step [OF assms(1) steps(2)]
  note s3 = i_request_step [OF steps(3)] and s4 = d_request_step [OF steps(4)]
  from s1 obtain a where a: "\<And>r. i_out m r = i_out m1 r + (if mi_ready m1 \<and> r = (mi_tagout m1, a) then 1 else 0)"
    "mi_ready m1 \<longrightarrow> mem_i_read (mem m) a = Inr (mi_data m1)" by blast
  from s2 obtain b where b: "\<And>r. d_out m1 r = d_out m2 r + (if md_ready m2 \<and> r = (md_tagout m2, b) then 1 else 0)"
    "md_ready m2 \<longrightarrow> mem_d_read (mem m1) b = Inr (md_data m2)" by blast
  show ?thesis
  proof (intro exI conjI allI)
    show "i_out m' r + (if mi_ready m' \<and> r = (mi_tagout m', a) then 1 else 0) =
         i_out m r + (if mi_op i \<noteq> NONE \<and> r = (mi_tagin i, mi_addr i) then 1 else 0)" for r
      using a(1) [of r] s2 s3 [of r] s4 [of r] by simp
    show "d_out m' r + (if md_ready m' \<and> r = (md_tagout m', b) then 1 else 0) =
         d_out m r + (if md_op i \<noteq> NONE \<and> r = (md_tagin i, md_addr i) then 1 else 0)" for r
      using b(1) [of r] s1 s3 [of r] s4 [of r] by simp
  qed (use a(2) b(2) s1 s2 s3 s4 in simp_all)
qed

theorem mem_work_conserves_witness:
  "\<exists>m'. mem_work pick_first 0 sample_request sample_memory = Inr m' \<and> d_out m' (7, 0x10000) = 1"
proof (intro exI conjI)
  show step: "mem_work pick_first 0 sample_request sample_memory =
   Inr (sample_memory\<lparr>L1d := \<lparr>capacity = 128, entries = [(0x10000, CLEAN)]\<rparr>,
     L2 := \<lparr>capacity = 1024, entries = [(0x10000, CLEAN)]\<rparr>,
     d_resp := [(112000, (7, 0x10000))], d_mshr := [0x10000 \<mapsto> []]\<rparr>)" (is "_ = Inr ?m'")
    by (rule sample_step)
  have "\<not> mm_reset sample_request" by (simp add: sample_request_def)
  from mem_work_conserves [OF tie_break_first this step]
  obtain b where "\<And>r. d_out ?m' r + (if md_ready ?m' \<and> r = (md_tagout ?m', b) then 1 else 0) =
      d_out sample_memory r + (if md_op sample_request \<noteq> NONE \<and> r = (md_tagin sample_request, md_addr sample_request) then 1 else 0)"
    by blast
  from this [of "(7, 0x10000)"] show "d_out ?m' (7, 0x10000) = 1"
    by (simp add: sample_memory_def memory_new_def sample_request_def outstanding_def)
qed

text \<open>C21: once its time has passed an outstanding data request is answered within as many clock
  edges as there are requests with times up to its own, whatever is requested meanwhile.\<close>

theorem mem_answers:
  assumes "tie_break pick" and "(t, (tag, a)) \<in> set (d_resp m)" and "t < now"
    and "\<forall>i \<in> set is. \<not> mm_reset i" and "mem_trace pick now is m = Inr ms"
    and "due_by t (d_resp m) \<le> length is"
  shows "\<exists>k < due_by t (d_resp m). md_ready (ms ! k) \<and> md_tagout (ms ! k) = tag \<and>
    (\<exists>bytes. mem_d_read bytes a = Inr (md_data (ms ! k)))"
  using assms(2-)
proof (induction "is" arbitrary: m now ms)
  case Nil
  then have "(t, (tag, a)) \<in> set (filter (\<lambda>e. fst e \<le> t) (d_resp m))" by simp
  with Nil show ?case by (auto simp: due_by_def)
next
  case (Cons i "is")
  obtain m' ms' where w: "mem_work pick now i m = Inr m'" and tr: "mem_trace pick (now + 500) is m' = Inr ms'"
    and ms: "ms = m' # ms'" using Cons.prems(4) by auto
  obtain m1 m2 m3 where steps: "mem_i_answer pick now m = Inr m1" "mem_d_answer pick now m1 = Inr m2"
    "mem_i_request now i m2 = Inr m3" "mem_d_request now i m3 = Inr m'"
    using w Cons.prems(3) by (auto simp: mem_work_def)
  have d1: "d_resp m1 = d_resp m" using i_answer_step [OF assms(1) steps(1)] by simp
  have d3: "d_resp m3 = d_resp m2" using i_request_step [OF steps(3)] by simp
  note d4 = d_request_due [OF steps(4) Cons.prems(2)]
  have ports: "md_ready m' = md_ready m2" "md_tagout m' = md_tagout m2" "md_data m' = md_data m2"
    using i_request_step [OF steps(3)] d_request_step [OF steps(4)] by simp_all
  from d_answer_progress [OF assms(1) steps(2), of t tag a] Cons.prems(1,2) d1
  consider "md_ready m2 \<and> md_tagout m2 = tag \<and> mem_d_read (mem m1) a = Inr (md_data m2)"
    | "(t, (tag, a)) \<in> set (d_resp m2)" "due_by t (d_resp m) = Suc (due_by t (d_resp m2))" by auto
  then show ?case
  proof cases
    case 1
    moreover have "0 < due_by t (d_resp m)" using Cons.prems(1) by (force simp: due_by_def filter_empty_conv)
    ultimately show ?thesis using ports ms by (intro exI [of _ 0]) auto
  next
    case 2
    have in': "(t, (tag, a)) \<in> set (d_resp m')" and due: "due_by t (d_resp m) = Suc (due_by t (d_resp m'))"
      using 2 d3 d4 by auto
    have "\<exists>k < due_by t (d_resp m'). md_ready (ms' ! k) \<and> md_tagout (ms' ! k) = tag \<and>
        (\<exists>bytes. mem_d_read bytes a = Inr (md_data (ms' ! k)))"
      by (rule Cons.IH [OF in' _ _ tr]) (use Cons.prems due in auto)
    then obtain k where "k < due_by t (d_resp m')" "md_ready (ms' ! k)" "md_tagout (ms' ! k) = tag"
      "\<exists>bytes. mem_d_read bytes a = Inr (md_data (ms' ! k))" by blast
    then show ?thesis using due ms by (intro exI [of _ "Suc k"]) auto
  qed
qed


theorem mem_answers_witness:
  "\<exists>m'. mem_trace pick_first 2 [sample_idle] (sample_memory\<lparr>d_resp := [(1, (7, 64))]\<rparr>) = Inr [m'] \<and> md_tagout m' = 7"
proof -
  let ?m = "sample_memory\<lparr>d_resp := [(1, (7, 64))]\<rparr>"
  have due: "due_by 1 (d_resp ?m) = 1" by (simp add: due_by_def)
  obtain m' where tr: "mem_trace pick_first 2 [sample_idle] ?m = Inr [m']"
    by (simp add: mem_work_def mem_i_answer_def mem_d_answer_def mem_i_request_def mem_d_request_def
      and_then_def sample_memory_def sample_idle_def sample_request_def memory_new_def bucket_get_def mem_d_read_def)
  have "\<exists>k < due_by 1 (d_resp ?m). md_ready ([m'] ! k) \<and> md_tagout ([m'] ! k) = 7 \<and>
    (\<exists>bytes. mem_d_read bytes 64 = Inr (md_data ([m'] ! k)))"
    by (rule mem_answers [OF tie_break_first _ _ _ tr]) (simp_all add: due_by_def sample_idle_def sample_request_def)
  then show ?thesis unfolding due using tr by auto
qed

text \<open>A clock edge, at the same or a later time, preserves the invariant of the memory.\<close>

lemma mem_work_inv:
  assumes "tie_break pick" and "mem_inv now m" and "now \<le> now'" and "mem_work pick now' i m = Inr m'"
  shows "mem_inv now' m'"
proof -
  have "mem_inv now' m" using assms(2,3) by (auto simp: mem_inv_def on_time_def intro: order_trans)
  then show ?thesis using assms(4)
    by (auto simp: mem_work_def split: if_splits dest: d_request_inv [rotated] i_request_inv [rotated]
        d_answer_inv [OF assms(1), rotated] i_answer_inv [OF assms(1), rotated])
qed

text \<open>C28: a store to an aligned address is what the next load there returns, and a load from any
  other aligned address is not disturbed.\<close>

theorem mem_d_roundtrip:
  assumes "mem_d_write a v bytes = Inr bytes'" and "a' mod 8 = 0"
  shows "mem_d_read bytes' a' = (if a' = a then Inr v else mem_d_read bytes a')"
  using assms by (rule mem_d_read_write)

theorem mem_d_roundtrip_witness:
  "mem_d_read (projr (mem_d_write 64 0x1122334455667788 (\<lambda>_. 0))) 64 = Inr 0x1122334455667788"
proof -
  have "\<exists>b. mem_d_write 64 0x1122334455667788 (\<lambda>_. 0) = Inr b" by (simp add: mem_d_write_def)
  then obtain b where b: "mem_d_write 64 0x1122334455667788 (\<lambda>_. 0) = Inr b" by blast
  show ?thesis using mem_d_roundtrip [OF b, of 64] by (simp add: b)
qed

text \<open>C27: a data request costs 3 ns when the first level holds its address, 12 ns when only
  the second level does, 112 ns otherwise; but a miss in both that evicts a dirty line from the
  first level costs 12 ns only, because the eviction enters the requested address, not the
  victim's, into the second level.\<close>

theorem d_latency_levels:
  assumes "lru_inv (L1d m)"
  shows "fst (d_latency op a m) =
    (if resident a (L1d m) then 3
     else if resident a (L2 m) then 12
     else if length (entries (L1d m)) = capacity (L1d m) \<and> snd (hd (entries (L1d m))) = DIRTY
     then 12 else 112)"
proof (cases rule: lru_get_cases [of a "L1d m" True])
  case (1 v c')
  then show ?thesis by (simp add: d_latency_def)
next
  case 2
  obtain victim c1 where put: "lru_put no_victim a (if op = READ then CLEAN else DIRTY) (L1d m) = (victim, c1)"
    by (cases "lru_put no_victim a (if op = READ then CLEAN else DIRTY) (L1d m)")
  have v: "victim = (if length (entries (L1d m)) = capacity (L1d m) then hd (entries (L1d m)) else no_victim)"
    using lru_put_victim [OF assms, of no_victim a "if op = READ then CLEAN else DIRTY"] put by simp
  have dirty: "snd victim = DIRTY \<longleftrightarrow> length (entries (L1d m)) = capacity (L1d m) \<and> snd (hd (entries (L1d m))) = DIRTY"
    by (simp add: v no_victim_def)
  have l2: "resident a (L2 (d_victim a victim (m\<lparr>L1d := c1\<rparr>))) \<longleftrightarrow> resident a (L2 m) \<or> snd victim = DIRTY"
  proof (cases rule: lru_get_cases [of a "L2 m" False])
    case (1 v c')
    then show ?thesis using resident_get [OF 1(2)] by (simp add: d_victim_def)
  next
    case 2
    then show ?thesis by (simp add: d_victim_def)
  qed
  define m1 where "m1 = d_victim a victim (m\<lparr>L1d := c1\<rparr>)"
  have eq: "fst (d_latency op a m) = (if resident a (L2 m1) then 12 else 112)"
    by (rule lru_get_cases [of a "L2 m1" True])
      (simp_all add: d_latency_def 2 put m1_def [symmetric])
  show ?thesis unfolding eq m1_def l2 dirty using 2 by simp
qed

theorem d_latency_levels_witness:
  "fst (d_latency READ 0x10000 (sample_memory\<lparr>L1d := \<lparr>capacity = 1, entries = [(0x20000, DIRTY)]\<rparr>\<rparr>)) = 12"
proof -
  let ?m = "sample_memory\<lparr>L1d := \<lparr>capacity = 1, entries = [(0x20000, DIRTY)]\<rparr>\<rparr>"
  have inv: "lru_inv (L1d ?m)" by (simp add: lru_inv_def)
  show ?thesis unfolding d_latency_levels [OF inv]
    by (simp add: resident_def sample_memory_def memory_new_def lru_new_def)
qed

text \<open>C29: after loading, an address inside loaded segments holds the byte of the file that the last of
  them has for it, or 0 behind that segment's part of the file; every other byte is what it was, and the
  entry point is that of the header.\<close>

theorem load_elf_bytes:
  assumes "load_elf file e off n phdrs bytes = Inr (bytes', e')" and "ps = take n phdrs"
  shows "e' = e \<and>
    (\<forall>x. (\<forall>p \<in> set ps. \<not> covers p x) \<longrightarrow> bytes' x = bytes x) \<and>
    (\<forall>x i. i < length ps \<and> covers (ps ! i) x \<and> (\<forall>j. i < j \<and> j < length ps \<longrightarrow> \<not> covers (ps ! j) x) \<longrightarrow>
       bytes' x = segment_byte file (ps ! i) x)"
proof (intro conjI allI impI)
  from assms have ld: "load_segments file ps bytes = Inr bytes'" and e: "e' = e"
    by (auto simp: load_elf_def split: if_splits)
  show "e' = e" by (rule e)
  fix x
  note byte = load_segments_byte [OF ld, of x]
  show "bytes' x = bytes x" if "\<forall>p \<in> set ps. \<not> covers p x"
    using that byte by (simp add: filter_False)
  fix i
  assume i: "i < length ps \<and> covers (ps ! i) x \<and> (\<forall>j. i < j \<and> j < length ps \<longrightarrow> \<not> covers (ps ! j) x)"
  have "ps = take i ps @ ps ! i # drop (Suc i) ps" using i by (simp add: id_take_nth_drop)
  moreover have "\<forall>p \<in> set (drop (Suc i) ps). \<not> covers p x" using i by (auto simp: in_set_conv_nth)
  ultimately have "filter (\<lambda>p. covers p x) (rev ps) = ps ! i # filter (\<lambda>p. covers p x) (rev (take i ps))"
    using i by (metis (no_types, lifting) append_Nil append_Cons append_assoc filter.simps(2) filter_append filter_False rev.simps(2) rev_append set_rev)
  then show "bytes' x = segment_byte file (ps ! i) x" using byte by simp
qed

theorem load_elf_bytes_witness:
  "let b = fst (projr (load_elf (replicate 600 9) 0x400 0 2
       [\<lparr>p_type = PT_LOAD, p_offset = 8, p_vaddr = 0x400, p_filesz = 2, p_memsz = 4\<rparr>,
        \<lparr>p_type = PT_LOAD, p_offset = 8, p_vaddr = 0x402, p_filesz = 0, p_memsz = 1\<rparr>] (\<lambda>_. 5)))
   in b 0x401 = 9 \<and> b 0x402 = 0 \<and> b 0x404 = 5"
proof -
  let ?p = "\<lparr>p_type = PT_LOAD, p_offset = 8, p_vaddr = 0x400, p_filesz = 2, p_memsz = 4\<rparr>"
  let ?q = "\<lparr>p_type = PT_LOAD, p_offset = 8, p_vaddr = 0x402, p_filesz = 0, p_memsz = 1\<rparr>"
  obtain b where l: "load_elf (replicate 600 9) 0x400 0 2 [?p, ?q] (\<lambda>_. 5) = Inr (b, 0x400)"
    by (simp add: load_elf_def load_segment_def and_then_def mem_size_def)
  have "[?p, ?q] = take 2 [?p, ?q]" by simp
  note spec = load_elf_bytes [OF l this, THEN conjunct2]
  note outside = spec [THEN conjunct1, rule_format] and inside = spec [THEN conjunct2, rule_format]
  have "b 0x404 = 5" by (rule outside) (auto simp: covers_def in_range_def)
  moreover have "b 0x401 = segment_byte (replicate 600 9) ([?p, ?q] ! 0) 0x401"
    by (rule inside) (auto simp: covers_def in_range_def less_Suc_eq)
  moreover have "b 0x402 = segment_byte (replicate 600 9) ([?p, ?q] ! 1) 0x402"
    by (rule inside) (auto simp: covers_def in_range_def)
  ultimately show ?thesis unfolding l by (simp add: segment_byte_def in_range_def)
qed

text \<open>The instruction port and the data port see the same bytes in opposite order: byte
  \<open>k\<close> from the top of a fetched line is byte \<open>k\<close> from the bottom of the datum at its address.\<close>

lemma mem_fetch_bytes:
  assumes "mem_i_read bytes a = Inr l" and "mem_d_read bytes a = Inr v" and "k < 8"
  shows "(ucast (drop_bit (8 * (15 - k)) l) :: byte) = ucast (drop_bit (8 * k) v)"
proof (rule bit_word_eqI)
  fix n assume "n < LENGTH(8)"
  then have n: "n < 8" by simp
  have l: "l = word_rcat (map (\<lambda>b. bytes (a + word_of_nat b)) [0..<16])"
    using assms(1) by (simp add: mem_i_read_def split: if_splits)
  have v: "v = word_rcat (map (\<lambda>b. bytes (a + word_of_nat (7 - b))) [0..<8])"
    using assms(2) by (simp add: mem_d_read_bytes split: if_splits)
  have idx: "rev (map (\<lambda>b. bytes (a + word_of_nat b)) [0..<16]) ! (15 - k) = bytes (a + word_of_nat k)"
  proof -
    have "[0..<16] ! k = k" using assms(3) by (subst nth_upt) simp_all
    then show ?thesis using assms(3) by (simp add: rev_nth)
  qed
  have d: "(8 * (15 - k) + n) div 8 = 15 - k" "(8 * (15 - k) + n) mod 8 = n" "8 * (15 - k) + n < 128"
    using n assms(3) by auto
  have e: "(8 * k + n) div 8 = k" "(8 * k + n) mod 8 = n" "8 * k + n < 64"
    using n assms(3) by auto
  have "bit l (8 * (15 - k) + n) = bit (bytes (a + word_of_nat k)) n"
    unfolding l bit_word_rcat using d assms(3) by (simp add: idx)
  moreover have "bit v (8 * k + n) = bit (bytes (a + word_of_nat k)) n"
    unfolding v bit_word_of_bytes_low [OF e(3), of "\<lambda>k. bytes (a + word_of_nat k)"] e(1,2) ..
  ultimately show "bit (ucast (drop_bit (8 * (15 - k)) l) :: byte) n = bit (ucast (drop_bit (8 * k) v) :: byte) n"
    using n by (simp add: bit_simps)
qed


end
