(* ===== verification/Stack.thy ===== *)
theory Stack
  imports Memory
begin

text \<open>
  The constructor of the memory (\<^verbatim>\<open>Memory::Memory\<close> and \<^verbatim>\<open>mem_init\<close> in
  \<^verbatim>\<open>core-project/memory.cc\<close>), which maps zero bytes, loads the program and copies its arguments
  to the stack.

  A store behind the end of the mapping is undefined. An argument is its bytes without the
  terminating zero.
\<close>

subsection \<open>The arguments on the stack\<close>

fun strcpy :: "addr \<Rightarrow> byte list \<Rightarrow> (addr \<Rightarrow> byte) \<Rightarrow> addr \<Rightarrow> byte" where
  "strcpy p [] bytes = bytes(p := 0)"
| "strcpy p (c # cs) bytes = strcpy (p + 1) cs (bytes(p := c))"

text \<open>The address of \<^verbatim>\<open>newargv[n+1]\<close>.\<close>

definition slot :: "nat \<Rightarrow> addr" where
  "slot n = stack_base + 8 * (word_of_nat n + 1)"

text \<open>The loop over the arguments: \<open>n\<close> is its counter, \<open>p\<close> the place for the next string.\<close>

fun copy_args :: "nat \<Rightarrow> byte list list \<Rightarrow> addr \<Rightarrow> (addr \<Rightarrow> byte) \<Rightarrow> load_fault + (addr \<times> (addr \<Rightarrow> byte))" where
  "copy_args n [] p bytes = Inr (p, bytes)"
| "copy_args n (s # ss) p bytes =
     (if unat p + length s + 1 > unat mem_size then Inl Load_undefined
      else copy_args (Suc n) ss (p + word_of_nat (length s) + 1)
             (store64 (slot n) p (strcpy p s bytes)))"

definition set_up_stack :: "byte list list \<Rightarrow> (addr \<Rightarrow> byte) \<Rightarrow> load_fault + (addr \<Rightarrow> byte)" where
  "set_up_stack argv bytes =
     (if unat stack_base + 8 * length argv + 16 > unat mem_size then Inl Load_undefined
      else and_then (copy_args 0 argv (stack_base + 8 * word_of_nat (length argv) + 8 + 8) bytes) (\<lambda>(p, bytes).
        if \<not> p < mem_size then Inl Load_undefined
        else Inr (store64 stack_base (word_of_nat (length argv)) (bytes(p := 0)))))"

text \<open>The memory, the entry point and the first program break.\<close>

definition mem_construct ::
  "byte list \<Rightarrow> addr \<Rightarrow> quad \<Rightarrow> nat \<Rightarrow> phdr list \<Rightarrow> byte list list \<Rightarrow> load_fault + (memory \<times> addr \<times> quad)" where
  "mem_construct file e_entry e_phoff phnum phdrs argv =
     and_then (load_elf file e_entry e_phoff phnum phdrs (\<lambda>_. 0)) (\<lambda>(bytes, entry).
       and_then (set_up_stack argv bytes) (\<lambda>bytes. Inr (memory_new bytes, entry, mem_size div 2)))"

subsection \<open>Strings in memory\<close>

definition string_at :: "(addr \<Rightarrow> byte) \<Rightarrow> addr \<Rightarrow> byte list \<Rightarrow> bool" where
  "string_at bytes p s \<longleftrightarrow> (\<forall>i < length s. bytes (p + word_of_nat i) = s ! i) \<and> bytes (p + word_of_nat (length s)) = 0"

lemma strcpy_byte:
  assumes "length s < 2 ^ 64"
  shows "strcpy p s bytes x = (if unat (x - p) < length s then s ! unat (x - p)
     else if unat (x - p) = length s then 0 else bytes x)"
  using assms
proof (induction s arbitrary: p bytes)
  case Nil
  then show ?case by (simp add: unat_eq_zero)
next
  case (Cons c cs)
  show ?case
  proof (cases "x = p")
    case True
    have "unat (p - (p + 1)) = 2 ^ 64 - 1" by (simp add: unsigned_minus_1_eq_mask mask_eq_exp_minus_1)
    then show ?thesis using Cons True by simp
  next
    case False
    then have "unat (x - (p + 1)) = unat (x - p) - 1" and "unat (x - p) \<noteq> 0"
      by (simp_all add: diff_diff_eq [symmetric] unat_minus_one unat_eq_zero)
    then show ?thesis using Cons False by auto
  qed
qed

lemma unat_add_small: "unat (p :: addr) + k < 2 ^ 64 \<Longrightarrow> unat (p + word_of_nat k) = unat p + k"
  by (simp add: unat_word_ariths unat_of_nat take_bit_nat_eq_self)

lemma unat_diff_small: "unat p \<le> unat x \<Longrightarrow> unat (x - p :: addr) = unat x - unat p"
  by (simp add: unat_sub word_le_nat_alt)

lemma unat_diff_before:
  assumes "unat x < unat p" and "unat p + n \<le> 2 ^ 63"
  shows "n < unat (x - p :: addr)"
proof -
  have "unat (x - p) = 2 ^ 64 + unat x - unat p"
    using assms(1) by (simp add: unat_sub_if_size word_size word_le_nat_alt)
  then show ?thesis using assms by simp
qed

lemma mem_size_nat [simp]: "unat mem_size = 67108864" and stack_base_nat [simp]: "unat stack_base = 67107840"
  by (simp_all add: mem_size_def stack_base_def)

lemma mem_d_read_cong:
  assumes "\<And>k. k < 8 \<Longrightarrow> b (a + word_of_nat k) = b' (a + word_of_nat k)"
  shows "mem_d_read b a = mem_d_read b' a"
proof -
  have "map (\<lambda>j. b (a + word_of_nat (7 - j))) [0..<8] = map (\<lambda>j. b' (a + word_of_nat (7 - j))) [0..<8]"
  proof (intro map_cong refl)
    fix j assume "j \<in> set [0..<8]"
    then show "b (a + word_of_nat (7 - j)) = b' (a + word_of_nat (7 - j))" by (intro assms) auto
  qed
  then show ?thesis by (simp only: mem_d_read_bytes)
qed

lemma slot_eq: "slot n = word_of_nat (67107840 + 8 * (n + 1))"
  by (simp add: slot_def stack_base_def mem_size_def)

lemma unat_of_nat_64: "unat (word_of_nat m :: addr) = m mod 2 ^ 64"
  by (simp add: unat_of_nat take_bit_eq_mod)

lemma slot_nat_mod: "unat (slot n) = (67107840 + 8 * (n + 1)) mod 2 ^ 64"
  by (simp only: slot_eq unat_of_nat_64)

lemma slot_nat: "n < 1000 \<Longrightarrow> unat (slot n) = 67107840 + 8 * (n + 1)"
  by (simp only: slot_nat_mod) simp

lemma slot_aligned: "slot n mod 8 = 0"
proof -
  have "(8 :: nat) dvd (67107840 + 8 * (n + 1)) mod 2 ^ 64"
    by (rule dvd_mod) (simp_all add: dvd_add)
  then show ?thesis by (simp only: mod_8_unat slot_nat_mod)
qed

lemma store64_other: "unat x < unat a \<or> unat a + 8 \<le> unat x \<Longrightarrow> unat a \<le> 2 ^ 62 \<Longrightarrow> store64 a v bytes x = bytes x"
  using unat_diff_before [of x a 7] unat_diff_small [of a x] by (auto simp: store64_byte)

lemma strcpy_other:
  "unat x < unat p \<or> unat p + length s < unat x \<Longrightarrow> unat p + length s \<le> 2 ^ 62 \<Longrightarrow> strcpy p s bytes x = bytes x"
  using unat_diff_before [of x p "length s"] unat_diff_small [of p x] by (auto simp: strcpy_byte)

lemma string_at_strcpy:
  assumes "length s < 2 ^ 62"
  shows "string_at (strcpy p s bytes) p s"
  using assms by (simp add: string_at_def strcpy_byte unat_of_nat take_bit_nat_eq_self)

lemma string_at_cong:
  "(\<And>i. i \<le> length s \<Longrightarrow> b (p + word_of_nat i) = b' (p + word_of_nat i)) \<Longrightarrow> string_at b p s = string_at b' p s"
  by (simp add: string_at_def)

text \<open>The loop leaves everything below the strings alone but the slots of its arguments.\<close>

lemma copy_args_frame:
  assumes "copy_args n ss p bytes = Inr (p', bytes')" and "n + length ss < 1000"
    and "unat (slot (n + length ss)) \<le> unat p"
    and "unat x < unat p" and "unat x < unat (slot n) \<or> unat (slot (n + length ss)) \<le> unat x"
  shows "bytes' x = bytes x"
  using assms
proof (induction ss arbitrary: n p bytes)
  case (Cons s ss)
  let ?b = "store64 (slot n) p (strcpy p s bytes)"
  let ?p = "p + word_of_nat (length s) + 1"
  have fit: "unat p + length s + 1 \<le> unat mem_size" and rest: "copy_args (Suc n) ss ?p ?b = Inr (p', bytes')"
    using Cons.prems(1) by (auto split: if_splits)
  have p: "unat ?p = unat p + length s + 1"
    using fit unat_add_small [of p "length s + 1"] by (simp add: ac_simps)
  have sl: "unat (slot (Suc n)) = unat (slot n) + 8" "unat (slot (n + length (s # ss))) = unat (slot n) + 8 * length (s # ss)"
    using Cons.prems(2) by (simp_all add: slot_nat)
  have "bytes' x = ?b x"
    by (rule Cons.IH [OF rest]) (use Cons.prems sl p in auto)
  also have "\<dots> = strcpy p s bytes x"
    by (rule store64_other) (use Cons.prems sl slot_nat [of n] in auto)
  also have "\<dots> = bytes x"
    by (rule strcpy_other) (use Cons.prems(4) fit in auto)
  finally show ?case .
qed simp

lemma copy_args_end:
  assumes "copy_args n ss p bytes = Inr (p', bytes')"
  shows "unat p \<le> unat p'"
  using assms
proof (induction ss arbitrary: n p bytes)
  case (Cons s ss)
  let ?p = "p + word_of_nat (length s) + 1"
  have fit: "unat p + length s + 1 \<le> unat mem_size"
    and rest: "copy_args (Suc n) ss ?p (store64 (slot n) p (strcpy p s bytes)) = Inr (p', bytes')"
    using Cons.prems by (auto split: if_splits)
  have "unat ?p = unat p + length s + 1"
    using fit unat_add_small [of p "length s + 1"] by (simp add: ac_simps)
  with Cons.IH [OF rest] show ?case by simp
qed simp

lemma copy_args_strings:
  assumes "copy_args n ss p bytes = Inr (p', bytes')" and "n + length ss < 1000"
    and "unat (slot (n + length ss)) \<le> unat p" and "k < length ss"
  shows "\<exists>q. unat p \<le> unat q \<and> unat q + length (ss ! k) < unat p' \<and>
    mem_d_read bytes' (slot (n + k)) = Inr q \<and> string_at bytes' q (ss ! k)"
  using assms
proof (induction ss arbitrary: n p bytes k)
  case (Cons s ss)
  let ?b = "store64 (slot n) p (strcpy p s bytes)"
  let ?p = "p + word_of_nat (length s) + 1"
  have fit: "unat p + length s + 1 \<le> unat mem_size" and rest: "copy_args (Suc n) ss ?p ?b = Inr (p', bytes')"
    using Cons.prems(1) by (auto split: if_splits)
  have p: "unat ?p = unat p + length s + 1"
    using fit unat_add_small [of p "length s + 1"] by (simp add: ac_simps)
  have sl: "unat (slot (Suc n)) = unat (slot n) + 8" "unat (slot (n + length (s # ss))) = unat (slot n) + 8 * length (s # ss)"
      "unat (slot (Suc n + length ss)) = unat (slot n) + 8 * length (s # ss)"
    using Cons.prems(2) by (simp_all add: slot_nat)
  have next_slots: "Suc n + length ss < 1000" "unat (slot (Suc n + length ss)) \<le> unat ?p"
    using Cons.prems(2,3) sl p by auto
  show ?case
  proof (cases k)
    case 0
    have le: "unat ?p \<le> unat p'" by (rule copy_args_end [OF rest])
    have same: "bytes' x = ?b x" if "unat x < unat ?p" "unat x < unat (slot n) + 8 \<or> unat (slot n) + 8 * length (s # ss) \<le> unat x" for x
      by (rule copy_args_frame [OF rest next_slots]) (use that sl in auto)
    have "mem_d_read bytes' (slot n) = mem_d_read ?b (slot n)"
    proof (rule mem_d_read_cong)
      fix j :: nat assume "j < 8"
      then have "unat (slot n + word_of_nat j) = unat (slot n) + j"
        using Cons.prems(2) by (intro unat_add_small) (simp add: slot_nat)
      then show "bytes' (slot n + word_of_nat j) = ?b (slot n + word_of_nat j)"
        using \<open>j < 8\<close> Cons.prems(3) sl p by (intro same) auto
    qed
    moreover have "mem_d_read ?b (slot n) = Inr p"
      using mem_d_read_write [OF mem_d_write_store64 [OF slot_aligned] slot_aligned] by simp
    moreover have "string_at bytes' p s = string_at (strcpy p s bytes) p s"
    proof (rule string_at_cong)
      fix i assume i: "i \<le> length s"
      then have pi: "unat (p + word_of_nat i) = unat p + i" using fit by (intro unat_add_small) simp
      have "bytes' (p + word_of_nat i) = ?b (p + word_of_nat i)"
        using pi i Cons.prems(3) sl p by (intro same) auto
      also have "\<dots> = strcpy p s bytes (p + word_of_nat i)"
        using pi Cons.prems(2,3) sl by (intro store64_other) (auto simp: slot_nat)
      finally show "bytes' (p + word_of_nat i) = strcpy p s bytes (p + word_of_nat i)" .
    qed
    ultimately show ?thesis using 0 le p string_at_strcpy [of s p bytes] fit
      by (intro exI [of _ p]) simp
  next
    case (Suc j)
    then have "j < length ss" using Cons.prems(4) by simp
    from Cons.IH [OF rest next_slots this] p Suc show ?thesis by auto
  qed
qed simp

subsection \<open>Property of the stack\<close>

lemma set_up_stack_effect:
  fixes argv :: "byte list list"
  defines "p0 \<equiv> stack_base + 8 * word_of_nat (length argv) + 8 + 8"
  assumes "set_up_stack argv bytes = Inr bytes'"
  obtains p b where "length argv \<le> 126" and "copy_args 0 argv p0 bytes = Inr (p, b)"
    and "unat p0 = unat (slot (length argv)) + 8" and "unat p0 \<le> unat p" and "unat p < 67108864"
    and "bytes' = store64 stack_base (word_of_nat (length argv)) (b(p := 0))"
    and "\<And>x. unat x \<noteq> unat p \<Longrightarrow> unat x < 67107840 \<or> 67107848 \<le> unat x \<Longrightarrow> bytes' x = b x"
    and "\<And>x. unat x < unat p0 \<Longrightarrow> unat x < unat (slot 0) \<or> unat (slot (length argv)) \<le> unat x \<Longrightarrow> b x = bytes x"
proof -
  let ?n = "length argv"
  have room: "?n \<le> 126" using assms(2) by (simp add: set_up_stack_def split: if_splits)
  obtain p b where c: "copy_args 0 argv p0 bytes = Inr (p, b)" and p: "p < mem_size"
    and b': "bytes' = store64 stack_base (word_of_nat ?n) (b(p := 0))"
    using assms(2) by (auto simp: set_up_stack_def p0_def split: if_splits)
  have p0: "unat p0 = unat (slot ?n) + 8"
  proof -
    have "p0 = word_of_nat (67107840 + 8 * (?n + 1) + 8)" by (simp add: p0_def stack_base_def mem_size_def)
    then have "unat p0 = (67107840 + 8 * (?n + 1) + 8) mod 2 ^ 64" by (simp only: unat_of_nat_64)
    then show ?thesis using room by (simp add: slot_nat)
  qed
  have pn: "unat p0 \<le> unat p" by (rule copy_args_end [OF c])
  have lt: "unat p < 67108864" using p by (simp add: word_less_nat_alt)
  have keep: "bytes' x = b x" if "unat x \<noteq> unat p" "unat x < 67107840 \<or> 67107848 \<le> unat x" for x
    using that store64_other [of x stack_base "word_of_nat ?n" "b(p := 0)"] by (auto simp: b')
  have fr: "b x = bytes x" if "unat x < unat p0" "unat x < unat (slot 0) \<or> unat (slot ?n) \<le> unat x" for x
    by (rule copy_args_frame [OF c]) (use that room p0 in auto)
  show thesis by (rule that [OF room c p0 pn lt b' keep fr])
qed

lemma mem_d_read_slot:
  assumes "k \<le> 126" and "\<And>x. unat (slot k) \<le> unat x \<Longrightarrow> unat x < unat (slot k) + 8 \<Longrightarrow> bytes' x = bytes x"
  shows "mem_d_read bytes' (slot k) = mem_d_read bytes (slot k)"
proof (rule mem_d_read_cong)
  fix j :: nat assume "j < 8"
  moreover from this have "unat (slot k + word_of_nat j) = unat (slot k) + j"
    using assms(1) by (intro unat_add_small) (simp add: slot_nat)
  ultimately show "bytes' (slot k + word_of_nat j) = bytes (slot k + word_of_nat j)" by (intro assms(2)) simp_all
qed

lemma set_up_stack_args:
  assumes "set_up_stack argv bytes = Inr bytes'"
  shows "mem_d_read bytes' stack_base = Inr (word_of_nat (length argv)) \<and>
    (\<forall>k < length argv. \<exists>q. mem_d_read bytes' (slot k) = Inr q \<and> string_at bytes' q (argv ! k)) \<and>
    mem_d_read bytes' (slot (length argv)) = mem_d_read bytes (slot (length argv)) \<and>
    (\<forall>x < stack_base. bytes' x = bytes x)"
proof -
  let ?n = "length argv"
  let ?p0 = "stack_base + 8 * word_of_nat ?n + 8 + 8"
  from assms obtain p b where room: "?n \<le> 126" and c: "copy_args 0 argv ?p0 bytes = Inr (p, b)"
    and p0: "unat ?p0 = unat (slot ?n) + 8" and pn: "unat ?p0 \<le> unat p" and lt: "unat p < 67108864"
    and b': "bytes' = store64 stack_base (word_of_nat ?n) (b(p := 0))"
    and keep: "\<And>x. unat x \<noteq> unat p \<Longrightarrow> unat x < 67107840 \<or> 67107848 \<le> unat x \<Longrightarrow> bytes' x = b x"
    and fr: "\<And>x. unat x < unat ?p0 \<Longrightarrow> unat x < unat (slot 0) \<or> unat (slot ?n) \<le> unat x \<Longrightarrow> b x = bytes x"
    by (rule set_up_stack_effect) (rule that, assumption+)
  have al: "stack_base mod 8 = 0" by (simp add: stack_base_def mem_size_def)
  have slots: "mem_d_read bytes' (slot k) = mem_d_read b (slot k)" if "k \<le> ?n" for k
    by (rule mem_d_read_slot) (use that room p0 pn in \<open>auto intro!: keep simp: slot_nat\<close>)
  show ?thesis
  proof (intro conjI allI impI)
    show "mem_d_read bytes' stack_base = Inr (word_of_nat ?n)"
      using mem_d_read_write [OF mem_d_write_store64 [OF al] al] by (simp add: b')
  next
    fix k assume k: "k < ?n"
    then obtain q where q: "unat ?p0 \<le> unat q" "unat q + length (argv ! k) < unat p"
        "mem_d_read b (slot k) = Inr q" "string_at b q (argv ! k)"
      using copy_args_strings [OF c, of k] room p0 by auto
    have "string_at bytes' q (argv ! k) = string_at b q (argv ! k)"
    proof (rule string_at_cong)
      fix i assume "i \<le> length (argv ! k)"
      moreover from this have "unat (q + word_of_nat i) = unat q + i"
        using q(2) lt by (intro unat_add_small) simp
      ultimately show "bytes' (q + word_of_nat i) = b (q + word_of_nat i)"
        using q(1,2) p0 room by (intro keep) (auto simp: slot_nat)
    qed
    with q slots [of k] k show "\<exists>q. mem_d_read bytes' (slot k) = Inr q \<and> string_at bytes' q (argv ! k)" by auto
  next
    have "mem_d_read b (slot ?n) = mem_d_read bytes (slot ?n)"
      by (rule mem_d_read_slot) (use room p0 in \<open>auto intro: fr\<close>)
    with slots [of ?n] show "mem_d_read bytes' (slot ?n) = mem_d_read bytes (slot ?n)" by simp
  next
    fix x :: addr assume "x < stack_base"
    then have x: "unat x < 67107840" by (simp add: word_less_nat_alt)
    have "bytes' x = b x" by (rule keep) (use x p0 pn room in \<open>auto simp: slot_nat\<close>)
    also have "\<dots> = bytes x" by (rule fr) (use x p0 room in \<open>auto simp: slot_nat\<close>)
    finally show "bytes' x = bytes x" .
  qed
qed

text \<open>C35: after the constructor the stack is as the program start expects it: the number of
  arguments at \<^verbatim>\<open>stack_base\<close>, then one pointer for each to a copy of its string; the slot of
  the terminating null pointer and everything below the stack are as the loader left them.\<close>

theorem args_on_stack:
  assumes "set_up_stack argv bytes = Inr bytes'"
  shows "mem_d_read bytes' stack_base = Inr (word_of_nat (length argv)) \<and>
    (\<forall>k < length argv. \<exists>q. mem_d_read bytes' (slot k) = Inr q \<and> string_at bytes' q (argv ! k)) \<and>
    mem_d_read bytes' (slot (length argv)) = mem_d_read bytes (slot (length argv)) \<and>
    (\<forall>x < stack_base. bytes' x = bytes x)"
  by (rule set_up_stack_args [OF assms])

theorem args_on_stack_witness:
  "\<exists>b q. set_up_stack [[0x61, 0x62], [0x63]] (\<lambda>_. 0) = Inr b \<and> mem_d_read b stack_base = Inr 2 \<and>
     mem_d_read b (slot 1) = Inr q \<and> b q = 0x63"
proof -
  have "unat (stack_base + 32 :: addr) = 67107872" "unat (stack_base + 35 :: addr) = 67107875"
    by (simp_all add: stack_base_def mem_size_def)
  then obtain b where b: "set_up_stack [[0x61, 0x62], [0x63]] (\<lambda>_. 0) = Inr b"
    by (auto simp: set_up_stack_def and_then_def stack_base_def mem_size_def)
  note a = args_on_stack [OF b]
  then obtain q where "mem_d_read b (slot 1) = Inr q" "string_at b q [0x63]"
    by (metis length_Cons list.size(3) lessI nth_Cons_0 nth_Cons_Suc One_nat_def)
  with a b show ?thesis by (auto simp: string_at_def)
qed

end
