(* ===== verification/TagPort.thy ===== *)
theory TagPort
  imports Memory
begin

text \<open>
  The protocol of the two memory ports (\<^verbatim>\<open>i_op\<close>, \<^verbatim>\<open>i_tagin\<close>, \<^verbatim>\<open>i_addr\<close> and
  \<^verbatim>\<open>d_op\<close>, \<^verbatim>\<open>d_tagin\<close>, \<^verbatim>\<open>d_addr\<close>): a client sends an address together with the same
  address cut to an \<^verbatim>\<open>int\<close> as its tag, asks again on every edge until it is answered, and takes
  an answer for its own when the tag, extended to 64 bits, is the address it waits for. Old
  answers keep arriving, so it matters that an answer with the right tag always carries the word
  of the right address. The locale states what a client relies on; both ports of the memory
  provide it.
\<close>

subsection \<open>Tags and addresses\<close>

definition tagged :: "(addr \<Rightarrow> bool) \<Rightarrow> (response \<Rightarrow> nat) \<Rightarrow> bool" where
  "tagged busy out \<longleftrightarrow> (\<forall>a. busy a \<longrightarrow> a < mem_size) \<and>
     (\<forall>r. out r > 0 \<longrightarrow> fst r = ucast (snd r) \<and> snd r < mem_size)"

lemma small_tag: "a < mem_size \<Longrightarrow> signed (ucast a :: cint) = (a :: addr)"
proof -
  assume "a < mem_size"
  then have a: "uint a < 2 ^ 26" by (simp add: mem_size_def word_less_def)
  then have u: "uint (ucast a :: cint) = uint a"
    by (simp add: unsigned_ucast_eq take_bit_int_eq_self_iff)
  have "- 2147483648 \<le> uint a" using uint_ge_0 [of a] by linarith
  then have "signed_take_bit 31 (uint a) = uint a"
    using a by (intro signed_take_bit_int_eq_self) simp_all
  then have "sint (ucast a :: cint) = uint a" by (simp add: sint_uint u)
  then show ?thesis by (simp add: scast_eq)
qed

subsection \<open>The contract of a port\<close>

locale tagged_port =
  fixes edge :: "nat \<Rightarrow> 'q \<Rightarrow> 'm \<Rightarrow> 'f + 'm"
    and busy :: "'m \<Rightarrow> addr \<Rightarrow> bool"
    and out :: "'m \<Rightarrow> response \<Rightarrow> nat"
    and active :: "'q \<Rightarrow> bool"
    and sent :: "'q \<Rightarrow> response option"
    and answered :: "'m \<Rightarrow> cint option"
    and data :: "'m \<Rightarrow> 'v"
    and word_at :: "'m \<Rightarrow> addr \<Rightarrow> 'f + 'v"
  assumes answers_own: "active q \<Longrightarrow> edge t q m = Inr m' \<Longrightarrow> answered m' = Some tag \<Longrightarrow>
      \<exists>a. out m (tag, a) > 0 \<and> word_at m a = Inr (data m')"
    and origin: "edge t q m = Inr m' \<Longrightarrow> out m' r > 0 \<Longrightarrow>
      out m r > 0 \<or> sent q = Some r \<and> (snd r < mem_size \<or> busy m (snd r))"
    and busy_origin: "edge t q m = Inr m' \<Longrightarrow> busy m' a \<Longrightarrow> busy m a \<or> a < mem_size"
begin

lemma tagged_edge:
  assumes "edge t q m = Inr m'" and "tagged (busy m) (out m)"
    and "\<And>r. sent q = Some r \<Longrightarrow> fst r = ucast (snd r)"
  shows "tagged (busy m') (out m')"
  unfolding tagged_def
proof (intro conjI allI impI)
  fix r assume "out m' r > 0"
  from origin [OF assms(1) this] show "fst r = ucast (snd r)" "snd r < mem_size"
    using assms(2,3) by (cases r; auto simp: tagged_def)+
next
  fix a assume "busy m' a"
  from busy_origin [OF assms(1) this] show "a < mem_size"
    using assms(2) by (auto simp: tagged_def)
qed

lemma answer_is_word:
  assumes "active q" and "edge t q m = Inr m'" and "tagged (busy m) (out m)"
    and "answered m' = Some tag" and "signed tag = (a :: addr)"
  shows "word_at m a = Inr (data m') \<and> a < mem_size"
proof -
  from answers_own [OF assms(1,2,4)] obtain b where "out m (tag, b) > 0" "word_at m b = Inr (data m')"
    by blast
  moreover from this assms(3) have "tag = ucast b" "b < mem_size" by (auto simp: tagged_def)
  ultimately show ?thesis using small_tag [of b] assms(5) by simp
qed

end

subsection \<open>The two ports of the memory\<close>

definition i_sent :: "memory_in \<Rightarrow> response option" where
  "i_sent i = (if mm_reset i \<or> mi_op i = NONE then None else Some (mi_tagin i, mi_addr i))"

definition d_sent :: "memory_in \<Rightarrow> response option" where
  "d_sent i = (if mm_reset i \<or> md_op i = NONE then None else Some (md_tagin i, md_addr i))"

lemma mem_work_cases:
  assumes "mem_work pick t q m = Inr m'"
  obtains "mm_reset q" "m' = m"
  | m1 m2 m3 where "\<not> mm_reset q" "mem_i_answer pick t m = Inr m1" "mem_d_answer pick t m1 = Inr m2"
      "mem_i_request t q m2 = Inr m3" "mem_d_request t q m3 = Inr m'"
  using assms by (auto simp: mem_work_def split: if_splits)

lemma i_busy_step:
  assumes "mem_i_request t q m = Inr m'" and "i_mshr m' a \<noteq> None"
  shows "i_mshr m a \<noteq> None \<or> a < mem_size"
  using assms latency_frame(1) [of "mi_addr q" m]
  by (cases "i_latency (mi_addr q) m")
    (auto simp: mem_i_request_def split: if_splits option.splits)

lemma i_mapped:
  assumes "mem_i_request t q m = Inr m'" and "mi_op q \<noteq> NONE"
  shows "mi_addr q < mem_size \<or> i_mshr m (mi_addr q) \<noteq> None"
  using assms by (auto simp: mem_i_request_def split: if_splits option.splits prod.splits)

lemma d_mapped:
  assumes "mem_d_request t q m = Inr m'" and "md_op q \<noteq> NONE"
  shows "md_addr q < mem_size"
  using assms by (auto simp: mem_d_request_def split: if_splits)

lemma d_busy_step:
  assumes "mem_d_request t q m = Inr m'" and "d_mshr m' a \<noteq> None"
  shows "d_mshr m a \<noteq> None \<or> a < mem_size"
proof (cases "md_op q = NONE")
  case True
  then show ?thesis using assms by (simp add: mem_d_request_def)
next
  case False
  note d_mapped [OF assms(1) False]
  moreover have "d_mshr m' a = d_mshr m a" if "a \<noteq> md_addr q"
  proof -
    obtain bytes where b: "(if md_op q = WRITE then mem_d_write (md_addr q) (md_din q) (mem m) else Inr (mem m)) = Inr bytes"
      using assms(1) False by (simp add: mem_d_request_def split: if_split_asm sum.splits)
    obtain c1 c2 where "snd (d_latency (md_op q) (md_addr q) (m\<lparr>mem := bytes\<rparr>)) = m\<lparr>mem := bytes, L1d := c1, L2 := c2\<rparr>"
      using latency_frame(2) [of "md_op q" "md_addr q" "m\<lparr>mem := bytes\<rparr>"] by auto
    then show ?thesis using assms(1) False that
      by (cases "d_latency (md_op q) (md_addr q) (m\<lparr>mem := bytes\<rparr>)")
        (simp add: mem_d_request_def b Let_def split: if_split_asm option.splits, auto)
  qed
  ultimately show ?thesis using assms(2) by metis
qed

lemma i_answer_busy: "mem_i_answer pick t m = Inr m' \<Longrightarrow> i_mshr m' a \<noteq> None \<Longrightarrow> i_mshr m a \<noteq> None"
  by (auto simp: mem_i_answer_def split: prod.splits option.splits sum.splits if_splits)

lemma d_answer_busy: "mem_d_answer pick t m = Inr m' \<Longrightarrow> d_mshr m' a \<noteq> None \<Longrightarrow> d_mshr m a \<noteq> None"
  by (auto simp: mem_d_answer_def split: prod.splits option.splits sum.splits if_splits)

lemma i_answer_own:
  assumes "tie_break pick" and "mem_i_answer pick t m = Inr m'"
  shows "mi_ready m' \<Longrightarrow> \<exists>a. i_out m (mi_tagout m', a) > 0 \<and> mem_i_read (mem m) a = Inr (mi_data m')"
    and "i_out m' r > 0 \<Longrightarrow> i_out m r > 0"
proof -
  from i_answer_step [OF assms] obtain a
    where o: "\<And>r. i_out m r = i_out m' r + (if mi_ready m' \<and> r = (mi_tagout m', a) then 1 else 0)"
      and v: "mi_ready m' \<longrightarrow> mem_i_read (mem m) a = Inr (mi_data m')" by blast
  show "\<exists>a. i_out m (mi_tagout m', a) > 0 \<and> mem_i_read (mem m) a = Inr (mi_data m')" if "mi_ready m'"
    using that v o [of "(mi_tagout m', a)"] by (intro exI [of _ a]) simp
  show "i_out m r > 0" if "i_out m' r > 0" using that o [of r] by simp
qed

lemma d_answer_own:
  assumes "tie_break pick" and "mem_d_answer pick t m = Inr m'"
  shows "md_ready m' \<Longrightarrow> \<exists>a. d_out m (md_tagout m', a) > 0 \<and> mem_d_read (mem m) a = Inr (md_data m')"
    and "d_out m' r > 0 \<Longrightarrow> d_out m r > 0"
proof -
  from d_answer_step [OF assms] obtain a
    where o: "\<And>r. d_out m r = d_out m' r + (if md_ready m' \<and> r = (md_tagout m', a) then 1 else 0)"
      and v: "md_ready m' \<longrightarrow> mem_d_read (mem m) a = Inr (md_data m')" by blast
  show "\<exists>a. d_out m (md_tagout m', a) > 0 \<and> mem_d_read (mem m) a = Inr (md_data m')" if "md_ready m'"
    using that v o [of "(md_tagout m', a)"] by (intro exI [of _ a]) simp
  show "d_out m r > 0" if "d_out m' r > 0" using that o [of r] by simp
qed

lemma i_port_laws:
  assumes "tie_break pick"
  shows "tagged_port (mem_work pick) (\<lambda>m a. i_mshr m a \<noteq> None) i_out (\<lambda>i. \<not> mm_reset i) i_sent
    (\<lambda>m. if mi_ready m then Some (mi_tagout m) else None) mi_data (\<lambda>m. mem_i_read (mem m))"
proof
  fix t q m m' tag
  assume "\<not> mm_reset q" "mem_work pick t q m = Inr m'"
    and tag: "(if mi_ready m' then Some (mi_tagout m') else None) = Some tag"
  then obtain m1 m2 m3 where st: "mem_i_answer pick t m = Inr m1" "mem_d_answer pick t m1 = Inr m2"
      "mem_i_request t q m2 = Inr m3" "mem_d_request t q m3 = Inr m'"
    by (auto simp: mem_work_def)
  have "mi_ready m1" "mi_tagout m1 = tag" "mi_data m1 = mi_data m'"
    using d_answer_step [OF assms st(2)] i_request_step [OF st(3)] d_request_step [OF st(4)] tag
    by (auto split: if_splits)
  with i_answer_own(1) [OF assms st(1)]
  show "\<exists>a. i_out m (tag, a) > 0 \<and> mem_i_read (mem m) a = Inr (mi_data m')" by simp
next
  fix t q m m' r
  assume st: "mem_work pick t q m = Inr m'" and r: "i_out m' r > 0"
  then show "i_out m r > 0 \<or> i_sent q = Some r \<and> (snd r < mem_size \<or> i_mshr m (snd r) \<noteq> None)"
  proof (cases rule: mem_work_cases)
    case (2 m1 m2 m3)
    have 3: "i_out m3 r > 0" using d_request_step [OF 2(5)] r by simp
    have 1: "i_out m r > 0" if "i_out m2 r > 0"
      using i_answer_own(2) [OF assms 2(2)] d_answer_step [OF assms 2(3)] that by simp
    have "i_mshr m a \<noteq> None" if "i_mshr m2 a \<noteq> None" for a
      using i_answer_busy [OF 2(2)] d_answer_step [OF assms 2(3)] that by metis
    then show ?thesis using 3 1 i_request_step [OF 2(4), of r] i_mapped [OF 2(4)] 2(1)
      by (auto simp: i_sent_def split: if_splits)
  qed (use r in simp)
next
  fix t q m m' a
  assume st: "mem_work pick t q m = Inr m'" and a: "i_mshr m' a \<noteq> None"
  then show "i_mshr m a \<noteq> None \<or> a < mem_size"
  proof (cases rule: mem_work_cases)
    case (2 m1 m2 m3)
    have "i_mshr m3 a \<noteq> None" using d_request_step [OF 2(5)] a by simp
    with i_busy_step [OF 2(4)] have "i_mshr m2 a \<noteq> None \<or> a < mem_size" by blast
    then show ?thesis using i_answer_busy [OF 2(2)] d_answer_step [OF assms 2(3)] by metis
  qed (use a in simp)
qed

lemma d_port_laws:
  assumes "tie_break pick"
  shows "tagged_port (mem_work pick) (\<lambda>m a. d_mshr m a \<noteq> None) d_out (\<lambda>i. \<not> mm_reset i) d_sent
    (\<lambda>m. if md_ready m then Some (md_tagout m) else None) md_data (\<lambda>m. mem_d_read (mem m))"
proof
  fix t q m m' tag
  assume "\<not> mm_reset q" "mem_work pick t q m = Inr m'"
    and tag: "(if md_ready m' then Some (md_tagout m') else None) = Some tag"
  then obtain m1 m2 m3 where st: "mem_i_answer pick t m = Inr m1" "mem_d_answer pick t m1 = Inr m2"
      "mem_i_request t q m2 = Inr m3" "mem_d_request t q m3 = Inr m'"
    by (auto simp: mem_work_def)
  have "md_ready m2" "md_tagout m2 = tag" "md_data m2 = md_data m'"
    using i_request_step [OF st(3)] d_request_step [OF st(4)] tag by (auto split: if_splits)
  with d_answer_own(1) [OF assms st(2)]
  show "\<exists>a. d_out m (tag, a) > 0 \<and> mem_d_read (mem m) a = Inr (md_data m')"
    using i_answer_step [OF assms st(1)] by simp
next
  fix t q m m' r
  assume st: "mem_work pick t q m = Inr m'" and r: "d_out m' r > 0"
  then show "d_out m r > 0 \<or> d_sent q = Some r \<and> (snd r < mem_size \<or> d_mshr m (snd r) \<noteq> None)"
  proof (cases rule: mem_work_cases)
    case (2 m1 m2 m3)
    have 1: "d_out m r > 0" if "d_out m3 r > 0"
      using i_answer_step [OF assms 2(2)] d_answer_own(2) [OF assms 2(3)] i_request_step [OF 2(4)] that
      by simp
    show ?thesis using 1 r d_request_step [OF 2(5)] d_mapped [OF 2(5)] 2(1)
      by (auto simp: d_sent_def split: if_splits)
  qed (use r in simp)
next
  fix t q m m' a
  assume st: "mem_work pick t q m = Inr m'" and a: "d_mshr m' a \<noteq> None"
  then show "d_mshr m a \<noteq> None \<or> a < mem_size"
  proof (cases rule: mem_work_cases)
    case (2 m1 m2 m3)
    from d_busy_step [OF 2(5) a] show ?thesis
      using i_answer_step [OF assms 2(2)] d_answer_busy [OF 2(3)] i_request_step [OF 2(4)] by metis
  qed (use a in simp)
qed

interpretation i_port: tagged_port "mem_work pick_first" "\<lambda>m a. i_mshr m a \<noteq> None" i_out "\<lambda>i. \<not> mm_reset i"
    i_sent "\<lambda>m. if mi_ready m then Some (mi_tagout m) else None" mi_data "\<lambda>m. mem_i_read (mem m)"
  by (rule i_port_laws [OF tie_break_first])

interpretation d_port: tagged_port "mem_work pick_first" "\<lambda>m a. d_mshr m a \<noteq> None" d_out "\<lambda>i. \<not> mm_reset i"
    d_sent "\<lambda>m. if md_ready m then Some (md_tagout m) else None" md_data "\<lambda>m. mem_d_read (mem m)"
  by (rule d_port_laws [OF tie_break_first])

subsection \<open>Property\<close>

text \<open>C38: on an edge on which the memory both answers a request for an address and performs a store
  to it, the answer is the word from before the store: answers are taken first. A load that follows
  a store to its address immediately and finds an older answer with its tag on the port therefore
  completes with the old word.\<close>

theorem answer_precedes_store:
  assumes "tie_break pick" and "tagged (\<lambda>a. d_mshr m a \<noteq> None) (d_out m)"
    and "\<not> mm_reset i" and "md_op i = WRITE" and "mem_work pick t i m = Inr m'"
    and "md_ready m'" and "signed (md_tagout m') = md_addr i"
  shows "mem_d_read (mem m) (md_addr i) = Inr (md_data m') \<and>
         mem_d_read (mem m') (md_addr i) = Inr (md_din i)"
proof
  show "mem_d_read (mem m) (md_addr i) = Inr (md_data m')"
    using tagged_port.answer_is_word [OF d_port_laws [OF assms(1)] assms(3,5,2)] assms(6,7) by simp
  from assms(5,3) obtain m1 m2 m3 where "mem_d_request t i m3 = Inr m'"
    by (auto simp: mem_work_def)
  from d_request_step [OF this] assms(4) have w: "mem_d_write (md_addr i) (md_din i) (mem m3) = Inr (mem m')"
    by simp
  then have "md_addr i mod 8 = 0" by (simp add: mem_d_write_def split: if_splits)
  with mem_d_read_write [OF w this] show "mem_d_read (mem m') (md_addr i) = Inr (md_din i)" by simp
qed

theorem answer_precedes_store_witness:
  "let m = (memory_new (\<lambda>_. 0))\<lparr>d_resp := [(0, (0x10000, 0x10000))], d_mshr := [0x10000 \<mapsto> []]\<rparr>;
       i = sample_request\<lparr>md_op := WRITE, md_tagin := 0x10000, md_din := 7\<rparr>
   in \<exists>m'. mem_work pick_first 0 i m = Inr m' \<and> md_data m' = 0 \<and> mem_d_read (mem m') 0x10000 = Inr 7"
proof -
  let ?m = "(memory_new (\<lambda>_. 0))\<lparr>d_resp := [(0, (0x10000, 0x10000))], d_mshr := [0x10000 \<mapsto> []]\<rparr>"
  let ?i = "sample_request\<lparr>md_op := WRITE, md_tagin := 0x10000, md_din := 7\<rparr>"
  have t: "tagged (\<lambda>a. d_mshr ?m a \<noteq> None) (d_out ?m)"
    by (auto simp: tagged_def outstanding_def memory_new_def mem_size_def split: if_splits)
  have "\<exists>m'. mem_work pick_first 0 ?i ?m = Inr m' \<and> md_ready m' \<and> md_tagout m' = 0x10000"
    by (simp add: mem_work_def mem_i_answer_def mem_d_answer_def mem_i_request_def mem_d_request_def
      and_then_def sample_request_def memory_new_def bucket_get_def bucket_add_def mem_d_read_def mem_d_write_def
      d_latency_def d_victim_def lru_get_def lru_put_def lru_new_def no_victim_def mem_size_def release_def)
  then obtain m' where m': "mem_work pick_first 0 ?i ?m = Inr m'" "md_ready m'" "md_tagout m' = 0x10000" by blast
  have zero: "mem_d_read (mem ?m) 0x10000 = Inr 0"
  proof -
    have "word_rcat (replicate 8 (0 :: byte)) = (0 :: quad)"
      by (rule bit_word_eqI) (simp add: bit_word_rcat)
    then show ?thesis by (simp add: mem_d_read_def memory_new_def map_replicate_const)
  qed
  have "\<not> mm_reset ?i" "md_op ?i = WRITE" "signed (md_tagout m') = md_addr ?i"
    using m'(3) by (simp_all add: sample_request_def)
  from answer_precedes_store [OF tie_break_first t this(1,2) m'(1,2) this(3)] zero m'(1)
  show ?thesis by (simp add: sample_request_def)
qed

end
