(* ===== verification/GuestC.thy ===== *)
theory GuestC
  imports Memory "HOL-Library.Signed_Division"
begin

text \<open>
  What the guest programs of \<^verbatim>\<open>core-project/prog2\<close> use of C: arithmetic on \<^verbatim>\<open>long long\<close>, whose
  overflow and division by zero are undefined, arrays, whose use out of bounds is, and loops over an
  index. A value of type \<^verbatim>\<open>long long\<close> is the integer it stands for; every operation checks that its
  result is one.
\<close>

definition checked :: "int \<Rightarrow> fault + int" where
  "checked v = (if - (2 ^ 63) \<le> v \<and> v < 2 ^ 63 then Inr v else Inl Undefined_behaviour)"

definition c_add :: "int \<Rightarrow> int \<Rightarrow> fault + int" where
  "c_add a b = checked (a + b)"

definition c_sub :: "int \<Rightarrow> int \<Rightarrow> fault + int" where
  "c_sub a b = checked (a - b)"

definition c_mul :: "int \<Rightarrow> int \<Rightarrow> fault + int" where
  "c_mul a b = checked (a * b)"

definition c_div :: "int \<Rightarrow> int \<Rightarrow> fault + int" where
  "c_div a b = (if b = 0 then Inl Undefined_behaviour else checked (a sdiv b))"

definition c_mod :: "int \<Rightarrow> int \<Rightarrow> fault + int" where
  "c_mod a b = (if b = 0 then Inl Undefined_behaviour else checked (a smod b))"

definition arr_load :: "'a list \<Rightarrow> nat \<Rightarrow> fault + 'a" where
  "arr_load xs i = (if i < length xs then Inr (xs ! i) else Inl Undefined_behaviour)"

definition arr_store :: "'a list \<Rightarrow> nat \<Rightarrow> 'a \<Rightarrow> fault + 'a list" where
  "arr_store xs i v = (if i < length xs then Inr (xs[i := v]) else Inl Undefined_behaviour)"

text \<open>A loop that runs its body once for each of the indices, in their order.\<close>

fun for_each :: "('i \<Rightarrow> 's \<Rightarrow> fault + 's) \<Rightarrow> 'i list \<Rightarrow> 's \<Rightarrow> fault + 's" where
  "for_each body [] s = Inr s"
| "for_each body (i # is) s = and_then (body i s) (for_each body is)"

subsection \<open>Running it\<close>

lemma and_then_run [simp]: "and_then (Inr x) f = f x" "and_then (Inl e) f = Inl e"
  by (simp_all add: and_then_def)

lemma and_then_assoc: "and_then (and_then r f) g = and_then r (\<lambda>x. and_then (f x) g)"
  by (simp add: and_then_def split: sum.split)

lemma checked_Inr [simp]: "- (2 ^ 63) \<le> v \<Longrightarrow> v < 2 ^ 63 \<Longrightarrow> checked v = Inr v"
  by (simp add: checked_def)

lemma c_div_nonneg: "0 \<le> a \<Longrightarrow> a < 2 ^ 63 \<Longrightarrow> 0 < b \<Longrightarrow> c_div a b = Inr (a div b)"
proof -
  assume a: "0 \<le> a" "a < 2 ^ 63" "0 < b"
  then have "a sdiv b = a div b" by (auto simp: signed_divide_int_def sgn_if)
  moreover have "0 \<le> a div b" "a div b < 2 ^ 63"
    using a pos_imp_zdiv_nonneg_iff [of b a] zdiv_mono2 [of a 1 b] by simp_all
  ultimately show ?thesis using a by (simp add: c_div_def checked_def)
qed

lemma c_mod_nonneg: "0 \<le> a \<Longrightarrow> 0 < b \<Longrightarrow> b \<le> 2 ^ 63 \<Longrightarrow> c_mod a b = Inr (a mod b)"
proof -
  assume a: "0 \<le> a" "0 < b" "b \<le> 2 ^ 63"
  then have "a smod b = a mod b" by (auto simp: signed_modulo_int_def sgn_if)
  moreover have "- (2 ^ 63) \<le> a mod b" "a mod b < 2 ^ 63"
    using a pos_mod_bound [of b a] pos_mod_sign [of b a] by linarith+
  ultimately show ?thesis using a by (simp add: c_mod_def checked_def)
qed

lemma arr_load_middle [simp]: "length xs = i \<Longrightarrow> arr_load (xs @ y # ys) i = Inr y"
  by (auto simp: arr_load_def)

lemma arr_store_middle [simp]: "length xs = i \<Longrightarrow> arr_store (xs @ y # ys) i v = Inr (xs @ v # ys)"
  by (auto simp: arr_store_def)

lemma arr_load_Inr [simp]: "i < length xs \<Longrightarrow> arr_load xs i = Inr (xs ! i)"
  by (simp add: arr_load_def)

lemma arr_store_Inr [simp]: "i < length xs \<Longrightarrow> arr_store xs i v = Inr (xs[i := v])"
  by (simp add: arr_store_def)

lemma for_each_append: "for_each body (is @ js) s = and_then (for_each body is s) (for_each body js)"
  by (induction "is" arbitrary: s) (simp_all add: and_then_def split: sum.split)

end
