(* ===== verification/StackMemory.thy ===== *)
theory StackMemory
  imports Execute Stack TagPort GuestC
begin

text \<open>
  The memory as its clients see it: an interface of aligned words, the stack as a client of it, and the
  pushes and pops of the execute stage (\<^verbatim>\<open>execute.cc\<close>) against the bytes of \<^verbatim>\<open>memory.cc\<close>.
\<close>

subsection \<open>The interface\<close>

locale word_memory =
  fixes rd :: "'m \<Rightarrow> addr \<Rightarrow> 'f + quad"
    and wr :: "addr \<Rightarrow> quad \<Rightarrow> 'm \<Rightarrow> 'f + 'm"
    and aligned :: "addr \<Rightarrow> bool"
  assumes wr_total: "aligned a \<Longrightarrow> \<exists>m'. wr a v m = Inr m'"
    and rd_wr: "wr a v m = Inr m' \<Longrightarrow> aligned a' \<Longrightarrow> rd m' a' = (if a' = a then Inr v else rd m a')"
    and aligned_below: "aligned a \<Longrightarrow> aligned (a - 8)"

text \<open>Storing words below an address, the last one lowest, and reading words from an address up.\<close>

fun store_down :: "(addr \<Rightarrow> quad \<Rightarrow> 'm \<Rightarrow> 'f + 'm) \<Rightarrow> quad list \<Rightarrow> addr \<Rightarrow> 'm \<Rightarrow> 'f + 'm" where
  "store_down wr [] sp m = Inr m"
| "store_down wr (v # vs) sp m = and_then (wr (sp - 8) v m) (store_down wr vs (sp - 8))"

fun load_up :: "('m \<Rightarrow> addr \<Rightarrow> 'f + quad) \<Rightarrow> nat \<Rightarrow> addr \<Rightarrow> 'm \<Rightarrow> 'f + quad list" where
  "load_up rd 0 sp m = Inr []"
| "load_up rd (Suc n) sp m = and_then (rd m sp) (\<lambda>v. and_then (load_up rd n (sp + 8) m) (\<lambda>vs. Inr (v # vs)))"

lemma store_down_snoc: "store_down wr (vs @ [v]) sp m =
   and_then (store_down wr vs sp m) (wr (sp - 8 * word_of_nat (Suc (length vs))) v)"
proof (induction vs arbitrary: sp m)
  case (Cons w vs)
  have sp: "sp - 8 - 8 * word_of_nat (Suc (length vs)) = sp - 8 * word_of_nat (Suc (length (w # vs)))" by (simp add: algebra_simps)
  have "store_down wr (vs @ [v]) (sp - 8) =
      (\<lambda>m. and_then (store_down wr vs (sp - 8) m) (wr (sp - 8 * word_of_nat (Suc (length (w # vs)))) v))"
    unfolding sp [symmetric] by (rule ext) (rule Cons.IH)
  then show ?case by (simp only: append_Cons store_down.simps and_then_assoc)
qed (simp add: and_then_def split: sum.split)

context word_memory
begin

lemma aligned_down: "aligned sp \<Longrightarrow> aligned (sp - 8 * word_of_nat n)"
proof (induction n)
  case (Suc n)
  then have "aligned (sp - 8 * word_of_nat n - 8)" using aligned_below by blast
  then show ?case by (simp add: algebra_simps)
qed simp

lemma load_up_other:
  assumes "wr a v m = Inr m'" and "\<And>k. k < n \<Longrightarrow> aligned (sp + 8 * word_of_nat k) \<and> sp + 8 * word_of_nat k \<noteq> a"
  shows "load_up rd n sp m' = load_up rd n sp m"
  using assms(2)
proof (induction n arbitrary: sp)
  case (Suc n)
  have "aligned sp \<and> sp \<noteq> a" using Suc.prems [of 0] by simp
  then have "rd m' sp = rd m sp" using rd_wr [OF assms(1)] by simp
  moreover have "load_up rd n (sp + 8) m' = load_up rd n (sp + 8) m"
  proof (rule Suc.IH)
    fix k assume "k < n"
    then show "aligned (sp + 8 + 8 * word_of_nat k) \<and> sp + 8 + 8 * word_of_nat k \<noteq> a"
      using Suc.prems [of "Suc k"] by (simp add: algebra_simps)
  qed
  ultimately show ?case by simp
qed simp

text \<open>Words stored downwards are read back upwards in the opposite order.\<close>

lemma last_in_first_out:
  assumes "aligned sp" "8 * length vs < 2 ^ 64" "store_down wr vs sp m = Inr m'"
  shows "load_up rd (length vs) (sp - 8 * word_of_nat (length vs)) m' = Inr (rev vs)"
  using assms(2,3)
proof (induction vs arbitrary: m' rule: rev_induct)
  case (snoc v vs)
  let ?a = "sp - 8 * word_of_nat (Suc (length vs))"
  from snoc.prems(2) obtain m1 where m1: "store_down wr vs sp m = Inr m1" "wr ?a v m1 = Inr m'"
    by (auto simp: store_down_snoc)
  have up: "?a + 8 = sp - 8 * word_of_nat (length vs)" by (simp add: algebra_simps)
  have "rd m' ?a = Inr v" using rd_wr [OF m1(2) aligned_down [OF assms(1)], of "Suc (length vs)"] by simp
  moreover have "load_up rd (length vs) (?a + 8) m' = load_up rd (length vs) (?a + 8) m1"
  proof (rule load_up_other [OF m1(2)])
    fix k assume k: "k < length vs"
    have "?a + 8 + 8 * word_of_nat k = sp - 8 * word_of_nat (length vs - k)"
      using k by (simp add: of_nat_diff algebra_simps)
    moreover have "?a + 8 + 8 * word_of_nat k \<noteq> ?a"
    proof
      assume "?a + 8 + 8 * word_of_nat k = ?a"
      then have "word_of_nat (8 * Suc k) = (0 :: addr)" by (simp add: algebra_simps)
      then have "unat (word_of_nat (8 * Suc k) :: addr) = 0" by simp
      then show False using k snoc.prems(1) by (simp only: unat_of_nat_64) simp
    qed
    ultimately show "aligned (?a + 8 + 8 * word_of_nat k) \<and> ?a + 8 + 8 * word_of_nat k \<noteq> ?a"
      using aligned_down [OF assms(1)] by metis
  qed
  ultimately show ?case using snoc.IH [OF _ m1(1)] snoc.prems(1) up by simp
qed simp

text \<open>The word at the address above the stored ones stays as it was.\<close>

lemma frame_below:
  assumes "aligned sp" "8 * length vs < 2 ^ 64" "store_down wr vs sp m = Inr m'"
  shows "rd m' sp = rd m sp"
  using assms(2,3)
proof (induction vs arbitrary: m' rule: rev_induct)
  case (snoc v vs)
  let ?a = "sp - 8 * word_of_nat (Suc (length vs))"
  from snoc.prems(2) obtain m1 where m1: "store_down wr vs sp m = Inr m1" "wr ?a v m1 = Inr m'"
    by (auto simp: store_down_snoc)
  have "sp \<noteq> ?a"
  proof
    assume "sp = ?a"
    then have "word_of_nat (8 * Suc (length vs)) = (0 :: addr)" by (simp add: algebra_simps)
    then have "unat (word_of_nat (8 * Suc (length vs)) :: addr) = 0" by simp
    then show False using snoc.prems(1) by (simp only: unat_of_nat_64) simp
  qed
  then show ?case using rd_wr [OF m1(2) assms(1)] snoc.IH [OF _ m1(1)] snoc.prems(1) by simp
qed simp

lemma store_down_total: "aligned sp \<Longrightarrow> \<exists>m'. store_down wr vs sp m = Inr m'"
proof (induction vs arbitrary: sp m)
  case (Cons v vs)
  obtain m1 where "wr (sp - 8) v m = Inr m1" using wr_total aligned_below [OF Cons.prems] by blast
  with Cons.IH [OF aligned_below [OF Cons.prems], of m1] show ?case by simp
qed simp

end

interpretation words: word_memory mem_d_read mem_d_write "\<lambda>a. a mod 8 = 0"
proof unfold_locales
  fix a :: addr and v :: quad and m :: "addr \<Rightarrow> byte"
  assume "a mod 8 = 0"
  then show "\<exists>m'. mem_d_write a v m = Inr m'" by (simp add: mem_d_write_def)
next
  fix a a' :: addr and v :: quad and m m' :: "addr \<Rightarrow> byte"
  assume "mem_d_write a v m = Inr m'" "a' mod 8 = 0"
  then show "mem_d_read m' a' = (if a' = a then Inr v else mem_d_read m a')" by (rule mem_d_read_write)
next
  fix a :: addr
  assume "a mod 8 = 0"
  then have "uint a mod 8 = 0" by (simp add: uint_0_iff [symmetric] uint_mod)
  moreover have "uint ((a - 8) mod 8) = (uint a - 8) mod 2 ^ 64 mod 8"
    by (simp add: uint_mod uint_word_ariths)
  moreover have "(uint a - 8) mod 2 ^ 64 mod 8 = (uint a - 8) mod 8" by (rule mod_mod_cancel) simp
  ultimately show "(a - 8) mod 8 = 0" by (simp add: uint_0_iff [symmetric])
qed


subsection \<open>Calls and returns through the memory\<close>

text \<open>C15: a call stores its return address in the memory and, whatever the callee stores below it on the
  stack, a return that executes with the stack pointer of the call reads it back, continues behind the call
  and leaves the stack pointer as it was before.\<close>

theorem return_address_survives:
  assumes "exec_accepts i1 x1 g1" and "c = fwd_op x1 (offsetreg_value g1) (hd (de_uop_queue g1))"
    and "opcode c = UD_Icall" "src c = IMMED" "reg2 c = UD_NONE"
    and "exec_work h i1 (x1, p1, g1) = Inr (x2, p2, g2)"
    and "mem_d_write (d_addr p2) (d_dout p2) bytes = Inr bytes'"
    and "store_down mem_d_write frame (stackpointer x2) bytes' = Inr bytes''" "8 * length frame < 2 ^ 64"
    and "exec_accepts i3 x3 g3" "stackpointer x3 = stackpointer x2"
    and "opcode (hd (de_uop_queue g3)) = UD_Iret" "reg3 (hd (de_uop_queue g3)) = UD_R_RSP"
    and "exec_work h i3 (x3, p3, g3) = Inr (x4, p4, g4)"
    and "\<not> in_reset i5" "\<not> in_clear i5" "d_ready i5"
    and "d_tagout i5 = d_tagin p4" "mem_d_read bytes'' (d_addr p4) = Inr (d_data i5)"
    and "0 < sint (value3 c - 8)" "sint (value3 c - 8) < 2 ^ 31"
  shows "\<exists>x5 p5 g5. exec_work h i5 (x4, p4, g4) = Inr (x5, p5, g5) \<and>
      change_RIP p5 \<and> new_RIP p5 = next_addr c \<and> expected_addr x5 = next_addr c \<and>
      stackpointer x5 = value3 c"
proof -
  have two: "d_addr p2 = value3 c - 8" "d_dout p2 = next_addr c" "stackpointer x2 = value3 c - 8"
    using exec_work_call [OF assms(1-4), of h p1] assms(5,6) by auto
  have al: "d_addr p2 mod 8 = 0" using assms(7) by (auto simp: mem_d_write_def split: if_splits)
  have "mem_d_read bytes'' (d_addr p2) = mem_d_read bytes' (d_addr p2)"
    using words.frame_below [OF al assms(9)] assms(8) two by simp
  then have "mem_d_read bytes'' (d_addr p2) = Inr (d_dout p2)"
    using mem_d_read_write [OF assms(7) al] by simp
  then have "d_data i5 = (if d_addr p4 = d_addr p2 then d_dout p2 else d_data i5)" using assms(19) by auto
  from call_ret_returns [OF assms(1-6,10-14,15-18) this assms(20,21)] show ?thesis .
qed

theorem return_address_survives_witness:
  "\<exists>x2 p2 g2 bytes1 bytes2 x4 p4 g4 x5 p5 g5.
     exec_work sample_host sample_in (exec_init False 4096 uop_empty, exec_ports_init, globals_init\<lparr>de_uop_queue :=
       [uop_empty\<lparr>opcode := UD_Icall, src := IMMED, address := 0x1000, opsize := 5, reg3 := UD_R_RSP,
         value1 := 64\<rparr>]\<rparr>) = Inr (x2, p2, g2) \<and>
     mem_d_write (d_addr p2) (d_dout p2) (\<lambda>_. 0) = Inr bytes1 \<and>
     store_down mem_d_write [7, 8] (stackpointer x2) bytes1 = Inr bytes2 \<and>
     exec_work sample_host sample_in (exec_init False 4088 uop_empty, exec_ports_init,
       globals_init\<lparr>de_uop_queue := [uop_empty\<lparr>opcode := UD_Iret, reg3 := UD_R_RSP\<rparr>]\<rparr>) = Inr (x4, p4, g4) \<and>
     exec_work sample_host (sample_in\<lparr>d_data := 0x1005\<rparr>) (x4, p4, g4) = Inr (x5, p5, g5) \<and>
     new_RIP p5 = 0x1005 \<and> stackpointer x5 = 4096"
proof -
  let ?u = "uop_empty\<lparr>opcode := UD_Icall, src := IMMED, address := 0x1000, opsize := 5, reg3 := UD_R_RSP,
     value1 := 64\<rparr>"
  let ?x1 = "exec_init False 4096 uop_empty"
  let ?g1 = "globals_init\<lparr>de_uop_queue := [?u]\<rparr>"
  let ?x3 = "exec_init False 4088 uop_empty"
  let ?g3 = "globals_init\<lparr>de_uop_queue := [uop_empty\<lparr>opcode := UD_Iret, reg3 := UD_R_RSP\<rparr>]\<rparr>"
  let ?c = "fwd_op ?x1 0 ?u"
  let ?p = "exec_ports_init\<lparr>out_ready := False, change_RIP := False\<rparr>"
  have acc: "exec_accepts sample_in ?x1 ?g1" "exec_accepts sample_in ?x3 ?g3"
    by (simp_all add: exec_accepts_def sample_in_def exec_init_def globals_init_def)
  have c: "opcode ?c = UD_Icall" "src ?c = IMMED" "reg2 ?c = UD_NONE" "next_addr ?c = 0x1005"
    "value3 ?c = 4096"
    by (simp_all add: next_addr_def fwd_op_value3 exec_init_def uop_empty_def)
  obtain x2 p2 g2 where call: "exec_work sample_host sample_in (?x1, exec_ports_init, ?g1) = Inr (x2, p2, g2)"
      "d_addr p2 = 4088" "d_dout p2 = 0x1005" "stackpointer x2 = 4088"
    using exec_work_call [OF acc(1), of ?c sample_host exec_ports_init] c by (auto simp: globals_init_def)
  have al: "(4088 :: addr) mod 8 = 0" by simp
  obtain bytes1 bytes2 where mem: "mem_d_write 4088 0x1005 (\<lambda>_. 0) = Inr bytes1"
      "store_down mem_d_write [7, 8] 4088 bytes1 = Inr bytes2"
    using words.wr_total [OF al] words.store_down_total [OF al] by blast
  have rd: "mem_d_read bytes2 4088 = Inr 0x1005"
    using words.frame_below [OF al _ mem(2)] mem_d_read_write [OF mem(1) al] by simp
  have ret: "exec_work sample_host sample_in (?x3, exec_ports_init, ?g3) =
      Inr ((exec_front ?x3 ?g3)\<lparr>ex_state := STATE_READ\<rparr>, issue READ 4088 ?p,
        ?g3\<lparr>de_uop_queue := fwd_queue ?x3 0 (de_uop_queue ?g3)\<rparr>)"
    by (subst exec_work_read [OF acc(2) _ refl refl])
      (simp_all add: fwd_op_value3 exec_init_def globals_init_def uop_empty_def)
  have fits: "0 < sint (value3 ?c - 8)" "sint (value3 ?c - 8) < 2 ^ 31" by (simp_all only: c) simp_all
  have "\<exists>x5 p5 g5. exec_work sample_host (sample_in\<lparr>d_data := 0x1005\<rparr>)
      ((exec_front ?x3 ?g3)\<lparr>ex_state := STATE_READ\<rparr>, issue READ 4088 ?p,
        ?g3\<lparr>de_uop_queue := fwd_queue ?x3 0 (de_uop_queue ?g3)\<rparr>) = Inr (x5, p5, g5) \<and>
      change_RIP p5 \<and> new_RIP p5 = next_addr ?c \<and> expected_addr x5 = next_addr ?c \<and>
      stackpointer x5 = value3 ?c"
    by (rule return_address_survives [where c = ?c and frame = "[7, 8]" and bytes' = bytes1 and bytes'' = bytes2
        and bytes = "\<lambda>_. 0", OF acc(1) _ c(1-3) call(1) _ _ _ acc(2) _ _ _ ret])
      (use fits call mem rd in \<open>simp_all add: sample_in_def exec_init_def globals_init_def issue_def\<close>)
  then obtain x5 p5 g5 where "exec_work sample_host (sample_in\<lparr>d_data := 0x1005\<rparr>)
      ((exec_front ?x3 ?g3)\<lparr>ex_state := STATE_READ\<rparr>, issue READ 4088 ?p,
        ?g3\<lparr>de_uop_queue := fwd_queue ?x3 0 (de_uop_queue ?g3)\<rparr>) = Inr (x5, p5, g5)"
      "new_RIP p5 = 0x1005" "stackpointer x5 = 4096"
    unfolding c by blast
  moreover have "mem_d_write (d_addr p2) (d_dout p2) (\<lambda>_. 0) = Inr bytes1"
      "store_down mem_d_write [7, 8] (stackpointer x2) bytes1 = Inr bytes2"
    using mem by (simp_all only: call)
  ultimately show ?thesis using ret call(1) by blast
qed

end
