(* ===== verification/Dispatch.thy ===== *)
theory Dispatch
  imports Common
begin

text \<open>
  The dispatch stage (\<^verbatim>\<open>core-project/dispatch.cc\<close>, \<^verbatim>\<open>dispatch.h\<close>): it takes the
  micro-operations of one instruction from the decode queue \<^verbatim>\<open>dd_uop_queue\<close>, reads their
  operands from the register file and appends them to the execute queue \<^verbatim>\<open>de_uop_queue\<close>.
  The definitions follow \<^verbatim>\<open>Dispatch::work\<close>: the three operand \<^verbatim>\<open>switch\<close> statements, the
  operands that an opcode implies, the loop, and the guards around it. The lemmas say which
  micro-operations one call moves and what operands they carry.
\<close>

record dispatch =
  disp_cyclecount :: cint
  disp_out_ready :: bool

text \<open>The constructor; the output port reads false before the first call.\<close>

definition dispatch_init :: dispatch where
  "dispatch_init = \<lparr>disp_cyclecount = 0, disp_out_ready = False\<rparr>"

subsection \<open>Reset\<close>

text \<open>\<^verbatim>\<open>reset_regfile\<close> clears every register but \<^verbatim>\<open>rip\<close>.\<close>

definition reset_regfile :: "ARF \<Rightarrow> ARF" where
  "reset_regfile f = f\<lparr>rax := 0, rbx := 0, rcx := 0, rdx := 0, rsp := 0, rbp := 0, rsi := 0,
     rdi := 0, r8 := 0, r9 := 0, r10 := 0, r11 := 0, r12 := 0, r13 := 0, r14 := 0, r15 := 0\<rparr>"

definition dispatch_do_reset :: "bool \<Rightarrow> globals \<Rightarrow> globals" where
  "dispatch_do_reset rst g =
     (if rst then g\<lparr>regfile := reset_regfile (regfile g), dd_uop_queue := []\<rparr> else g)"

subsection \<open>Operand values\<close>

text \<open>
  One \<^verbatim>\<open>switch\<close> of \<^verbatim>\<open>Dispatch::work\<close>: the register's content, the address of the next
  instruction for \<^verbatim>\<open>UD_R_RIP\<close>, and the old field value in the default case.
\<close>

definition operand_value :: "ARF \<Rightarrow> uop \<Rightarrow> reg \<Rightarrow> quad \<Rightarrow> quad" where
  "operand_value f u r old =
     (if r = UD_R_RIP then next_addr u
      else case arf_get f r of Some v \<Rightarrow> v | None \<Rightarrow> old)"

definition dispatch_operand1 :: "ARF \<Rightarrow> uop \<Rightarrow> uop" where
  "dispatch_operand1 f u =
     (if src u = REG \<or> src u = IMUL_2R \<or> src u = IMUL_3
      then u\<lparr>value1 := operand_value f u (reg1 u) (value1 u)\<rparr>
      else if src u = IMMED \<or> src u = IMUL_2I \<or> src u = LOADMUL
      then u\<lparr>reg1 := Scratchreg, value1 := immed u\<rparr>
      else u)"

definition dispatch_operand2 :: "ARF \<Rightarrow> uop \<Rightarrow> uop" where
  "dispatch_operand2 f u = u\<lparr>value2 := operand_value f u (reg2 u) (value2 u)\<rparr>"

definition dispatch_operand3 :: "ARF \<Rightarrow> uop \<Rightarrow> uop" where
  "dispatch_operand3 f u = u\<lparr>value3 := operand_value f u (reg3 u) (value3 u)\<rparr>"

text \<open>The operands that the opcode implies.\<close>

definition dispatch_implicit :: "ARF \<Rightarrow> uop \<Rightarrow> uop" where
  "dispatch_implicit f u =
     (if opcode u = UD_Icall \<or> opcode u = UD_Iret \<or> opcode u = UD_Ipop
         \<or> opcode u = UD_Ipush \<or> opcode u = UD_Ipushfq
      then u\<lparr>reg3 := UD_R_RSP, value3 := rsp f\<rparr>
      else if opcode u = UD_Imul \<or> opcode u = UD_Idiv \<or> opcode u = UD_Iidiv
      then u\<lparr>reg2 := UD_R_RAX, value2 := rax f, reg3 := UD_R_RDX, value3 := rdx f\<rparr>
      else if opcode u = UD_Inop
      then u\<lparr>reg1 := UD_NONE, reg2 := UD_NONE, reg3 := UD_NONE,
              value1 := 0, value2 := 0, value3 := 0\<rparr>
      else if opcode u = UD_Icqo
      then u\<lparr>reg1 := UD_R_RAX, value1 := rax f, reg2 := UD_R_RDX, value2 := 0\<rparr>
      else if opcode u = UD_Iimul
      then (if src u = IMUL_1
            then u\<lparr>reg2 := UD_R_RAX, value2 := rax f, reg3 := UD_R_RDX, value3 := rdx f\<rparr>
            else if src u = IMUL_3 \<and> reg3 u = UD_NONE
            then u\<lparr>reg3 := Scratchreg, value3 := immed u\<rparr>
            else u)
      else u)"

text \<open>The body of the loop for one micro-operation.\<close>

definition dispatch_uop :: "ARF \<Rightarrow> uop \<Rightarrow> uop" where
  "dispatch_uop f u =
     dispatch_implicit f (dispatch_operand3 f (dispatch_operand2 f (dispatch_operand1 f u)))"

subsection \<open>The loop and the handler\<close>

text \<open>
  The loop of \<^verbatim>\<open>Dispatch::work\<close>. Its guard compares the number \<^verbatim>\<open>i\<close> of micro-operations
  already moved with the number that is left in the queue, which each turn makes one smaller.
\<close>

function dispatch_loop :: "addr \<Rightarrow> nat \<Rightarrow> globals \<Rightarrow> globals" where
  "dispatch_loop front_addr i g =
     (case dd_uop_queue g of
        [] \<Rightarrow> g
      | u # rest \<Rightarrow>
          if i < length (dd_uop_queue g) \<and> address u = front_addr
          then dispatch_loop front_addr (Suc i)
                 (g\<lparr>de_uop_queue := de_uop_queue g @ [dispatch_uop (regfile g) u],
                    dd_uop_queue := rest\<rparr>)
          else g)"
  by pat_completeness auto
termination
  by (relation "measure (\<lambda>(a, i, g). length (dd_uop_queue g))") auto

declare dispatch_loop.simps [simp del]

definition dispatch_work ::
  "bool \<Rightarrow> bool \<Rightarrow> bool \<Rightarrow> dispatch \<Rightarrow> globals \<Rightarrow> dispatch \<times> globals" where
  "dispatch_work reset clear in_ready d g =
     (let d = d\<lparr>disp_cyclecount := disp_cyclecount d + 1, disp_out_ready := False\<rparr> in
      if reset then (d, g)
      else if clear then (d, g\<lparr>dd_uop_queue := []\<rparr>)
      else if \<not> in_ready then (d, g)
      else if dd_uop_queue g = [] then (d, g)
      else if length (de_uop_queue g) > 0 then (d\<lparr>disp_out_ready := True\<rparr>, g)
      else (d\<lparr>disp_out_ready := True\<rparr>,
            dispatch_loop (address (hd (dd_uop_queue g))) 0 g))"

subsection \<open>What the loop moves\<close>

text \<open>
  The number of micro-operations one call moves: the group at the front that has the first
  one's address, but never more than half of the queue (rounded up).
\<close>

definition dispatch_batch :: "uop list \<Rightarrow> nat" where
  "dispatch_batch q =
     min (length (takeWhile (\<lambda>u. address u = address (hd q)) q)) ((length q + 1) div 2)"

lemma dispatch_loop_effect:
  assumes "dd_uop_queue g = q"
  shows "dispatch_loop a i g =
    (let k = min (length (takeWhile (\<lambda>u. address u = a) q)) ((length q + 1 - i) div 2) in
     g\<lparr>de_uop_queue := de_uop_queue g @ map (dispatch_uop (regfile g)) (take k q),
       dd_uop_queue := drop k q\<rparr>)"
  using assms
proof (induction q arbitrary: i g)
  case Nil
  then show ?case by (simp add: dispatch_loop.simps [of a i g])
next
  case (Cons u q)
  let ?g = "g\<lparr>de_uop_queue := de_uop_queue g @ [dispatch_uop (regfile g) u], dd_uop_queue := q\<rparr>"
  show ?case
  proof (cases "i < length (u # q) \<and> address u = a")
    case True
    then have step: "dispatch_loop a i g = dispatch_loop a (Suc i) ?g"
      using Cons.prems by (simp add: dispatch_loop.simps [of a i g])
    have half: "(Suc (Suc (length q)) - i) div 2 = Suc ((length q - i) div 2)"
      using True by simp arith
    show ?thesis
      unfolding step using True
      by (subst Cons.IH) (simp_all add: half Let_def)
  next
    case False
    then have "min (length (takeWhile (\<lambda>u. address u = a) (u # q)))
                 ((length (u # q) + 1 - i) div 2) = 0"
      by auto
    with False Cons.prems show ?thesis
      by (auto simp add: dispatch_loop.simps [of a i g] Let_def)
  qed
qed

lemma dispatch_loop_batch:
  "dispatch_loop (address (hd (dd_uop_queue g))) 0 g =
     g\<lparr>de_uop_queue := de_uop_queue g
          @ map (dispatch_uop (regfile g)) (take (dispatch_batch (dd_uop_queue g)) (dd_uop_queue g)),
       dd_uop_queue := drop (dispatch_batch (dd_uop_queue g)) (dd_uop_queue g)\<rparr>"
  by (simp add: dispatch_loop_effect [OF refl] dispatch_batch_def Let_def)

subsection \<open>Frame facts\<close>

lemma dispatch_uop_fixed [simp]:
  "src (dispatch_uop f u) = src u"
  "address (dispatch_uop f u) = address u"
  "opcode (dispatch_uop f u) = opcode u"
  "immed (dispatch_uop f u) = immed u"
  "opsize (dispatch_uop f u) = opsize u"
  by (simp_all add: dispatch_uop_def dispatch_implicit_def dispatch_operand3_def
      dispatch_operand2_def dispatch_operand1_def)

lemma operand_value_gpr [simp]: "is_gpr r \<Longrightarrow> operand_value f u r old = the (arf_get f r)"
  using arf_get_is_gpr [of r f] by (auto simp: operand_value_def)

text \<open>The three operand steps establish their own operand and leave the others; the implied
  operands keep what was established.\<close>

lemma dispatch_operand1_frame [simp, frame]:
  "src (dispatch_operand1 f u) = src u" "opcode (dispatch_operand1 f u) = opcode u"
  "reg2 (dispatch_operand1 f u) = reg2 u" "value2 (dispatch_operand1 f u) = value2 u"
  "reg3 (dispatch_operand1 f u) = reg3 u" "value3 (dispatch_operand1 f u) = value3 u"
  by (simp_all add: dispatch_operand1_def)

lemma dispatch_operand2_frame [simp, frame]:
  "src (dispatch_operand2 f u) = src u" "opcode (dispatch_operand2 f u) = opcode u"
  "reg1 (dispatch_operand2 f u) = reg1 u" "value1 (dispatch_operand2 f u) = value1 u"
  "reg2 (dispatch_operand2 f u) = reg2 u"
  "reg3 (dispatch_operand2 f u) = reg3 u" "value3 (dispatch_operand2 f u) = value3 u"
  by (simp_all add: dispatch_operand2_def)

lemma dispatch_operand3_frame [simp, frame]:
  "src (dispatch_operand3 f u) = src u" "opcode (dispatch_operand3 f u) = opcode u"
  "reg1 (dispatch_operand3 f u) = reg1 u" "value1 (dispatch_operand3 f u) = value1 u"
  "reg2 (dispatch_operand3 f u) = reg2 u" "value2 (dispatch_operand3 f u) = value2 u"
  "reg3 (dispatch_operand3 f u) = reg3 u"
  by (simp_all add: dispatch_operand3_def)

lemma operand1_current:
  "src u \<in> {REG, IMUL_2R, IMUL_3} \<Longrightarrow> is_gpr (reg1 (dispatch_operand1 f u)) \<Longrightarrow>
   value1 (dispatch_operand1 f u) = the (arf_get f (reg1 (dispatch_operand1 f u)))"
  by (auto simp: dispatch_operand1_def)

lemma operand2_current:
  "is_gpr (reg2 u) \<Longrightarrow> value2 (dispatch_operand2 f u) = the (arf_get f (reg2 u))"
  by (simp add: dispatch_operand2_def)

lemma operand3_current:
  "is_gpr (reg3 u) \<Longrightarrow> value3 (dispatch_operand3 f u) = the (arf_get f (reg3 u))"
  by (simp add: dispatch_operand3_def)

lemma implicit_operand1:
  "src u \<in> {REG, IMUL_2R, IMUL_3} \<and> is_gpr (reg1 u) \<longrightarrow> value1 u = the (arf_get f (reg1 u)) \<Longrightarrow>
   is_gpr (reg1 (dispatch_implicit f u)) \<Longrightarrow>
   src u \<in> {REG, IMUL_2R, IMUL_3} \<or> opcode u = UD_Icqo \<Longrightarrow>
   value1 (dispatch_implicit f u) = the (arf_get f (reg1 (dispatch_implicit f u)))"
  by (auto simp: dispatch_implicit_def)

lemma implicit_operand2:
  "is_gpr (reg2 u) \<longrightarrow> value2 u = the (arf_get f (reg2 u)) \<Longrightarrow>
   is_gpr (reg2 (dispatch_implicit f u)) \<Longrightarrow>
   value2 (dispatch_implicit f u) =
     (if opcode u = UD_Icqo then 0 else the (arf_get f (reg2 (dispatch_implicit f u))))"
  by (auto simp: dispatch_implicit_def)

lemma implicit_operand3:
  "is_gpr (reg3 u) \<longrightarrow> value3 u = the (arf_get f (reg3 u)) \<Longrightarrow>
   is_gpr (reg3 (dispatch_implicit f u)) \<Longrightarrow>
   value3 (dispatch_implicit f u) = the (arf_get f (reg3 (dispatch_implicit f u)))"
  by (auto simp: dispatch_implicit_def)

lemma dispatch_batch_le: "dispatch_batch q \<le> length q"
  by (simp add: dispatch_batch_def le_trans [OF min.cobounded1 length_takeWhile_le])

lemma dispatch_batch_pos: "q \<noteq> [] \<Longrightarrow> 0 < dispatch_batch q"
  by (cases q) (simp_all add: dispatch_batch_def)

subsection \<open>Properties\<close>

text \<open>C22: one call of the handler that is enabled (no reset or clear, decode ready, execute queue
  empty) moves exactly the first \<open>dispatch_batch\<close> micro-operations, in order and with their
  operands read, and touches nothing else.\<close>

theorem dispatch_work_moves:
  assumes "dd_uop_queue g \<noteq> []" and "de_uop_queue g = []"
  shows "dispatch_work False False True d g =
    (d\<lparr>disp_cyclecount := disp_cyclecount d + 1, disp_out_ready := True\<rparr>,
     g\<lparr>de_uop_queue := map (dispatch_uop (regfile g))
          (take (dispatch_batch (dd_uop_queue g)) (dd_uop_queue g)),
       dd_uop_queue := drop (dispatch_batch (dd_uop_queue g)) (dd_uop_queue g)\<rparr>)"
  using assms by (simp add: dispatch_work_def dispatch_loop_batch Let_def)

theorem dispatch_work_moves_witness:
  "\<exists>g. dd_uop_queue g \<noteq> [] \<and> de_uop_queue g = [] \<and>
     de_uop_queue (snd (dispatch_work False False True dispatch_init g)) =
       [dispatch_uop ARF_zero uop_empty]"
proof (intro exI conjI)
  let ?g = "globals_init\<lparr>dd_uop_queue := [uop_empty, uop_empty]\<rparr>"
  show q: "dd_uop_queue ?g \<noteq> []" and e: "de_uop_queue ?g = []"
    by (simp_all add: globals_init_def)
  show "de_uop_queue (snd (dispatch_work False False True dispatch_init ?g)) =
          [dispatch_uop ARF_zero uop_empty]"
    by (subst dispatch_work_moves [OF q e]) (simp add: dispatch_batch_def globals_init_def)
qed

text \<open>The micro-operations of the instruction at the front of the decode queue are dispatched
  together exactly when they are at most half (rounded up) of the queue: an instruction that the
  decoder cracked into two or more micro-operations and that is alone in the queue is split over
  several calls, against the README's statement that all of them are pushed at once.\<close>

lemma dispatch_group_complete_iff:
  assumes "dd_uop_queue g = us @ rest" and "us \<noteq> []"
    and "\<forall>u \<in> set us. address u = a" and "\<forall>u \<in> set rest. address u \<noteq> a"
    and "de_uop_queue g = []"
  shows "de_uop_queue (snd (dispatch_work False False True d g)) = map (dispatch_uop (regfile g)) us
         \<longleftrightarrow> length us \<le> length rest + 1"
proof -
  have hd: "address (hd (us @ rest)) = a" using assms(2,3) by (cases us) auto
  have "takeWhile (\<lambda>u. address u = a) (us @ rest) = us"
    using assms(3,4) by (cases rest) (simp_all add: takeWhile_tail)
  then have k: "dispatch_batch (us @ rest) = min (length us) ((length us + length rest + 1) div 2)"
    by (simp add: dispatch_batch_def hd)
  have ne: "dd_uop_queue g \<noteq> []" using assms(1,2) by simp
  have "de_uop_queue (snd (dispatch_work False False True d g)) =
          map (dispatch_uop (regfile g)) (take (dispatch_batch (us @ rest)) us)"
    using ne dispatch_loop_batch [of g] by (simp add: dispatch_work_def Let_def assms(1,5) k)
  moreover have "map (dispatch_uop (regfile g)) (take (dispatch_batch (us @ rest)) us) =
      map (dispatch_uop (regfile g)) us \<longleftrightarrow> length us \<le> dispatch_batch (us @ rest)"
    by (metis length_map length_take min.absorb_iff1 take_all)
  ultimately show ?thesis by (simp add: k) arith
qed

text \<open>The micro-operation that reaches the execute queue carries current operands: whenever its
  second or third operand register is a general register, the operand's value is that register's
  content (for \<^verbatim>\<open>cqo\<close>, whose second operand is only written, it is 0), and so is the first
  operand's when the source kind is one that reads a register.\<close>

lemma dispatch_operands_current:
  "(is_gpr (reg2 (dispatch_uop f u)) \<longrightarrow>
      value2 (dispatch_uop f u) =
        (if opcode u = UD_Icqo then 0 else the (arf_get f (reg2 (dispatch_uop f u)))))
   \<and> (is_gpr (reg3 (dispatch_uop f u)) \<longrightarrow>
        value3 (dispatch_uop f u) = the (arf_get f (reg3 (dispatch_uop f u))))
   \<and> (is_gpr (reg1 (dispatch_uop f u)) \<and>
        (src u \<in> {REG, IMUL_2R, IMUL_3} \<or> opcode u = UD_Icqo) \<longrightarrow>
        value1 (dispatch_uop f u) = the (arf_get f (reg1 (dispatch_uop f u))))"
proof (intro conjI impI)
  assume "is_gpr (reg2 (dispatch_uop f u))"
  then show "value2 (dispatch_uop f u) =
      (if opcode u = UD_Icqo then 0 else the (arf_get f (reg2 (dispatch_uop f u))))"
    unfolding dispatch_uop_def by (subst implicit_operand2) (simp_all add: operand2_current)
next
  assume "is_gpr (reg3 (dispatch_uop f u))"
  then show "value3 (dispatch_uop f u) = the (arf_get f (reg3 (dispatch_uop f u)))"
    unfolding dispatch_uop_def by (subst implicit_operand3) (simp_all add: operand3_current)
next
  assume "is_gpr (reg1 (dispatch_uop f u)) \<and>
    (src u \<in> {REG, IMUL_2R, IMUL_3} \<or> opcode u = UD_Icqo)"
  then show "value1 (dispatch_uop f u) = the (arf_get f (reg1 (dispatch_uop f u)))"
    unfolding dispatch_uop_def by (intro implicit_operand1) (auto simp: operand1_current)
qed

text \<open>For the one-operand \<^verbatim>\<open>imul\<close> the source register is not read: the value field of the
  first operand leaves dispatch as the decoder left it, whatever the register file holds.\<close>

lemma dispatch_imul1_source_not_read:
  assumes "opcode u = UD_Iimul" and "src u = IMUL_1"
  shows "value1 (dispatch_uop f u) = value1 u \<and> reg1 (dispatch_uop f u) = reg1 u"
  using assms
  by (simp add: dispatch_uop_def dispatch_implicit_def dispatch_operand3_def
      dispatch_operand2_def dispatch_operand1_def)

end
