(* ===== verification/Writeback.thy ===== *)
theory Writeback
  imports Common
begin

text \<open>
  The writeback stage (\<^verbatim>\<open>core-project/writeback.cc\<close>, \<^verbatim>\<open>writeback.h\<close>): each call retires
  the micro-operation at the front of \<^verbatim>\<open>ew_uop_queue\<close> into the register file. The lemmas
  describe one retirement register by register, and what a whole queue of them leaves behind.
\<close>

record writeback =
  wb_cyclecount :: cint

definition writeback_init :: writeback where
  "writeback_init = \<lparr>wb_cyclecount = 0\<rparr>"

definition writeback_do_reset :: "bool \<Rightarrow> globals \<Rightarrow> globals" where
  "writeback_do_reset rst g = (if rst then g\<lparr>ew_uop_queue := []\<rparr> else g)"

subsection \<open>Retiring one micro-operation\<close>

text \<open>The destination register, after \<^verbatim>\<open>rip\<close> has been set to the next address.\<close>

definition retire_reg2 :: "uop \<Rightarrow> ARF \<Rightarrow> ARF" where
  "retire_reg2 u f = arf_set (f\<lparr>rip := next_addr u\<rparr>) (reg2 u) (value2 u)"

text \<open>The registers an opcode writes besides its destination.\<close>

definition retire_implicit :: "uop \<Rightarrow> ARF \<Rightarrow> ARF" where
  "retire_implicit u f =
     (if opcode u = UD_Icall \<or> opcode u = UD_Iret \<or> opcode u = UD_Ipop
      then f\<lparr>rsp := value3 u\<rparr>
      else if opcode u = UD_Imul \<or> opcode u = UD_Idiv \<or> opcode u = UD_Iidiv \<or> src u = IMUL_1
      then f\<lparr>rax := value2 u, rdx := value3 u\<rparr>
      else f)"

definition retire :: "uop \<Rightarrow> ARF \<Rightarrow> ARF" where
  "retire u f = retire_implicit u (retire_reg2 u f)"

definition writeback_work ::
  "bool \<Rightarrow> bool \<Rightarrow> writeback \<Rightarrow> globals \<Rightarrow> writeback \<times> globals" where
  "writeback_work reset in_ready w g =
     (let w = w\<lparr>wb_cyclecount := wb_cyclecount w + 1\<rparr> in
      if reset then (w, g)
      else if \<not> in_ready then (w, g)
      else case ew_uop_queue g of
             [] \<Rightarrow> (w, g)
           | u # rest \<Rightarrow> (w, g\<lparr>regfile := retire u (regfile g), ew_uop_queue := rest\<rparr>))"

subsection \<open>The registers one retirement writes\<close>

text \<open>In the order of the writes, oldest first.\<close>

definition retire_writes :: "uop \<Rightarrow> (reg \<times> quad) list" where
  "retire_writes u =
     (reg2 u, value2 u) #
     (if opcode u = UD_Icall \<or> opcode u = UD_Iret \<or> opcode u = UD_Ipop
      then [(UD_R_RSP, value3 u)]
      else if opcode u = UD_Imul \<or> opcode u = UD_Idiv \<or> opcode u = UD_Iidiv \<or> src u = IMUL_1
      then [(UD_R_RAX, value2 u), (UD_R_RDX, value3 u)]
      else [])"

lemma arf_get_rip_update [simp]: "arf_get (f\<lparr>rip := v\<rparr>) r = arf_get f r"
  by (cases r) simp_all

lemma retire_eq_writes:
  "retire u f = fold (\<lambda>(r, v) f. arf_set f r v) (retire_writes u) (f\<lparr>rip := next_addr u\<rparr>)"
  by (simp add: retire_def retire_reg2_def retire_implicit_def retire_writes_def)

lemma arf_get_retire:
  "arf_get (retire u f) r =
     (if is_gpr r
      then (case map_of (rev (retire_writes u)) r of None \<Rightarrow> arf_get f r | Some v \<Rightarrow> Some v)
      else None)"
  by (simp add: retire_eq_writes arf.get_put_all split: option.split)

subsection \<open>Retiring a whole queue\<close>

fun writeback_runs :: "nat \<Rightarrow> writeback \<Rightarrow> globals \<Rightarrow> writeback \<times> globals" where
  "writeback_runs 0 w g = (w, g)"
| "writeback_runs (Suc n) w g =
     (case writeback_work False True w g of (w', g') \<Rightarrow> writeback_runs n w' g')"

lemma writeback_runs_queue:
  "ew_uop_queue g = q \<Longrightarrow>
   snd (writeback_runs (length q) w g) = g\<lparr>regfile := fold retire q (regfile g), ew_uop_queue := []\<rparr>"
proof (induction q arbitrary: w g)
  case Nil
  then show ?case by simp
next
  case (Cons u q)
  then show ?case by (simp add: writeback_work_def Let_def)
qed

lemma arf_get_fold_retire:
  "arf_get (fold retire q f) r =
     (if is_gpr r
      then (case map_of (rev (concat (map retire_writes q))) r of
              None \<Rightarrow> arf_get f r | Some v \<Rightarrow> Some v)
      else None)"
proof (induction q arbitrary: f)
  case Nil
  then show ?case by (cases "arf_get f r") auto
next
  case (Cons u q)
  then show ?case
    by (auto simp: arf_get_retire map_add_def split: option.splits)
qed

subsection \<open>Properties\<close>

text \<open>C23: running writeback until the execute queue is empty leaves in every general register the
  value of the last write to it, over all the retired micro-operations in queue order, and the old
  content in a register none of them writes; the queue is empty and nothing else changes.\<close>

theorem writeback_last_write_wins:
  fixes g :: globals and w :: writeback
  defines "g' \<equiv> snd (writeback_runs (length (ew_uop_queue g)) w g)"
  shows "arf_get (regfile g') r =
      (if is_gpr r
       then (case map_of (rev (concat (map retire_writes (ew_uop_queue g)))) r of
               None \<Rightarrow> arf_get (regfile g) r | Some v \<Rightarrow> Some v)
       else None)
    \<and> g' = g\<lparr>regfile := regfile g', ew_uop_queue := []\<rparr>"
  unfolding g'_def by (simp add: writeback_runs_queue [OF refl] arf_get_fold_retire)

theorem writeback_last_write_wins_witness:
  "arf_get (regfile (snd (writeback_runs 2 writeback_init (globals_init\<lparr>ew_uop_queue :=
     [uop_empty\<lparr>opcode := UD_Imov, reg2 := UD_R_RBX, value2 := 3\<rparr>,
      uop_empty\<lparr>opcode := UD_Iadd, reg2 := UD_R_RBX, value2 := 8\<rparr>]\<rparr>)))) UD_R_RBX = Some 8"
  using writeback_last_write_wins [where r = UD_R_RBX and w = writeback_init and
    g = "globals_init\<lparr>ew_uop_queue :=
     [uop_empty\<lparr>opcode := UD_Imov, reg2 := UD_R_RBX, value2 := 3\<rparr>,
      uop_empty\<lparr>opcode := UD_Iadd, reg2 := UD_R_RBX, value2 := 8\<rparr>]\<rparr>"]
  by (simp add: retire_writes_def uop_empty_def numeral_2_eq_2)

text \<open>\<^verbatim>\<open>push\<close> moves the stack pointer in the execute stage only: its retirement leaves the
  register file's \<^verbatim>\<open>rsp\<close> where it was, unlike \<^verbatim>\<open>call\<close>, \<^verbatim>\<open>ret\<close> and \<^verbatim>\<open>pop\<close>, which
  store the moved pointer.\<close>

lemma writeback_push_keeps_rsp:
  assumes "ew_uop_queue g = u # rest" and "reg2 u \<noteq> UD_R_RSP"
  shows "rsp (regfile (snd (writeback_work False True w g))) =
    (if opcode u \<in> {UD_Icall, UD_Iret, UD_Ipop} then value3 u else rsp (regfile g))"
proof -
  have "arf_get (retire u (regfile g)) UD_R_RSP =
      Some (if opcode u \<in> {UD_Icall, UD_Iret, UD_Ipop} then value3 u else rsp (regfile g))"
    using assms(2) by (subst arf_get_retire) (auto simp: retire_writes_def)
  then show ?thesis using assms(1) by (simp add: writeback_work_def Let_def)
qed

end
