(* ===== verification/Pipeline.thy ===== *)
theory Pipeline
  imports Execute Dispatch Writeback "HOL-Library.Sublist"
begin

text \<open>
  The stages together (\<^verbatim>\<open>core-project/core_cse502.h\<close>). On a clock edge every stage's handler
  runs once, in an order that SystemC does not fix, and the three queues and the register file are
  plain globals, so a handler sees what the handlers before it did on the same edge. The step
  relation lets any handler run at any time, which covers every order. The signals are as the
  wiring has them: \<^verbatim>\<open>clear\<close> is driven by the execute stage, which reads it back one edge later;
  the other inputs are arbitrary, and so are the host's answers and its clock. Decode is represented by what it does to the shared state: it
  appends to the decode queue (\<open>decoder_work_total\<close>) and resets \<^verbatim>\<open>RIP_jump\<close>; fetch sets
  \<^verbatim>\<open>RIP_jump\<close> and the stack pointer. Reset is asserted before the first edge only.

  Two components of the state record what happened: the addresses of all micro-operations decoded
  so far and of all that were retired.
\<close>

record pipe =
  p_disp :: dispatch
  p_wb :: writeback
  p_ex :: exec
  p_ports :: exec_ports
  p_glob :: globals
  p_decoded :: "addr list"
  p_retired :: "addr list"

inductive pipe_step :: "pipe \<Rightarrow> pipe \<Rightarrow> bool" where
  step_fetch:
    "pipe_step s (s\<lparr>p_glob := (p_glob s)\<lparr>regfile := (regfile (p_glob s))\<lparr>rsp := v\<rparr>, RIP_jump := b\<rparr>\<rparr>)"
| step_decode:
    "pipe_step s (s\<lparr>p_glob := (p_glob s)\<lparr>dd_uop_queue := dd_uop_queue (p_glob s) @ us, RIP_jump := b\<rparr>,
                      p_decoded := p_decoded s @ map address us\<rparr>)"
| step_dispatch:
    "dispatch_work False clr rdy (p_disp s) (p_glob s) = (d', g') \<Longrightarrow>
     pipe_step s (s\<lparr>p_disp := d', p_glob := g'\<rparr>)"
| step_execute:
    "\<not> in_reset i \<Longrightarrow> in_clear i = clear_out (p_ports s) \<Longrightarrow>
     exec_work h i (p_ex s, p_ports s, p_glob s) = Inr (x', p', g') \<Longrightarrow>
     pipe_step s (s\<lparr>p_ex := x', p_ports := p', p_glob := g'\<rparr>)"
| step_writeback:
    "writeback_work False rdy (p_wb s) (p_glob s) = (w', g') \<Longrightarrow>
     pipe_step s (s\<lparr>p_wb := w', p_glob := g',
       p_retired := p_retired s @
         map address (take (length (ew_uop_queue (p_glob s)) - length (ew_uop_queue g'))
                           (ew_uop_queue (p_glob s)))\<rparr>)"

definition pipe_init :: "quad \<Rightarrow> bool \<Rightarrow> quad \<Rightarrow> uop \<Rightarrow> pipe" where
  "pipe_init brk rc sp u = \<lparr>p_disp = dispatch_init, p_wb = writeback_init, p_ex = exec_init rc sp u,
     p_ports = exec_ports_init, p_glob = globals_init\<lparr>brk_val := brk\<rparr>, p_decoded = [], p_retired = []\<rparr>"

inductive reachable :: "pipe \<Rightarrow> bool" where
  reach_init: "reachable (pipe_init brk rc sp u)"
| reach_step: "reachable s \<Longrightarrow> pipe_step s s' \<Longrightarrow> reachable s'"

subsection \<open>The execute stage keeps the order of its queue\<close>

text \<open>While the stage waits, the micro-operation it works on is the one at the front.\<close>

definition exec_order_inv :: "exec_state \<Rightarrow> bool" where
  "exec_order_inv s = (case s of (x, p, g) \<Rightarrow> exec_inv s \<and>
     (ex_state x = STATE_READ \<longrightarrow> address (Op x) = address (hd (de_uop_queue g))))"

lemma fwd_entry_address [simp]: "address (fwd_entry x u) = address u"
  by (simp add: fwd_entry_def Let_def)

lemma fwd_queue_addresses [simp]: "map address (fwd_queue x a us) = map address us"
  by (induction us) simp_all

lemma exec_switch_address:
  assumes "exec_switch h (x, p, g) = Inr (returned, x', p', g')"
  shows "address (Op x') = address (Op x) \<and> dd_uop_queue g' = dd_uop_queue g"
  using assms unfolding exec_switch_def Let_def split_conv
  by (auto split: sum.splits prod.splits if_split_asm
      dest!: do_syscall_frame do_jump_frame exec_call_frame exec_push_frame exec_wait_read_frame
        alu_step_keeps)

text \<open>What a call may do to the queues: append some of the front to the writeback queue, drop some.\<close>

definition keeps_order :: "globals \<Rightarrow> globals \<Rightarrow> bool" where
  "keeps_order g g' \<longleftrightarrow> dd_uop_queue g' = dd_uop_queue g \<and>
     (\<exists>us. ew_uop_queue g' = ew_uop_queue g @ us \<and>
           subseq (map address us @ map address (de_uop_queue g')) (map address (de_uop_queue g)))"

lemma keeps_order_same:
  "dd_uop_queue g' = dd_uop_queue g \<Longrightarrow> ew_uop_queue g' = ew_uop_queue g \<Longrightarrow>
   map address (de_uop_queue g') = map address (de_uop_queue g) \<Longrightarrow> keeps_order g g'"
  by (simp add: keeps_order_def)

lemma keeps_order_drop:
  "dd_uop_queue g' = dd_uop_queue g \<Longrightarrow> ew_uop_queue g' = ew_uop_queue g \<Longrightarrow>
   subseq (map address (de_uop_queue g')) (map address (de_uop_queue g)) \<Longrightarrow> keeps_order g g'"
  by (simp add: keeps_order_def)

lemma keeps_order_cleared: "keeps_order (g\<lparr>de_uop_queue := []\<rparr>) g' \<Longrightarrow> keeps_order g g'"
  by (auto simp: keeps_order_def dest!: list_emb_Nil2)

lemma keeps_order_move:
  assumes "dd_uop_queue g' = dd_uop_queue g" "ew_uop_queue g' = ew_uop_queue g @ [u]"
    and "de_uop_queue g \<noteq> []" "address u = address (hd (de_uop_queue g))"
    and "map address (de_uop_queue g') = tl (map address (de_uop_queue g))"
  shows "keeps_order g g'"
  unfolding keeps_order_def using assms by (cases "de_uop_queue g") auto

lemma exec_op_order:
  assumes "exec_op h (x, p, g) = Inr (x', p', g')" and "de_uop_queue g \<noteq> []"
    and "address (Op x) = address (hd (de_uop_queue g))" and "ex_state x = STATE_NORMAL"
  shows "keeps_order g g' \<and>
    (ex_state x' = STATE_READ \<longrightarrow> address (Op x') = address (hd (de_uop_queue g')))"
proof -
  let ?x = "x\<lparr>firstrun := False, Op := fwd_op x (offsetreg_value g) (Op x)\<rparr>"
  from assms(1) obtain returned x1 p1 g1 where
    sw: "exec_switch h (?x, p, g) = Inr (returned, x1, p1, g1)" and
    fin: "(x', p', g') = (if returned then (x1, p1, g1) else exec_epilogue (x1, p1, g1))"
    by (auto simp: exec_op_def split: sum.splits)
  note fr = exec_switch_frame [OF sw] and ad = exec_switch_address [OF sw]
  show ?thesis
  proof (cases returned)
    case True
    with fr ad fin assms(3) show ?thesis by (auto intro: keeps_order_same)
  next
    case False
    then have "exec_epilogue (x1, p1, g1) = (x', p', g')" using fin by simp
    then have "dd_uop_queue g' = dd_uop_queue g1" "ew_uop_queue g' = ew_uop_queue g1 @ [Op x1]"
      "de_uop_queue g' = tl (de_uop_queue g1)" "ex_state x' = ex_state x1"
      by (auto simp: exec_epilogue_def Let_def split: if_splits)
    then show ?thesis using fr ad False assms by (auto intro: keeps_order_move simp: map_tl)
  qed
qed

lemma exec_issue_order:
  assumes "exec_issue h i (x, p, g) = Inr (x', p', g')" and "ex_state x = STATE_NORMAL"
  shows "keeps_order g g' \<and>
    (ex_state x' = STATE_READ \<longrightarrow> address (Op x') = address (hd (de_uop_queue g')))"
proof (cases "\<not> in_ready i \<or> length (ew_uop_queue g) > 1 \<or> de_uop_queue g = []")
  case True
  then show ?thesis using assms
    by (auto simp: exec_issue_def intro: keeps_order_same split: if_splits list.splits)
next
  case False
  then obtain u us where q: "de_uop_queue g = u # us" by (cases "de_uop_queue g") auto
  define y where "y = (if address u = prev_addr x then x\<lparr>Op := u, expected_addr := address u\<rparr>
                       else x\<lparr>Op := u\<rparr>)"
  define k where "k = g\<lparr>de_uop_queue := fwd_queue y (address u) (u # us)\<rparr>"
  have st: "ex_state y = STATE_NORMAL" "address (Op y) = address u" using assms(2) by (simp_all add: y_def)
  have ka: "map address (de_uop_queue k) = map address (de_uop_queue g)"
    unfolding k_def by (simp add: q del: fwd_queue.simps list.map) 
  have k: "de_uop_queue k \<noteq> []" "ew_uop_queue k = ew_uop_queue g" "dd_uop_queue k = dd_uop_queue g"
    by (simp_all add: k_def)
  have hd: "address (hd (de_uop_queue k)) = address u" by (simp add: k_def)
  have kg: "keeps_order k g'' \<Longrightarrow> keeps_order g g''" for g''
    using k ka by (simp add: keeps_order_def)
  have issue: "exec_issue h i (x, p, g) =
      (if address u \<noteq> expected_addr y \<and> \<not> firstrun y
       then Inr (y, p, k\<lparr>de_uop_queue := tl (de_uop_queue k)\<rparr>)
       else exec_op h (y, p, k))"
    using False q by (simp add: exec_issue_def Let_def k_def y_def)
  show ?thesis
  proof (cases "address u \<noteq> expected_addr y \<and> \<not> firstrun y")
    case True
    then have "x' = y" "p' = p" "g' = k\<lparr>de_uop_queue := tl (de_uop_queue k)\<rparr>"
      using assms(1) issue by simp_all
    moreover have "subseq (map address (tl (de_uop_queue k))) (map address (de_uop_queue g))"
      unfolding ka [symmetric] map_tl by (cases "map address (de_uop_queue k)") auto
    ultimately show ?thesis using st k by (auto intro: keeps_order_drop)
  next
    case op: False
    have "exec_op h (y, p, k) = Inr (x', p', g')" using assms(1) issue op by (simp only: if_False)
    from exec_op_order [OF this k(1)] st hd kg show ?thesis by simp
  qed
qed

lemma exec_complete_order:
  assumes "exec_complete u (x, p, g) = Inr (x', p', g')" and "address u = address (hd (de_uop_queue g))"
  shows "keeps_order g g' \<and> ex_state x' = STATE_NORMAL"
  using assms by (auto simp: exec_complete_def map_tl intro: keeps_order_move split: if_splits)

lemma read_order:
  assumes "read_ret i (x, p, g) = Inr (x', p', g') \<or> read_pop i (x, p, g) = Inr (x', p', g') \<or>
      read_load i (x, p, g) = Inr (x', p', g')"
    and "address (Op x) = address (hd (de_uop_queue g))"
  shows "keeps_order g g' \<and>
    (ex_state x' = STATE_READ \<longrightarrow> address (Op x') = address (hd (de_uop_queue g')))"
  using assms
  by (auto simp: read_ret_def read_pop_def read_load_def Let_def keeps_order_same
      dest!: exec_complete_order split: if_splits)

lemma exec_work_order:
  assumes "exec_order_inv (x, p, g)" and "\<not> in_reset i" and "in_clear i = clear_out p"
    and "exec_work h i (x, p, g) = Inr (x', p', g')"
  shows "exec_order_inv (x', p', g') \<and> keeps_order g g'"
proof -
  let ?x = "x\<lparr>cyclecount := cyclecount x + 1\<rparr>"
  let ?p = "p\<lparr>out_ready := False, change_RIP := False\<rparr>"
  have inv: "exec_inv (x, p, g)" and
    fr: "ex_state x = STATE_READ \<longrightarrow> address (Op ?x) = address (hd (de_uop_queue g))"
    using assms(1) by (simp_all add: exec_order_inv_def)
  have inv': "exec_inv (x', p', g')" by (rule exec_work_inv [OF inv _ assms(4)]) (simp add: assms(3))
  have "ex_state x \<in> {STATE_NORMAL, STATE_READ}" and clr: "in_clear i \<longrightarrow> ex_state x = STATE_NORMAL"
    and rd: "ex_state x = STATE_READ \<longrightarrow> opcode (Op x) \<in> {UD_Iret, UD_Ipop, UD_Iload}"
    using inv assms(3) by (simp_all add: exec_inv_def)
  then consider "in_clear i" "ex_state ?x = STATE_NORMAL" | "\<not> in_clear i" "ex_state x = STATE_READ"
    | "\<not> in_clear i" "ex_state ?x = STATE_NORMAL" by auto
  then have "keeps_order g g' \<and>
    (ex_state x' = STATE_READ \<longrightarrow> address (Op x') = address (hd (de_uop_queue g')))"
  proof cases
    case 1
    then have "exec_issue h i (?x, ?p\<lparr>clear_out := False\<rparr>, g\<lparr>de_uop_queue := []\<rparr>) = Inr (x', p', g')"
      using assms(2,4) by (simp add: exec_work_def)
    from exec_issue_order [OF this 1(2)] show ?thesis by (blast intro: keeps_order_cleared)
  next
    case 2
    with rd assms(2) assms(4) [unfolded exec_work_def split_conv Let_def]
    have "(x', p', g') = (?x, ?p, g) \<or> read_ret i (?x, ?p, g) = Inr (x', p', g') \<or>
        read_pop i (?x, ?p, g) = Inr (x', p', g') \<or> read_load i (?x, ?p, g) = Inr (x', p', g')"
      by (auto split: if_split_asm)
    with read_order [of i ?x ?p g x' p' g'] fr 2 show ?thesis by (auto intro: keeps_order_same)
  next
    case 3
    then have "exec_issue h i (?x, ?p, g) = Inr (x', p', g')"
      using assms(2,4) by (simp add: exec_work_def)
    from exec_issue_order [OF this 3(2)] show ?thesis .
  qed
  with inv' show ?thesis by (simp add: exec_order_inv_def)
qed

subsection \<open>The other stages\<close>

lemma dispatch_work_order:
  assumes "dispatch_work False clr rdy d g = (d', g')"
  shows "ew_uop_queue g' = ew_uop_queue g \<and>
    (de_uop_queue g \<noteq> [] \<longrightarrow> de_uop_queue g' = de_uop_queue g) \<and>
    subseq (map address (de_uop_queue g' @ dd_uop_queue g')) (map address (de_uop_queue g @ dd_uop_queue g))"
proof -
  let ?k = "dispatch_batch (dd_uop_queue g)"
  consider "g' = g" | "g' = g\<lparr>dd_uop_queue := []\<rparr>"
    | "de_uop_queue g = []" "g' = g\<lparr>de_uop_queue := map (dispatch_uop (regfile g)) (take ?k (dd_uop_queue g)),
        dd_uop_queue := drop ?k (dd_uop_queue g)\<rparr>"
  proof (cases "clr \<or> \<not> rdy \<or> dd_uop_queue g = [] \<or> de_uop_queue g \<noteq> []")
    case True
    then show ?thesis using assms that(1,2) by (simp add: dispatch_work_def Let_def split: if_split_asm)
  next
    case False
    then have "g' = dispatch_loop (address (hd (dd_uop_queue g))) 0 g"
      using assms by (simp add: dispatch_work_def Let_def)
    then show ?thesis using False that(3) by (simp add: dispatch_loop_batch)
  qed
  then show ?thesis
  proof cases
    case 3
    have "map address (map (dispatch_uop (regfile g)) (take ?k (dd_uop_queue g))) @ map address (drop ?k (dd_uop_queue g))
        = map address (dd_uop_queue g)"
      by (simp add: o_def flip: map_append)
    with 3 show ?thesis by simp
  next
    case 2
    have "subseq (map address (de_uop_queue g) @ []) (map address (de_uop_queue g) @ map address (dd_uop_queue g))"
      by (rule list_emb_append_mono) simp_all
    with 2 show ?thesis by simp
  qed simp_all
qed

lemma writeback_work_order:
  assumes "writeback_work False rdy w g = (w', g')"
  shows "de_uop_queue g' = de_uop_queue g \<and> dd_uop_queue g' = dd_uop_queue g \<and>
    take (length (ew_uop_queue g) - length (ew_uop_queue g')) (ew_uop_queue g) @ ew_uop_queue g' = ew_uop_queue g"
  using assms by (auto simp: writeback_work_def Let_def split: if_splits list.splits)

subsection \<open>The invariant of the pipeline\<close>

definition pipe_inv :: "pipe \<Rightarrow> bool" where
  "pipe_inv s \<longleftrightarrow> exec_order_inv (p_ex s, p_ports s, p_glob s) \<and>
     subseq (p_retired s @ map address (ew_uop_queue (p_glob s) @ de_uop_queue (p_glob s) @ dd_uop_queue (p_glob s)))
            (p_decoded s)"

lemma exec_order_inv_weaken:
  assumes "exec_order_inv (x, p, g)" and "length (ew_uop_queue g') \<le> length (ew_uop_queue g)"
    and "de_uop_queue g \<noteq> [] \<longrightarrow> de_uop_queue g' = de_uop_queue g"
  shows "exec_order_inv (x, p, g')"
  using assms by (auto simp: exec_order_inv_def exec_inv_def)

lemma pipe_inv_init: "pipe_inv (pipe_init brk rc sp u)"
  by (simp add: pipe_inv_def pipe_init_def exec_order_inv_def exec_inv_def exec_init_def
      exec_ports_init_def globals_init_def)

lemma pipe_inv_step:
  assumes "pipe_step s s'" and "pipe_inv s"
  shows "pipe_inv s'"
  using assms(1)
proof (cases rule: pipe_step.cases)
  case (step_fetch v b)
  then show ?thesis using assms(2)
    by (auto simp: pipe_inv_def intro: exec_order_inv_weaken)
next
  case (step_decode us b)
  have "exec_order_inv (p_ex s, p_ports s, p_glob s')"
    by (rule exec_order_inv_weaken [of _ _ "p_glob s"]) (use assms(2) step_decode in \<open>simp_all add: pipe_inv_def\<close>)
  moreover have "subseq ((p_retired s @ map address (ew_uop_queue (p_glob s) @ de_uop_queue (p_glob s)
      @ dd_uop_queue (p_glob s))) @ map address us) (p_decoded s @ map address us)"
    by (rule list_emb_append_mono) (use assms(2) in \<open>simp_all add: pipe_inv_def\<close>)
  ultimately show ?thesis using step_decode by (simp add: pipe_inv_def)
next
  case (step_dispatch clr rdy d' g')
  note ord = dispatch_work_order [OF step_dispatch(2)]
  have "exec_order_inv (p_ex s, p_ports s, g')"
    by (rule exec_order_inv_weaken [of _ _ "p_glob s"]) (use assms(2) ord in \<open>simp_all add: pipe_inv_def\<close>)
  moreover have "subseq ((p_retired s @ map address (ew_uop_queue (p_glob s))) @ map address (de_uop_queue g' @ dd_uop_queue g'))
      ((p_retired s @ map address (ew_uop_queue (p_glob s))) @ map address (de_uop_queue (p_glob s) @ dd_uop_queue (p_glob s)))"
    by (rule list_emb_append_mono) (use ord in simp_all)
  ultimately show ?thesis using assms(2) ord step_dispatch(1)
    by (auto simp: pipe_inv_def intro: subseq_order.order_trans)
next
  case (step_execute i h x' p' g')
  have "exec_order_inv (x', p', g')" and keep: "keeps_order (p_glob s) g'"
    using exec_work_order [OF _ step_execute(2-4)] assms(2) by (simp_all add: pipe_inv_def)
  moreover obtain us where us: "dd_uop_queue g' = dd_uop_queue (p_glob s)"
    "ew_uop_queue g' = ew_uop_queue (p_glob s) @ us"
    "subseq (map address us @ map address (de_uop_queue g')) (map address (de_uop_queue (p_glob s)))"
    using keep by (auto simp: keeps_order_def)
  have "subseq ((p_retired s @ map address (ew_uop_queue (p_glob s))) @ (map address us @ map address (de_uop_queue g')) @ map address (dd_uop_queue g'))
      ((p_retired s @ map address (ew_uop_queue (p_glob s))) @ map address (de_uop_queue (p_glob s)) @ map address (dd_uop_queue (p_glob s)))"
    by (intro list_emb_append_mono) (use us in simp_all)
  ultimately show ?thesis using assms(2) step_execute(1) us
    by (auto simp: pipe_inv_def intro: subseq_order.order_trans)
next
  case (step_writeback rdy w' g')
  note ord = writeback_work_order [OF step_writeback(2)]
  have "length (ew_uop_queue g') \<le> length (ew_uop_queue (p_glob s))"
    using ord by (metis length_append le_add2)
  then have "exec_order_inv (p_ex s, p_ports s, g')"
    using assms(2) ord by (auto simp: pipe_inv_def intro: exec_order_inv_weaken)
  moreover have "p_retired s' @ map address (ew_uop_queue g' @ de_uop_queue g' @ dd_uop_queue g') =
      (p_retired s' @ map address (ew_uop_queue g')) @ map address (de_uop_queue g' @ dd_uop_queue g')"
    by simp
  moreover have "p_retired s' @ map address (ew_uop_queue g') = p_retired s @ map address (ew_uop_queue (p_glob s))"
    using step_writeback(1) ord by (simp flip: map_append)
  ultimately have "p_retired s' @ map address (ew_uop_queue g' @ de_uop_queue g' @ dd_uop_queue g') =
      p_retired s @ map address (ew_uop_queue (p_glob s) @ de_uop_queue (p_glob s) @ dd_uop_queue (p_glob s))"
    using ord by simp
  moreover have "p_glob s' = g'" "p_ex s' = p_ex s" "p_ports s' = p_ports s" "p_decoded s' = p_decoded s"
    using step_writeback(1) by simp_all
  ultimately show ?thesis using assms(2) \<open>exec_order_inv (p_ex s, p_ports s, g')\<close>
    by (simp only: pipe_inv_def) 
qed

lemma reachable_inv: "reachable s \<Longrightarrow> pipe_inv s"
  by (induction rule: reachable.induct) (auto intro: pipe_inv_init pipe_inv_step)


subsection \<open>Properties\<close>

text \<open>C5: In every run of the stages the micro-operations that have been retired, followed by those
  still in the three queues, are a subsequence of those decoded: no stage reorders, repeats or
  invents a micro-operation, whatever the order of the handlers on an edge. A squashed or
  cleared one is only left out.\<close>

theorem pipeline_in_order:
  assumes "reachable s"
  shows "subseq (p_retired s @ map address (ew_uop_queue (p_glob s) @ de_uop_queue (p_glob s)
           @ dd_uop_queue (p_glob s))) (p_decoded s)"
  using reachable_inv [OF assms] by (simp add: pipe_inv_def)

lemma sample_run:
  "\<exists>s. reachable s \<and> p_retired s = [7] \<and> p_decoded s = [7]"
proof -
  let ?u = "uop_empty\<lparr>address := 7\<rparr>"
  define s1 where "s1 = (pipe_init 0 False 0 uop_empty)\<lparr>p_glob := globals_init\<lparr>dd_uop_queue := [?u], RIP_jump := False\<rparr>,
      p_decoded := [7]\<rparr>"
  have "pipe_step (pipe_init 0 False 0 uop_empty) s1"
    using step_decode [of "pipe_init 0 False 0 uop_empty" "[?u]" False]
    by (simp add: s1_def pipe_init_def globals_init_def)
  then have r1: "reachable s1" by (rule reach_step [OF reach_init])
  obtain d g where d: "dispatch_work False False True (p_disp s1) (p_glob s1) = (d, g)" by fastforce
  define v where "v = dispatch_uop ARF_zero ?u"
  have v: "address v = 7" "opcode v = UD_Inop" by (simp_all add: v_def) (simp add: uop_empty_def)
  have g: "de_uop_queue g = [v]" "ew_uop_queue g = []"
    using d by (auto simp: dispatch_work_def Let_def s1_def globals_init_def dispatch_loop_effect [OF refl] v_def)
  define s2 where "s2 = s1\<lparr>p_disp := d, p_glob := g\<rparr>"
  have r2: "reachable s2" unfolding s2_def by (rule reach_step [OF r1 step_dispatch [OF d]])
  have s2: "p_ex s2 = exec_init False 0 uop_empty" "p_ports s2 = exec_ports_init" "p_glob s2 = g"
    by (simp_all add: s2_def s1_def pipe_init_def)
  have "\<exists>x p k. exec_work sample_host sample_in (p_ex s2, p_ports s2, p_glob s2) = Inr (x, p, k) \<and>
      map address (ew_uop_queue k) = [7]"
    using g v by (simp add: s2 exec_work_def sample_in_def exec_init_def exec_issue_def exec_op_def exec_switch_def
       exec_epilogue_def Let_def is_jump_def fwd_op_def fwd_entry_def)
  then obtain x p k where x: "exec_work sample_host sample_in (p_ex s2, p_ports s2, p_glob s2) = Inr (x, p, k)"
    and k: "map address (ew_uop_queue k) = [7]" by (elim exE conjE) (rule that)
  define s3 where "s3 = s2\<lparr>p_ex := x, p_ports := p, p_glob := k\<rparr>"
  have r3: "reachable s3" unfolding s3_def
    by (rule reach_step [OF r2 step_execute [OF _ _ x]]) (simp_all add: sample_in_def s2 exec_ports_init_def)
  obtain w l where w: "writeback_work False True (p_wb s3) (p_glob s3) = (w, l)" by fastforce
  have l: "ew_uop_queue l = []"
    using w k by (auto simp: writeback_work_def s3_def Let_def split: if_splits list.splits)
  have "reachable (s3\<lparr>p_wb := w, p_glob := l, p_retired := p_retired s3 @
         map address (take (length (ew_uop_queue (p_glob s3)) - length (ew_uop_queue l)) (ew_uop_queue (p_glob s3)))\<rparr>)"
    by (rule reach_step [OF r3 step_writeback [OF w]])
  moreover have "p_retired s3 = []" "p_decoded s3 = [7]" "map address (ew_uop_queue (p_glob s3)) = [7]"
    using k by (simp_all add: s3_def s2_def s1_def pipe_init_def)
  ultimately show ?thesis using l by force
qed

theorem pipeline_in_order_witness:
  "\<exists>s. reachable s \<and> p_retired s = [7] \<and>
     subseq (p_retired s @ map address (ew_uop_queue (p_glob s) @ de_uop_queue (p_glob s)
           @ dd_uop_queue (p_glob s))) (p_decoded s)"
  using sample_run pipeline_in_order by blast

text \<open>No reachable state of the pipeline lets the execute stage pop an empty queue, and the
  writeback queue never holds more than two micro-operations: the guards of the handlers are
  enough although the stages share the queues without any other synchronisation.\<close>

lemma pipeline_queues_safe:
  assumes "reachable s" and "in_clear i = clear_out (p_ports s)"
  shows "exec_work h i (p_ex s, p_ports s, p_glob s) \<noteq> Inl Pop_of_empty_queue \<and>
         length (ew_uop_queue (p_glob s)) \<le> 2"
  using reachable_inv [OF assms(1)] exec_work_no_pop
  by (auto simp: pipe_inv_def exec_order_inv_def exec_inv_def)

end
