(* ===== verification/Hazards.thy ===== *)
theory Hazards
  imports Pipeline
begin

text \<open>
  Where the forwarding between instructions is not enough. The execute stage remembers the destination
  \<^verbatim>\<open>reg2\<close> of the last two micro-operations; two instructions write a register that this does not cover.
\<close>

subsection \<open>The high half of a product and the remainder\<close>

text \<open>The second result of \<^verbatim>\<open>mul\<close>, \<^verbatim>\<open>div\<close>, \<^verbatim>\<open>idiv\<close> and one-operand \<^verbatim>\<open>imul\<close>, which
  writeback stores in \<^verbatim>\<open>rdx\<close>, is not remembered: a micro-operation that was dispatched before the
  retirement still has the old \<^verbatim>\<open>rdx\<close> when it is executed.\<close>

lemma value1_not_forwarded:
  assumes "reg1 u = r" and "r \<noteq> prev_reg1 x" "r \<noteq> prev_reg2 x" "r \<noteq> Load_store_reg" "r \<noteq> UD_R_RSP"
  shows "value1 (fwd_op x v u) = value1 u"
  using assms by (simp add: fwd_op_def Let_def give1_def give2_def give3_def)

lemma second_result_not_forwarded:
  assumes "exec_epilogue (x, p, g) = (x', p', g')"
    and "opcode (Op x) \<in> {UD_Imul, UD_Idiv, UD_Iidiv}" "reg2 (Op x) = UD_R_RAX" "prev_reg1 x \<noteq> UD_R_RDX"
    and "reg1 u = UD_R_RDX"
  shows "rdx (retire (Op x) f) = value3 (Op x) \<and> value1 (fwd_op x' v u) = value1 u"
proof -
  have "prev_reg1 x' = UD_R_RAX" "prev_reg2 x' = prev_reg1 x"
    using assms(1-3) by (auto simp: exec_epilogue_def Let_def split: if_splits)
  then have "value1 (fwd_op x' v u) = value1 u" using assms(4,5) by (intro value1_not_forwarded [of _ UD_R_RDX]) simp_all
  then show ?thesis using assms(2) by (auto simp: retire_def retire_implicit_def)
qed

subsection \<open>The result of a system call\<close>

text \<open>A system call writes \<^verbatim>\<open>rax\<close> at once, past the results that wait for writeback: one of them that
  also writes \<^verbatim>\<open>rax\<close>, such as the \<^verbatim>\<open>mov\<close> of the call's number, replaces the result when it is
  retired.\<close>

lemma syscall_result_overwritten:
  assumes "do_syscall h x g = Inr (x', g')" and "ew_uop_queue g = u # us" and "reg2 u = UD_R_RAX"
    and "opcode u \<in> {UD_Imov, UD_Iadd, UD_Isub, UD_Ixor}"
  shows "rax (regfile g') = prev_value1 x' \<and> rax (regfile (snd (writeback_work False True w g'))) = value2 u"
proof -
  have "ew_uop_queue g' = u # us" "rax (regfile g') = prev_value1 x'"
    using assms(1,2) by (auto simp: do_syscall_def Let_def split: sum.splits dest!: core_syscall_frame)
  then show ?thesis using assms(3,4)
    by (auto simp: writeback_work_def Let_def retire_def retire_implicit_def retire_reg2_def)
qed

subsection \<open>A later micro-operation of the same instruction\<close>

text \<open>The forwarding into the queue puts the result before the last into the second operand when it is the first
  that wants it.\<close>

lemma fwd_entry_wrong_operand:
  assumes "reg1 u = prev_reg2 x" and "prev_reg1 x \<notin> {reg1 u, reg2 u}"
  shows "value1 (fwd_entry x u) = value1 u \<and> value2 (fwd_entry x u) = prev_value2 x"
  using assms by (auto simp: fwd_entry_def Let_def)

end
