(* ===== verification/Isa.thy ===== *)
theory Isa
  imports Pipeline
begin

text \<open>
  What the stages are for: a machine that executes one instruction after the other
  (\<open>isa_step\<close>), and the proof that dispatch, execute and writeback together implement it in every
  interleaving of their handlers, whatever decode feeds them. The machine reads its operands as dispatch
  does, computes as the \<^verbatim>\<open>switch\<close> of the execute stage does and writes as writeback does, but all at
  once; forwarding, squashing and the delayed writeback are what the proof is about.

  Instructions are those of one micro-operation that decode produces for register and immediate operands:
  the computing ones with one destination, and the jumps. The stack pointer is no operand.
\<close>

subsection \<open>The machine\<close>

record isa =
  i_pc :: addr
  i_regs :: ARF
  i_flags :: quad

definition jump_target :: "uop \<Rightarrow> addr" where
  "jump_target u = (if src u = REG then value1 u else next_addr u + value1 u)"

definition isa_step :: "(addr \<Rightarrow> uop) \<Rightarrow> isa \<Rightarrow> fault + isa" where
  "isa_step P s =
     (let u = dispatch_uop (i_regs s) (P (i_pc s)) in
      if is_jump (opcode u)
      then Inr (s\<lparr>i_pc := if jump_condition (opcode u) (i_flags s) then jump_target u else next_addr u\<rparr>)
      else case alu_step (opcode u) u (i_flags s) of
             Inl f \<Rightarrow> Inl f
           | Inr (u', e) \<Rightarrow> Inr \<lparr>i_pc = next_addr u, i_regs = retire u' (i_regs s), i_flags = e\<rparr>)"

fun isa_run :: "(addr \<Rightarrow> uop) \<Rightarrow> nat \<Rightarrow> isa \<Rightarrow> fault + isa" where
  "isa_run P 0 s = Inr s"
| "isa_run P (Suc n) s = (case isa_run P n s of Inl f \<Rightarrow> Inl f | Inr t \<Rightarrow> isa_step P t)"

definition isa_start :: "addr \<Rightarrow> isa" where
  "isa_start pc = \<lparr>i_pc = pc, i_regs = ARF_zero, i_flags = 0\<rparr>"

subsection \<open>Programs of single micro-operations\<close>

definition operand_reg :: "reg \<Rightarrow> bool" where
  "operand_reg r \<longleftrightarrow> is_gpr r \<and> r \<noteq> UD_R_RSP"

definition simple_uop :: "uop \<Rightarrow> bool" where
  "simple_uop v \<longleftrightarrow> src v \<noteq> IMUL_1 \<and>
     (opcode v \<in> {UD_Inop, UD_Icqo} \<or>
      opcode v \<in> {UD_Iinc, UD_Idec, UD_Ineg} \<and> src v = REG \<and> operand_reg (reg1 v) \<and> reg2 v = UD_NONE \<or>
      opcode v \<in> {UD_Imov, UD_Iadd, UD_Isub, UD_Iand, UD_Ior, UD_Ixor, UD_Icmp, UD_Itest, UD_Icmovnz,
          UD_Icmovns, UD_Icmovg, UD_Ishr, UD_Isar, UD_Ishl, UD_Isal} \<and>
        (src v = REG \<and> operand_reg (reg1 v) \<or> src v = IMMED) \<and> operand_reg (reg2 v) \<or>
      opcode v = UD_Iimul \<and> operand_reg (reg2 v) \<and>
        (src v = IMUL_2R \<and> operand_reg (reg1 v) \<or> src v = IMUL_2I \<or>
         src v = IMUL_3 \<and> operand_reg (reg1 v) \<and> (reg3 v = UD_NONE \<or> operand_reg (reg3 v))) \<or>
      is_jump (opcode v) \<and> (src v = REG \<and> operand_reg (reg1 v) \<or> src v = IMMED) \<and> reg2 v = UD_NONE)"

definition simple_program :: "(addr \<Rightarrow> uop) \<Rightarrow> bool" where
  "simple_program P \<longleftrightarrow> (\<forall>a. address (P a) = a \<and> simple_uop (P a))"

lemma operand_reg_simps [simp]:
  "\<not> operand_reg UD_NONE" "\<not> operand_reg UD_R_RSP" "\<not> operand_reg Scratchreg" "\<not> operand_reg Scratchregls"
  "\<not> operand_reg Load_store_reg" "\<not> operand_reg UD_R_RIP" "operand_reg UD_R_RAX" "operand_reg UD_R_RDX"
  by (simp_all add: operand_reg_def)

lemma operand_reg_gpr [dest]: "operand_reg r \<Longrightarrow> is_gpr r"
  by (simp add: operand_reg_def)

lemma operand_value_operand [simp]: "operand_reg r \<Longrightarrow> operand_value f u r old = the (arf_get f r)"
  by auto

subsection \<open>Operands\<close>

text \<open>What two copies of a micro-operation must have in common to compute the same.\<close>

definition same_operands :: "uop \<Rightarrow> uop \<Rightarrow> bool" where
  "same_operands w u \<longleftrightarrow> src w = src u \<and> address w = address u \<and> opcode w = opcode u \<and> opsize w = opsize u \<and>
     reg1 w = reg1 u \<and> reg2 w = reg2 u \<and>
     (opcode u \<noteq> UD_Inop \<longrightarrow> value1 w = value1 u) \<and>
     (operand_reg (reg2 u) \<and> opcode u \<noteq> UD_Icqo \<longrightarrow> value2 w = value2 u) \<and>
     (opcode u = UD_Iimul \<and> src u = IMUL_3 \<longrightarrow> value3 w = value3 u)"

text \<open>The register file \<open>f\<close> with the last two results written is \<open>f'\<close>.\<close>

definition forwards :: "exec \<Rightarrow> ARF \<Rightarrow> ARF \<Rightarrow> bool" where
  "forwards x f f' \<longleftrightarrow>
     (prev_reg1 x = UD_NONE \<or> operand_reg (prev_reg1 x)) \<and> (prev_reg2 x = UD_NONE \<or> operand_reg (prev_reg2 x)) \<and>
     (\<forall>r. operand_reg r \<longrightarrow> the (arf_get f' r) =
        (if r = prev_reg1 x then prev_value1 x else if r = prev_reg2 x then prev_value2 x else the (arf_get f r)))"

lemma implicit_regs:
  "reg1 (dispatch_implicit f u) = (if opcode u = UD_Inop then UD_NONE else if opcode u = UD_Icqo then UD_R_RAX else reg1 u)"
  "reg2 (dispatch_implicit f u) = (if opcode u = UD_Inop then UD_NONE else if opcode u = UD_Icqo then UD_R_RDX
     else if opcode u \<in> {UD_Imul, UD_Idiv, UD_Iidiv} \<or> opcode u = UD_Iimul \<and> src u = IMUL_1 then UD_R_RAX else reg2 u)"
  by (simp_all add: dispatch_implicit_def)

lemma operand1_reg: "reg1 (dispatch_operand1 f u) =
    (if src u \<in> {REG, IMUL_2R, IMUL_3} then reg1 u else if src u \<in> {IMMED, IMUL_2I, LOADMUL} then Scratchreg else reg1 u)"
  by (simp add: dispatch_operand1_def)

lemma dispatch_regs:
  "reg1 (dispatch_uop f v) = reg1 (dispatch_uop f' v)" "reg2 (dispatch_uop f v) = reg2 (dispatch_uop f' v)"
  by (simp_all only: dispatch_uop_def implicit_regs operand1_reg dispatch_operand1_frame dispatch_operand2_frame
      dispatch_operand3_frame)

lemma jump_opcode: "is_jump m \<Longrightarrow> m \<notin> {UD_Icall, UD_Iret, UD_Ipop, UD_Ipush, UD_Ipushfq, UD_Imul, UD_Idiv,
    UD_Iidiv, UD_Inop, UD_Icqo, UD_Iimul}"
  by (auto simp: is_jump_def)

lemma operand_forwarded:
  assumes "forwards x f f'"
  shows "operand_reg r \<Longrightarrow> reg1 u = r \<Longrightarrow> value1 u = the (arf_get f r) \<Longrightarrow> value1 (fwd_op x lsv u) = the (arf_get f' r)"
    and "operand_reg r \<Longrightarrow> reg2 u = r \<Longrightarrow> value2 u = the (arf_get f r) \<Longrightarrow> value2 (fwd_op x lsv u) = the (arf_get f' r)"
    and "operand_reg r \<Longrightarrow> reg3 u = r \<Longrightarrow> value3 u = the (arf_get f r) \<Longrightarrow> value3 (fwd_op x lsv u) = the (arf_get f' r)"
    and "reg1 u = Scratchreg \<Longrightarrow> value1 (fwd_op x lsv u) = value1 u"
    and "reg3 u = Scratchreg \<Longrightarrow> value3 (fwd_op x lsv u) = value3 u"
  using assms by (auto simp: forwards_def fwd_op_value1 fwd_op_value2 fwd_op_value3)


lemma dispatch_plain:
  assumes "opcode v \<notin> {UD_Icall, UD_Iret, UD_Ipop, UD_Ipush, UD_Ipushfq, UD_Imul, UD_Idiv, UD_Iidiv, UD_Inop, UD_Icqo}"
    and "src v \<noteq> IMUL_1"
  shows "reg1 (dispatch_uop f v) = (if src v \<in> {IMMED, IMUL_2I, LOADMUL} then Scratchreg else reg1 v)"
    and "value1 (dispatch_uop f v) = (if src v \<in> {IMMED, IMUL_2I, LOADMUL} then immed v
      else if src v \<in> {REG, IMUL_2R, IMUL_3} then operand_value f v (reg1 v) (value1 v) else value1 v)"
    and "reg2 (dispatch_uop f v) = reg2 v"
    and "operand_reg (reg2 v) \<Longrightarrow> value2 (dispatch_uop f v) = the (arf_get f (reg2 v))"
    and "opcode v = UD_Iimul \<Longrightarrow> src v = IMUL_3 \<Longrightarrow>
      reg3 (dispatch_uop f v) = (if reg3 v = UD_NONE then Scratchreg else reg3 v)"
    and "opcode v = UD_Iimul \<Longrightarrow> src v = IMUL_3 \<Longrightarrow> reg3 v = UD_NONE \<Longrightarrow> value3 (dispatch_uop f v) = immed v"
    and "operand_reg (reg3 v) \<Longrightarrow> value3 (dispatch_uop f v) = the (arf_get f (reg3 v))"
  using assms
  by (auto simp: dispatch_uop_def dispatch_implicit_def dispatch_operand1_def dispatch_operand2_def dispatch_operand3_def)

lemma dispatch_cqo:
  assumes "opcode v = UD_Icqo"
  shows "reg1 (dispatch_uop f v) = UD_R_RAX" "value1 (dispatch_uop f v) = rax f" "reg2 (dispatch_uop f v) = UD_R_RDX"
  using assms
  by (simp_all add: dispatch_uop_def dispatch_implicit_def dispatch_operand1_def dispatch_operand2_def dispatch_operand3_def)

lemma dispatch_nop:
  "opcode v = UD_Inop \<Longrightarrow> reg2 (dispatch_uop f v) = UD_NONE"
  by (simp add: dispatch_uop_def dispatch_implicit_def)

lemma simple_uop_cases [consumes 1, case_names nop cqo one_operand two_operands imul jump]:
  assumes "simple_uop v"
  obtains "opcode v = UD_Inop"
  | "opcode v = UD_Icqo"
  | "opcode v \<in> {UD_Iinc, UD_Idec, UD_Ineg}" "src v = REG" "operand_reg (reg1 v)" "reg2 v = UD_NONE"
  | "opcode v \<in> {UD_Imov, UD_Iadd, UD_Isub, UD_Iand, UD_Ior, UD_Ixor, UD_Icmp, UD_Itest, UD_Icmovnz,
       UD_Icmovns, UD_Icmovg, UD_Ishr, UD_Isar, UD_Ishl, UD_Isal}"
      "src v = REG \<and> operand_reg (reg1 v) \<or> src v = IMMED" "operand_reg (reg2 v)"
  | "opcode v = UD_Iimul" "operand_reg (reg2 v)"
      "src v = IMUL_2R \<and> operand_reg (reg1 v) \<or> src v = IMUL_2I \<or>
       src v = IMUL_3 \<and> operand_reg (reg1 v) \<and> (reg3 v = UD_NONE \<or> operand_reg (reg3 v))"
  | "is_jump (opcode v)" "src v = REG \<and> operand_reg (reg1 v) \<or> src v = IMMED" "reg2 v = UD_NONE"
  using assms by (auto simp only: simple_uop_def)

text \<open>All but \<^verbatim>\<open>nop\<close> and \<^verbatim>\<open>cqo\<close> have no implied operands.\<close>

lemma simple_plain:
  assumes "simple_uop v" and "opcode v \<noteq> UD_Inop" "opcode v \<noteq> UD_Icqo"
  shows "opcode v \<notin> {UD_Icall, UD_Iret, UD_Ipop, UD_Ipush, UD_Ipushfq, UD_Imul, UD_Idiv, UD_Iidiv, UD_Inop, UD_Icqo}"
    and "src v \<noteq> IMUL_1"
    and "src v \<in> {REG, IMUL_2R, IMUL_3} \<and> operand_reg (reg1 v) \<or> src v \<in> {IMMED, IMUL_2I}"
    and "operand_reg (reg2 v) \<or> reg2 v = UD_NONE"
    and "opcode v = UD_Iimul \<Longrightarrow> src v = IMUL_3 \<Longrightarrow> reg3 v = UD_NONE \<or> operand_reg (reg3 v)"
proof -
  have "opcode v \<notin> {UD_Icall, UD_Iret, UD_Ipop, UD_Ipush, UD_Ipushfq, UD_Imul, UD_Idiv, UD_Iidiv, UD_Inop, UD_Icqo} \<and>
      src v \<noteq> IMUL_1 \<and> (src v \<in> {REG, IMUL_2R, IMUL_3} \<and> operand_reg (reg1 v) \<or> src v \<in> {IMMED, IMUL_2I}) \<and>
      (operand_reg (reg2 v) \<or> reg2 v = UD_NONE) \<and>
      (opcode v = UD_Iimul \<longrightarrow> src v = IMUL_3 \<longrightarrow> reg3 v = UD_NONE \<or> operand_reg (reg3 v))"
    using assms(1)
  proof (cases v rule: simple_uop_cases)
    case jump
    then show ?thesis using jump_opcode [OF jump(1)] by auto
  qed (use assms(2,3) in auto)
  then show "opcode v \<notin> {UD_Icall, UD_Iret, UD_Ipop, UD_Ipush, UD_Ipushfq, UD_Imul, UD_Idiv, UD_Iidiv, UD_Inop, UD_Icqo}"
    and "src v \<noteq> IMUL_1"
    and "src v \<in> {REG, IMUL_2R, IMUL_3} \<and> operand_reg (reg1 v) \<or> src v \<in> {IMMED, IMUL_2I}"
    and "operand_reg (reg2 v) \<or> reg2 v = UD_NONE"
    and "opcode v = UD_Iimul \<Longrightarrow> src v = IMUL_3 \<Longrightarrow> reg3 v = UD_NONE \<or> operand_reg (reg3 v)"
    by blast+
qed

text \<open>A micro-operation that was dispatched from an older register file has, after forwarding, the operands
  it would have been dispatched with from the current one.\<close>

lemma fwd_same_operands:
  assumes "simple_uop v" and "forwards x f f'"
  shows "same_operands (fwd_op x lsv (dispatch_uop f v)) (dispatch_uop f' v)"
proof -
  let ?u = "dispatch_uop f v" and ?w = "dispatch_uop f' v"
  note fwd = operand_forwarded [OF assms(2)]
  have "value1 (fwd_op x lsv ?u) = value1 ?w" if "opcode v \<noteq> UD_Inop"
  proof (cases "opcode v = UD_Icqo")
    case True
    then show ?thesis using fwd(1) [of UD_R_RAX ?u] by (simp add: dispatch_cqo)
  next
    case False
    note p = simple_plain [OF assms(1) that False]
    note d = dispatch_plain [OF p(1,2)]
    show ?thesis using p(3) fwd(1) [of "reg1 v" ?u] fwd(4) [of ?u] by (auto simp: d)
  qed
  moreover have "value2 (fwd_op x lsv ?u) = value2 ?w" if "operand_reg (reg2 ?w)" "opcode v \<noteq> UD_Icqo"
  proof -
    have "opcode v \<noteq> UD_Inop" using that dispatch_nop by auto
    note d = dispatch_plain [OF simple_plain(1,2) [OF assms(1) this that(2)]]
    show ?thesis using that(1) fwd(2) [of "reg2 v" ?u] by (simp add: d)
  qed
  moreover have "value3 (fwd_op x lsv ?u) = value3 ?w" if "opcode v = UD_Iimul" "src v = IMUL_3"
  proof -
    have "opcode v \<noteq> UD_Inop" "opcode v \<noteq> UD_Icqo" using that(1) by simp_all
    note p = simple_plain [OF assms(1) this]
    note d = dispatch_plain [OF p(1,2)]
    show ?thesis
    proof (cases "reg3 v = UD_NONE")
      case True
      then show ?thesis using fwd(5) [of ?u] that by (simp add: d)
    next
      case False
      then have "operand_reg (reg3 v)" using p(5) [OF that] by simp
      then show ?thesis using fwd(3) [of "reg3 v" ?u] that False by (simp add: d)
    qed
  qed
  ultimately show ?thesis using dispatch_regs [of f v f'] by (simp add: same_operands_def)
qed

subsection \<open>Results\<close>

lemma simple_same_shape:
  assumes "simple_uop v" and "u = dispatch_uop f v"
  shows "opcode u = UD_Inop \<and> reg2 u = UD_NONE \<or>
    is_jump (opcode u) \<and> reg2 u = UD_NONE \<and> src u \<in> {REG, IMMED} \<or>
    opcode u \<in> {UD_Iinc, UD_Idec, UD_Ineg} \<and> operand_reg (reg1 u) \<or>
    opcode u \<in> {UD_Icqo, UD_Imov, UD_Iadd, UD_Isub, UD_Iand, UD_Ior, UD_Ixor, UD_Icmp, UD_Itest, UD_Icmovnz,
       UD_Icmovns, UD_Icmovg, UD_Ishr, UD_Isar, UD_Ishl, UD_Isal} \<and> operand_reg (reg2 u) \<or>
    opcode u = UD_Iimul \<and> src u \<in> {IMUL_2R, IMUL_2I, IMUL_3} \<and> operand_reg (reg2 u)"
  using assms(1)
proof (cases v rule: simple_uop_cases)
  case nop
  then show ?thesis using assms(2) dispatch_nop by simp
next
  case cqo
  then show ?thesis using assms(2) dispatch_cqo(3) [of v f] by simp
next
  case one_operand
  then have "reg1 u = reg1 v"
    using assms(2) by (auto simp: dispatch_uop_def implicit_regs operand1_reg)
  then show ?thesis using one_operand assms(2) by simp
next
  case two_operands
  then have "reg2 u = reg2 v"
    using assms(2) by (auto simp: dispatch_uop_def implicit_regs)
  then show ?thesis using two_operands assms(2) by auto
next
  case imul
  then have "reg2 u = reg2 v"
    using assms(2) by (auto simp: dispatch_uop_def implicit_regs)
  then show ?thesis using imul assms(2) by auto
next
  case jump
  then have "reg2 u = reg2 v"
    using assms(2) jump_opcode [OF jump(1)] by (simp add: dispatch_uop_def implicit_regs)
  then show ?thesis using jump assms(2) by auto
qed

text \<open>The computing cases give the same result on the same operands, in one register or, for \<^verbatim>\<open>nop\<close>, none.\<close>

lemma alu_same_operands:
  assumes "simple_uop v" and "u = dispatch_uop f v" and "same_operands w u" and "\<not> is_jump (opcode u)"
  shows "\<exists>u' w' e'. alu_step (opcode u) u e = Inr (u', e') \<and> alu_step (opcode u) w e = Inr (w', e') \<and>
    opcode w' = opcode u \<and> opcode u' = opcode u \<and> address w' = address u \<and> opsize w' = opsize u \<and>
    src w' = src u \<and> src u' = src u \<and> reg2 w' = reg2 u' \<and>
    (if opcode u = UD_Inop then reg2 u' = UD_NONE else operand_reg (reg2 u') \<and> value2 w' = value2 u')"
  using simple_same_shape [OF assms(1,2)]
proof (elim disjE conjE)
  assume "opcode u \<in> {UD_Icqo, UD_Imov, UD_Iadd, UD_Isub, UD_Iand, UD_Ior, UD_Ixor, UD_Icmp, UD_Itest, UD_Icmovnz,
       UD_Icmovns, UD_Icmovg, UD_Ishr, UD_Isar, UD_Ishl, UD_Isal}" "operand_reg (reg2 u)"
  with assms(3) show ?thesis
    by (elim insertE emptyE)
      (simp_all add: same_operands_def alu_cqo_def alu_cmp_def alu_test_def do_shift_def Let_def split: prod.split)
next
  assume "opcode u = UD_Iimul" "src u \<in> {IMUL_2R, IMUL_2I, IMUL_3}" "operand_reg (reg2 u)"
  with assms(3) show ?thesis
    by (elim insertE emptyE) (simp_all add: same_operands_def alu_imul_def Let_def)
next
  assume "opcode u \<in> {UD_Iinc, UD_Idec, UD_Ineg}" "operand_reg (reg1 u)"
  with assms(3) show ?thesis
    by (elim insertE emptyE) (simp_all add: same_operands_def alu_neg_def)
qed (use assms(3,4) in \<open>simp_all add: same_operands_def\<close>)

lemma simple_retire:
  assumes "simple_uop v" and "opcode u = opcode v" and "src u = src v"
  shows "retire u f = arf_set (f\<lparr>rip := next_addr u\<rparr>) (reg2 u) (value2 u)"
proof -
  have "opcode v \<notin> {UD_Icall, UD_Iret, UD_Ipop, UD_Imul, UD_Idiv, UD_Iidiv}" "src v \<noteq> IMUL_1"
    using assms(1) simple_plain(1) [OF assms(1)] by (auto simp: simple_uop_def)
  then show ?thesis using assms(2,3) by (simp add: retire_def retire_reg2_def retire_implicit_def)
qed

subsection \<open>The states of the machine\<close>

definition isa_at :: "(addr \<Rightarrow> uop) \<Rightarrow> addr \<Rightarrow> nat \<Rightarrow> isa" where
  "isa_at P pc n = projr (isa_run P n (isa_start pc))"

lemma simple_step_total:
  assumes "simple_program P"
  shows "\<exists>t. isa_step P s = Inr t"
proof -
  let ?u = "dispatch_uop (i_regs s) (P (i_pc s))"
  have v: "simple_uop (P (i_pc s))" using assms by (simp add: simple_program_def)
  have same: "same_operands ?u ?u" by (simp add: same_operands_def)
  show ?thesis
  proof (cases "is_jump (opcode ?u)")
    case False
    from alu_same_operands [OF v refl same False, of "i_flags s"] False show ?thesis
      by (auto simp: isa_step_def Let_def)
  qed (simp add: isa_step_def Let_def)
qed

lemma isa_run_at:
  assumes "simple_program P"
  shows "isa_run P n (isa_start pc) = Inr (isa_at P pc n)"
proof -
  have "\<exists>t. isa_run P n (isa_start pc) = Inr t"
  proof (induction n)
    case (Suc n)
    then obtain t where "isa_run P n (isa_start pc) = Inr t" by blast
    with simple_step_total [OF assms, of t] show ?case by simp
  qed simp
  then show ?thesis by (auto simp: isa_at_def)
qed

lemma isa_at_0 [simp]: "isa_at P pc 0 = isa_start pc"
  by (simp add: isa_at_def)

lemma isa_at_step:
  assumes "simple_program P"
  shows "isa_step P (isa_at P pc n) = Inr (isa_at P pc (Suc n))"
  using isa_run_at [OF assms, of "Suc n" pc] by (simp add: isa_run_at [OF assms])

lemma isa_at_jump:
  assumes "simple_program P" and "u = dispatch_uop (i_regs (isa_at P pc n)) (P (i_pc (isa_at P pc n)))"
    and "is_jump (opcode u)"
  shows "isa_at P pc (Suc n) = (isa_at P pc n)\<lparr>i_pc :=
    if jump_condition (opcode u) (i_flags (isa_at P pc n)) then jump_target u else next_addr u\<rparr>"
  using isa_at_step [OF assms(1), of pc n, unfolded isa_step_def Let_def, folded assms(2)] assms(3)
  by (simp only: if_True sum.inject)

lemma isa_at_alu:
  assumes "simple_program P" and "u = dispatch_uop (i_regs (isa_at P pc n)) (P (i_pc (isa_at P pc n)))"
    and "\<not> is_jump (opcode u)" and "alu_step (opcode u) u (i_flags (isa_at P pc n)) = Inr (u', e)"
  shows "isa_at P pc (Suc n) = \<lparr>i_pc = next_addr u, i_regs = retire u' (i_regs (isa_at P pc n)), i_flags = e\<rparr>"
  using isa_at_step [OF assms(1), of pc n, unfolded isa_step_def Let_def, folded assms(2)] assms(3,4)
  by (simp only: if_False sum.case prod.case sum.inject)

subsection \<open>The stages, fed with instructions of a program\<close>

text \<open>
  The handlers in any order, as in the step relation of the pipeline; dispatch and execute may be told to
  clear at any time they are told so by the wiring. Decode may deliver any instructions of the program,
  but never the same one twice in a row, and none is executed whose address is that of the last one but is
  not the one expected: micro-operations of one instruction share their address, so the execute stage
  accepts a repeated one.
\<close>

inductive fed :: "(addr \<Rightarrow> uop) \<Rightarrow> pipe \<Rightarrow> bool" for P where
  fed_init: "fed P (pipe_init brk False sp u)"
| fed_fetch:
    "fed P s \<Longrightarrow>
     fed P (s\<lparr>p_glob := (p_glob s)\<lparr>regfile := (regfile (p_glob s))\<lparr>rsp := v\<rparr>, RIP_jump := b\<rparr>\<rparr>)"
| fed_decode:
    "fed P s \<Longrightarrow> \<forall>u \<in> set us. u = P (address u) \<Longrightarrow>
     distinct_adj (map address (dd_uop_queue (p_glob s) @ us)) \<Longrightarrow>
     fed P (s\<lparr>p_glob := (p_glob s)\<lparr>dd_uop_queue := dd_uop_queue (p_glob s) @ us, RIP_jump := b\<rparr>,
              p_decoded := p_decoded s @ map address us\<rparr>)"
| fed_dispatch:
    "fed P s \<Longrightarrow> dispatch_work False clr rdy (p_disp s) (p_glob s) = (d', g') \<Longrightarrow>
     fed P (s\<lparr>p_disp := d', p_glob := g'\<rparr>)"
| fed_execute:
    "fed P s \<Longrightarrow> \<not> in_reset i \<Longrightarrow> in_clear i = clear_out (p_ports s) \<Longrightarrow>
     exec_work h i (p_ex s, p_ports s, p_glob s) = Inr (x', p', g') \<Longrightarrow>
     (\<not> in_clear i \<longrightarrow> (\<forall>u \<in> set (de_uop_queue (p_glob s)). address u = prev_addr (p_ex s) \<longrightarrow>
        firstrun (p_ex s) \<or> address u = expected_addr (p_ex s))) \<Longrightarrow>
     fed P (s\<lparr>p_ex := x', p_ports := p', p_glob := g'\<rparr>)"
| fed_writeback:
    "fed P s \<Longrightarrow> writeback_work False rdy (p_wb s) (p_glob s) = (w', g') \<Longrightarrow>
     fed P (s\<lparr>p_wb := w', p_glob := g',
       p_retired := p_retired s @
         map address (take (length (ew_uop_queue (p_glob s)) - length (ew_uop_queue g'))
                           (ew_uop_queue (p_glob s)))\<rparr>)"

lemma fed_reachable: "fed P s \<Longrightarrow> reachable s"
  by (induction rule: fed.induct)
    (auto intro: reachable.intros pipe_step.intros simp del: map_append)

subsection \<open>The invariant\<close>

definition agree :: "ARF \<Rightarrow> ARF \<Rightarrow> bool" where
  "agree f f' \<longleftrightarrow> (\<forall>r. operand_reg r \<longrightarrow> arf_get f r = arf_get f' r)"

text \<open>Retiring \<open>w\<close> takes the registers from one state of the machine to the next.\<close>

definition retires_as :: "uop \<Rightarrow> isa \<Rightarrow> isa \<Rightarrow> bool" where
  "retires_as w t t' \<longleftrightarrow> address w = i_pc t \<and> (\<forall>f. agree f (i_regs t) \<longrightarrow> agree (retire w f) (i_regs t'))"

text \<open>The execute stage has executed \<open>k\<close> instructions: it has the flags of the machine's state, expects its
  address, and its last two results are all that the registers differ in from the two states before.\<close>

definition executed :: "(nat \<Rightarrow> isa) \<Rightarrow> nat \<Rightarrow> exec \<Rightarrow> bool" where
  "executed T k x \<longleftrightarrow> ex_state x = STATE_NORMAL \<and> \<not> rip_changed x \<and> eflags x = i_flags (T k) \<and>
     (firstrun x \<longleftrightarrow> k = 0) \<and> (0 < k \<longrightarrow> expected_addr x = i_pc (T k)) \<and>
     (prev_reg1 x = UD_NONE \<or> operand_reg (prev_reg1 x) \<and> prev_value1 x = the (arf_get (i_regs (T k)) (prev_reg1 x))) \<and>
     (prev_reg2 x = UD_NONE \<or> operand_reg (prev_reg2 x) \<and>
        (prev_reg2 x = prev_reg1 x \<or> prev_value2 x = the (arf_get (i_regs (T k)) (prev_reg2 x)))) \<and>
     (\<forall>m r. m \<le> k \<longrightarrow> operand_reg r \<longrightarrow> r \<noteq> prev_reg1 x \<longrightarrow> (k \<le> m + 1 \<or> k \<le> m + 2 \<and> r \<noteq> prev_reg2 x) \<longrightarrow>
        arf_get (i_regs (T k)) r = arf_get (i_regs (T m)) r)"

definition isa_inv :: "(addr \<Rightarrow> uop) \<Rightarrow> addr \<Rightarrow> addr list \<Rightarrow> exec \<Rightarrow> globals \<Rightarrow> bool" where
  "isa_inv P pc rs x g \<longleftrightarrow>
     (let T = isa_at P pc; n = length rs; k = n + length (ew_uop_queue g) in
      rs = map (\<lambda>j. i_pc (T j)) [0..<n] \<and>
      (\<forall>i < length (ew_uop_queue g). retires_as (ew_uop_queue g ! i) (T (n + i)) (T (Suc (n + i)))) \<and>
      agree (regfile g) (i_regs (T n)) \<and> length (ew_uop_queue g) \<le> 2 \<and> executed T k x \<and>
      length (de_uop_queue g) \<le> 1 \<and>
      (\<forall>w \<in> set (de_uop_queue g). \<exists>m f. m \<le> k \<and> k \<le> m + 2 \<and> agree f (i_regs (T m)) \<and>
         w = dispatch_uop f (P (address w))) \<and>
      (\<forall>u \<in> set (dd_uop_queue g). u = P (address u)) \<and> distinct_adj (map address (dd_uop_queue g)))"

lemma executed_forwards:
  assumes "executed T k x" and "m \<le> k" "k \<le> m + 2" and "agree f (i_regs (T m))"
  shows "forwards x f (i_regs (T k))"
proof -
  note E = assms(1) [unfolded executed_def]
  have "the (arf_get (i_regs (T k)) r) =
      (if r = prev_reg1 x then prev_value1 x else if r = prev_reg2 x then prev_value2 x else the (arf_get f r))"
    if r: "operand_reg r" for r
  proof -
    have "r = prev_reg1 x \<Longrightarrow> the (arf_get (i_regs (T k)) r) = prev_value1 x"
      using E r by (metis operand_reg_simps(1))
    moreover have "r \<noteq> prev_reg1 x \<Longrightarrow> r = prev_reg2 x \<Longrightarrow> the (arf_get (i_regs (T k)) r) = prev_value2 x"
      using E r by (metis operand_reg_simps(1))
    moreover have "r \<noteq> prev_reg1 x \<Longrightarrow> r \<noteq> prev_reg2 x \<Longrightarrow> arf_get (i_regs (T k)) r = arf_get f r"
      using E r assms(2-4) unfolding agree_def by metis
    ultimately show ?thesis by simp
  qed
  with E show ?thesis unfolding forwards_def by blast
qed

subsection \<open>One edge of the execute stage\<close>

text \<open>An edge on which nothing executes leaves everything but the execute queue.\<close>

definition exec_rest :: "exec \<Rightarrow> exec \<Rightarrow> bool" where
  "exec_rest x x' \<longleftrightarrow> ex_state x' = ex_state x \<and> rip_changed x' = rip_changed x \<and> eflags x' = eflags x \<and>
     firstrun x' = firstrun x \<and> expected_addr x' = expected_addr x \<and> prev_reg1 x' = prev_reg1 x \<and>
     prev_value1 x' = prev_value1 x \<and> prev_reg2 x' = prev_reg2 x \<and> prev_value2 x' = prev_value2 x"

lemma executed_rest: "exec_rest x x' \<Longrightarrow> executed T k x \<Longrightarrow> executed T k x'"
  unfolding exec_rest_def executed_def by (elim conjE) (intro conjI; simp only: simp_thms)

lemma exec_work_rests:
  assumes "exec_work h i (x, p, g) = Inr (x', p', g')" and "\<not> in_reset i" and "ex_state x = STATE_NORMAL"
    and "length (de_uop_queue g) \<le> 1" and "\<not> exec_accepts i x g"
  shows "exec_rest x x' \<and> (g' = g \<or> g' = g\<lparr>de_uop_queue := []\<rparr>)"
proof (cases "in_clear i")
  case True
  then show ?thesis using assms(1-3)
    by (auto simp: exec_work_def exec_issue_def exec_rest_def Let_def split: if_splits)
next
  case clr: False
  show ?thesis
  proof (cases "\<not> in_ready i \<or> length (ew_uop_queue g) > 1 \<or> de_uop_queue g = []")
    case True
    then show ?thesis using assms(1-3) clr
      by (auto simp: exec_work_def exec_issue_def exec_rest_def Let_def split: if_splits list.splits)
  next
    case False
    then obtain u where q: "de_uop_queue g = [u]" using assms(4) by (cases "de_uop_queue g") auto
    have u: "address u \<notin> {expected_addr x, prev_addr x}" "\<not> firstrun x"
      using assms(2,3,5) clr False q by (auto simp: exec_accepts_def)
    have "exec_work h i (x, p, g) =
        Inr (x\<lparr>cyclecount := cyclecount x + 1, Op := u\<rparr>, p\<lparr>out_ready := False, change_RIP := False\<rparr>,
          g\<lparr>de_uop_queue := fwd_queue x (address u) []\<rparr>)"
      by (rule exec_work_squash) (use assms(2,3) clr False q u in auto)
    then show ?thesis using assms(1) by (auto simp: exec_rest_def)
  qed
qed

lemma exec_rests_ports:
  assumes "exec_work h i (x, p, g) = Inr (x', p', g')" and "\<not> in_reset i" and "ex_state x = STATE_NORMAL"
    and "length (de_uop_queue g) \<le> 1" and "\<not> exec_accepts i x g"
  shows "d_op p' = d_op p \<and> \<not> change_RIP p' \<and>
    (if in_clear i then \<not> clear_out p' \<and> g' = g\<lparr>de_uop_queue := []\<rparr>
     else clear_out p' = clear_out p \<and>
       ((\<forall>u \<in> set (de_uop_queue g). firstrun x \<or> address u \<in> {expected_addr x, prev_addr x}) \<longrightarrow> g' = g))"
proof (cases "\<not> in_clear i \<and> in_ready i \<and> length (ew_uop_queue g) \<le> 1 \<and> de_uop_queue g \<noteq> []")
  case False
  then show ?thesis using assms(1-3)
    by (auto simp: exec_work_def exec_issue_def Let_def split: if_splits list.splits)
next
  case True
  then obtain u where q: "de_uop_queue g = [u]" using assms(4) by (cases "de_uop_queue g") auto
  have u: "address u \<notin> {expected_addr x, prev_addr x}" "\<not> firstrun x"
    using assms(2,3,5) True q by (auto simp: exec_accepts_def)
  have "exec_work h i (x, p, g) =
      Inr (x\<lparr>cyclecount := cyclecount x + 1, Op := u\<rparr>, p\<lparr>out_ready := False, change_RIP := False\<rparr>,
        g\<lparr>de_uop_queue := fwd_queue x (address u) []\<rparr>)"
    by (rule exec_work_squash) (use assms(2,3) True q u in auto)
  then show ?thesis using assms(1) True q u by auto
qed

lemma exec_front_expected:
  "expected_addr (exec_front x g) = (if address (hd (de_uop_queue g)) = prev_addr x
     then address (hd (de_uop_queue g)) else expected_addr x)"
  by (simp add: exec_front_def Let_def)

text \<open>An edge on which a computing micro-operation executes, or a jump.\<close>

lemma exec_work_computes:
  assumes "exec_accepts i x g" and "w = fwd_op x (offsetreg_value g) (hd (de_uop_queue g))"
    and "is_plain (opcode w)" and "alu_step (opcode w) w (eflags x) = Inr (w', e')" and "\<not> rip_changed x"
    and "length (de_uop_queue g) \<le> 1" and "reg2 w' \<noteq> Load_store_reg"
  shows "\<exists>x' p' g'. exec_work h i (x, p, g) = Inr (x', p', g') \<and> ex_state x' = ex_state x \<and> \<not> rip_changed x' \<and>
    eflags x' = e' \<and> \<not> firstrun x' \<and> expected_addr x' = next_addr w \<and>
    (if opcode w = UD_Inop \<or> reg2 w' = UD_NONE
     then prev_reg1 x' = prev_reg1 x \<and> prev_value1 x' = prev_value1 x \<and>
          prev_reg2 x' = prev_reg2 x \<and> prev_value2 x' = prev_value2 x
     else prev_reg1 x' = reg2 w' \<and> prev_value1 x' = value2 w' \<and>
          prev_reg2 x' = prev_reg1 x \<and> prev_value2 x' = prev_value1 x) \<and>
    g' = g\<lparr>de_uop_queue := [], ew_uop_queue := ew_uop_queue g @ [w']\<rparr> \<and> p' = p\<lparr>out_ready := True, change_RIP := False\<rparr>"
proof -
  let ?p = "p\<lparr>out_ready := False, change_RIP := False\<rparr>"
  let ?g = "g\<lparr>de_uop_queue := fwd_queue x (address (hd (de_uop_queue g))) (de_uop_queue g)\<rparr>"
  let ?x = "(exec_front x g)\<lparr>Op := w', eflags := e'\<rparr>"
  have op: "Op (exec_front x g) = w" by (simp add: assms(2))
  have "exec_switch h (exec_front x g, ?p, ?g) = Inr (False, ?x, ?p, ?g)"
    by (rule exec_switch_plain) (use assms op in simp_all)
  with assms(1) have work: "exec_work h i (x, p, g) = Inr (exec_epilogue (?x, ?p, ?g))"
    by (simp add: exec_work_accepts)
  have keep: "opcode w' = opcode w" "next_addr w' = next_addr w"
    using alu_step_keeps [OF assms(4)] by (simp_all add: next_addr_def)
  have q: "tl (fwd_queue x a (de_uop_queue g)) = []" for a
    using assms(6) by (cases "de_uop_queue g"; cases "tl (de_uop_queue g)") auto
  have "opcode w \<noteq> UD_Isyscall" using assms(3) by (simp add: is_plain_def)
  then show ?thesis
    unfolding work exec_epilogue_def Let_def split_conv using keep q assms(5,7) by auto
qed

lemma exec_work_jumps:
  assumes "exec_accepts i x g" and "w = fwd_op x (offsetreg_value g) (hd (de_uop_queue g))"
    and "is_jump (opcode w)" and "reg2 w = UD_NONE" and "src w \<in> {REG, IMMED}" and "\<not> rip_changed x"
    and "length (de_uop_queue g) \<le> 1"
  shows "\<exists>x' p' g'. exec_work h i (x, p, g) = Inr (x', p', g') \<and> ex_state x' = ex_state x \<and> \<not> rip_changed x' \<and>
    eflags x' = eflags x \<and> \<not> firstrun x' \<and>
    expected_addr x' = (if jump_condition (opcode w) (eflags x) then jump_target w else next_addr w) \<and>
    prev_reg1 x' = prev_reg1 x \<and> prev_value1 x' = prev_value1 x \<and>
    prev_reg2 x' = prev_reg2 x \<and> prev_value2 x' = prev_value2 x \<and>
    g' = g\<lparr>de_uop_queue := [], ew_uop_queue := ew_uop_queue g @ [w]\<rparr> \<and> d_op p' = d_op p \<and> out_ready p' \<and>
    (if jump_condition (opcode w) (eflags x) then change_RIP p' \<and> clear_out p' \<and> new_RIP p' = jump_target w
     else \<not> change_RIP p' \<and> clear_out p' = clear_out p)"
proof -
  let ?p = "p\<lparr>out_ready := False, change_RIP := False\<rparr>"
  let ?g = "g\<lparr>de_uop_queue := fwd_queue x (address (hd (de_uop_queue g))) (de_uop_queue g)\<rparr>"
  have op: "Op (exec_front x g) = w" by (simp add: assms(2))
  have work: "exec_work h i (x, p, g) = Inr (exec_epilogue
      (case (if jump_condition (opcode w) (eflags x) then do_jump (exec_front x g, ?p) else (exec_front x g, ?p)) of
         (x', p') \<Rightarrow> (x', p', ?g)))"
    using assms(1,3) op by (simp add: exec_work_accepts exec_switch_jump split: prod.split)
  have q: "tl (fwd_queue x a (de_uop_queue g)) = []" for a
    using assms(7) by (cases "de_uop_queue g"; cases "tl (de_uop_queue g)") auto
  show ?thesis
  proof (cases "jump_condition (opcode w) (eflags x)")
    case True
    have jump: "\<exists>p1. do_jump (exec_front x g, ?p) =
        ((exec_front x g)\<lparr>rip_changed := True, expected_addr := jump_target w\<rparr>, p1) \<and>
        change_RIP p1 \<and> clear_out p1 \<and> new_RIP p1 = jump_target w \<and> d_op p1 = d_op p"
      using assms(5) op by (auto simp: do_jump_def jump_target_def Let_def)
    then obtain p1 where "do_jump (exec_front x g, ?p) =
        ((exec_front x g)\<lparr>rip_changed := True, expected_addr := jump_target w\<rparr>, p1)"
      "change_RIP p1" "clear_out p1" "new_RIP p1 = jump_target w" "d_op p1 = d_op p" by blast
    then show ?thesis
      unfolding work exec_epilogue_def Let_def using True q assms(4) op by auto
  next
    case False
    then show ?thesis
      unfolding work exec_epilogue_def Let_def using q assms(4,6) op by auto
  qed
qed

subsection \<open>The execute stage follows the machine\<close>

lemma executedD:
  assumes "executed T k x"
  shows "ex_state x = STATE_NORMAL"
    and "prev_reg1 x = UD_NONE \<or> operand_reg (prev_reg1 x) \<and> prev_value1 x = the (arf_get (i_regs (T k)) (prev_reg1 x))"
    and "prev_reg2 x = UD_NONE \<or> operand_reg (prev_reg2 x) \<and>
        (prev_reg2 x = prev_reg1 x \<or> prev_value2 x = the (arf_get (i_regs (T k)) (prev_reg2 x)))"
    and "m \<le> k \<Longrightarrow> operand_reg r \<Longrightarrow> r \<noteq> prev_reg1 x \<Longrightarrow> k \<le> m + 1 \<or> k \<le> m + 2 \<and> r \<noteq> prev_reg2 x \<Longrightarrow>
        arf_get (i_regs (T k)) r = arf_get (i_regs (T m)) r"
  using assms unfolding executed_def by blast+

text \<open>The last two results after one more, or after an instruction without a result.\<close>

lemma executed_Suc:
  assumes "executed T k x" and "ex_state x' = ex_state x" "\<not> rip_changed x'" "\<not> firstrun x'"
    and "eflags x' = i_flags (T (Suc k))" "expected_addr x' = i_pc (T (Suc k))"
    and "prev_reg1 x' = d" "prev_value1 x' = v" "prev_reg2 x' = prev_reg1 x" "prev_value2 x' = prev_value1 x"
    and "operand_reg d"
    and "\<And>r. operand_reg r \<Longrightarrow> arf_get (i_regs (T (Suc k))) r = (if r = d then Some v else arf_get (i_regs (T k)) r)"
  shows "executed T (Suc k) x'"
proof -
  note E = executedD [OF assms(1)]
  have "arf_get (i_regs (T (Suc k))) r = arf_get (i_regs (T m)) r"
    if "m \<le> Suc k" "operand_reg r" "r \<noteq> d" "Suc k \<le> m + 1 \<or> Suc k \<le> m + 2 \<and> r \<noteq> prev_reg1 x" for m r
  proof (cases "m = Suc k")
    case False
    then have "m \<le> k" using that(1) by simp
    have one: "arf_get (i_regs (T (Suc k))) r = arf_get (i_regs (T k)) r" using assms(12) that(2,3) by simp
    show ?thesis
    proof (cases "m = k")
      case False
      then have "k \<le> m + 1" "r \<noteq> prev_reg1 x" using that(4) \<open>m \<le> k\<close> by simp_all
      then have "arf_get (i_regs (T k)) r = arf_get (i_regs (T m)) r" using E(4) [OF \<open>m \<le> k\<close> that(2)] by blast
      then show ?thesis using one by simp
    qed (simp add: one)
  qed simp
  moreover have "prev_reg1 x = UD_NONE \<or> operand_reg (prev_reg1 x) \<and>
      (prev_reg1 x = d \<or> prev_value1 x = the (arf_get (i_regs (T (Suc k))) (prev_reg1 x)))"
  proof (cases "prev_reg1 x = UD_NONE \<or> prev_reg1 x = d")
    case False
    then show ?thesis using E(2) assms(12) [of "prev_reg1 x"] by simp
  qed (use E(2) in blast)
  moreover have "v = the (arf_get (i_regs (T (Suc k))) d)" using assms(11,12) by simp
  ultimately show ?thesis unfolding executed_def assms(2-10) using E(1) assms(3,4,11) by blast
qed

lemma executed_same:
  assumes "executed T k x" and "ex_state x' = ex_state x" "\<not> rip_changed x'" "\<not> firstrun x'"
    and "eflags x' = i_flags (T (Suc k))" "expected_addr x' = i_pc (T (Suc k))"
    and "prev_reg1 x' = prev_reg1 x" "prev_value1 x' = prev_value1 x"
      "prev_reg2 x' = prev_reg2 x" "prev_value2 x' = prev_value2 x"
    and "\<And>r. operand_reg r \<Longrightarrow> arf_get (i_regs (T (Suc k))) r = arf_get (i_regs (T k)) r"
  shows "executed T (Suc k) x'"
proof -
  note E = executedD [OF assms(1)]
  have "arf_get (i_regs (T (Suc k))) r = arf_get (i_regs (T m)) r"
    if "m \<le> Suc k" "operand_reg r" "r \<noteq> prev_reg1 x" "Suc k \<le> m + 1 \<or> Suc k \<le> m + 2 \<and> r \<noteq> prev_reg2 x" for m r
  proof (cases "m = Suc k")
    case False
    then have "m \<le> k" "k \<le> m + 1" using that(1,4) by auto
    then have "arf_get (i_regs (T k)) r = arf_get (i_regs (T m)) r" using E(4) [OF _ that(2,3)] by blast
    then show ?thesis using assms(11) that(2) by simp
  qed simp
  moreover have "prev_reg1 x = UD_NONE \<or> operand_reg (prev_reg1 x) \<and>
      prev_value1 x = the (arf_get (i_regs (T (Suc k))) (prev_reg1 x))"
    using E(2) assms(11) [of "prev_reg1 x"] by (elim disjE conjE) simp_all
  moreover have "prev_reg2 x = UD_NONE \<or> operand_reg (prev_reg2 x) \<and>
      (prev_reg2 x = prev_reg1 x \<or> prev_value2 x = the (arf_get (i_regs (T (Suc k))) (prev_reg2 x)))"
    using E(3) assms(11) [of "prev_reg2 x"] by (elim disjE conjE) simp_all
  ultimately show ?thesis unfolding executed_def assms(2-10) using E(1) assms(3,4) by blast
qed

lemma agree_retire:
  assumes "agree f f'" and "operand_reg d \<or> d = UD_NONE"
  shows "agree (arf_set (f\<lparr>rip := a\<rparr>) d v) (arf_set (f'\<lparr>rip := a'\<rparr>) d v)"
  using assms by (auto simp: agree_def arf.get_put)

text \<open>The ports after an instruction: it is followed by the next one, or it was a jump and fetch is redirected.\<close>

definition follows :: "exec_ports \<Rightarrow> exec_ports \<Rightarrow> addr \<Rightarrow> uop \<Rightarrow> bool" where
  "follows p p' a u \<longleftrightarrow> d_op p' = d_op p \<and> out_ready p' \<and>
     (if change_RIP p' then clear_out p' \<and> new_RIP p' = a \<and> is_jump (opcode u)
      else clear_out p' = clear_out p \<and> a = next_addr u)"

definition executes_as :: "(nat \<Rightarrow> isa) \<Rightarrow> nat \<Rightarrow> uop \<Rightarrow> host \<Rightarrow> exec_in \<Rightarrow> exec \<Rightarrow> exec_ports \<Rightarrow> globals \<Rightarrow> bool" where
  "executes_as T k v h i x p g \<longleftrightarrow>
     (\<exists>x' p' w. exec_work h i (x, p, g) = Inr (x', p', g\<lparr>de_uop_queue := [], ew_uop_queue := ew_uop_queue g @ [w]\<rparr>) \<and>
        executed T (Suc k) x' \<and> retires_as w (T k) (T (Suc k)) \<and> follows p p' (i_pc (T (Suc k))) v)"

lemma executes_jump:
  fixes P pc
  defines "T \<equiv> isa_at P pc"
  assumes "simple_program P" and "executed T k x" and "exec_accepts i x g" and "length (de_uop_queue g) \<le> 1"
    and "w = fwd_op x (offsetreg_value g) (hd (de_uop_queue g))"
    and "u = dispatch_uop (i_regs (T k)) (P (i_pc (T k)))" and "same_operands w u" and "is_jump (opcode u)"
  shows "executes_as T k (P (i_pc (T k))) h i x p g"
proof -
  let ?v = "P (i_pc (T k))"
  have v: "simple_uop ?v" "address ?v = i_pc (T k)" using assms(2) by (simp_all add: simple_program_def)
  have w: "opcode w = opcode u" "src w = src u" "address w = address u" "opsize w = opsize u" "reg2 w = reg2 u"
    and nxt: "next_addr w = next_addr u" and t: "jump_target w = jump_target u"
    using assms(8,9) by (auto simp: same_operands_def next_addr_def jump_target_def is_jump_def)
  have x: "\<not> rip_changed x" "eflags x = i_flags (T k)" using assms(3) by (simp_all add: executed_def)
  have ua: "address u = i_pc (T k)" "opcode u = opcode ?v" "src u = src ?v" by (simp_all add: assms(7) v)
  have r: "reg2 u = UD_NONE" "src u \<in> {REG, IMMED}"
    using simple_same_shape [OF v(1) assms(7)] assms(9) by (auto simp: is_jump_def)
  have T': "T (Suc k) = (T k)\<lparr>i_pc := if jump_condition (opcode u) (i_flags (T k)) then jump_target u else next_addr u\<rparr>"
    using isa_at_jump [OF assms(2), of u pc k] assms(7,9) by (simp add: T_def)
  obtain x' p' where work: "exec_work h i (x, p, g) = Inr (x', p', g\<lparr>de_uop_queue := [], ew_uop_queue := ew_uop_queue g @ [w]\<rparr>)"
      "ex_state x' = ex_state x" "\<not> rip_changed x'" "eflags x' = eflags x" "\<not> firstrun x'"
      "expected_addr x' = (if jump_condition (opcode w) (eflags x) then jump_target w else next_addr w)"
      "prev_reg1 x' = prev_reg1 x" "prev_value1 x' = prev_value1 x" "prev_reg2 x' = prev_reg2 x"
      "prev_value2 x' = prev_value2 x"
    and ports: "d_op p' = d_op p" "out_ready p'" "if jump_condition (opcode w) (eflags x) then change_RIP p' \<and> clear_out p' \<and> new_RIP p' = jump_target w
       else \<not> change_RIP p' \<and> clear_out p' = clear_out p"
    using exec_work_jumps [OF assms(4,6) _ _ _ x(1) assms(5), of h p] assms(9) r unfolding w by auto
  have "executed T (Suc k) x'"
    by (rule executed_same [OF assms(3) work(2,3,5) _ _ work(7-10)])
      (simp_all only: work(4,6) T' w(1) t nxt x(2), simp_all)
  moreover have "retires_as w (T k) (T (Suc k))"
    using simple_retire [OF v(1), of w] w ua r by (simp add: retires_as_def T' agree_def)
  moreover have "next_addr u = next_addr ?v" by (simp add: assms(7) next_addr_def)
  then have "follows p p' (i_pc (T (Suc k))) ?v"
    using ports assms(9) ua(2) unfolding w(1) t x(2) by (auto simp: follows_def T' split: if_splits)
  ultimately show ?thesis unfolding executes_as_def using work(1) by blast
qed

text \<open>The machine's result \<open>u'\<close> and the one computed from forwarded operands, \<open>w'\<close>.\<close>

definition same_result :: "uop \<Rightarrow> uop \<Rightarrow> bool" where
  "same_result w' u' \<longleftrightarrow> opcode w' = opcode u' \<and> src w' = src u' \<and> reg2 w' = reg2 u' \<and>
     (if opcode u' = UD_Inop then reg2 u' = UD_NONE else operand_reg (reg2 u') \<and> value2 w' = value2 u')"

lemma same_result_executed:
  assumes "executed T k x" and "same_result w' u'"
    and "ex_state x' = ex_state x" "\<not> rip_changed x'" "\<not> firstrun x'"
    and "if opcode u' = UD_Inop \<or> reg2 w' = UD_NONE
       then prev_reg1 x' = prev_reg1 x \<and> prev_value1 x' = prev_value1 x \<and>
            prev_reg2 x' = prev_reg2 x \<and> prev_value2 x' = prev_value2 x
       else prev_reg1 x' = reg2 w' \<and> prev_value1 x' = value2 w' \<and>
            prev_reg2 x' = prev_reg1 x \<and> prev_value2 x' = prev_value1 x"
    and "T (Suc k) = \<lparr>i_pc = expected_addr x', i_regs = arf_set ((i_regs (T k))\<lparr>rip := a\<rparr>) (reg2 u') (value2 u'), i_flags = eflags x'\<rparr>"
  shows "executed T (Suc k) x'"
proof (cases "opcode u' = UD_Inop")
  case True
  then show ?thesis using assms(2,6) by (intro executed_same [OF assms(1,3-5)]) (simp_all add: assms(7) same_result_def)
next
  case False
  then have dst: "operand_reg (reg2 u')" "value2 w' = value2 u'" "reg2 w' = reg2 u'" "reg2 u' \<noteq> UD_NONE"
    using assms(2) by (auto simp: same_result_def)
  then have p: "prev_reg1 x' = reg2 u'" "prev_value1 x' = value2 u'" "prev_reg2 x' = prev_reg1 x" "prev_value2 x' = prev_value1 x"
    using False assms(6) by simp_all
  show ?thesis
    by (rule executed_Suc [OF assms(1,3-5) _ _ p dst(1)]) (use dst(1) in \<open>auto simp: assms(7) arf.get_put\<close>)
qed

lemma same_result_agree:
  assumes "same_result w' u'" and "agree f1 f2"
  shows "agree (arf_set (f1\<lparr>rip := a\<rparr>) (reg2 w') (value2 w')) (arf_set (f2\<lparr>rip := b\<rparr>) (reg2 u') (value2 u'))"
proof (cases "opcode u' = UD_Inop")
  case True
  then show ?thesis using assms by (simp add: same_result_def agree_def)
next
  case False
  then show ?thesis using assms(1) agree_retire [OF assms(2)] by (simp add: same_result_def)
qed

lemma executes_alu:
  fixes P pc
  defines "T \<equiv> isa_at P pc"
  assumes "simple_program P" and "executed T k x" and "exec_accepts i x g" and "length (de_uop_queue g) \<le> 1"
    and "w = fwd_op x (offsetreg_value g) (hd (de_uop_queue g))"
    and "u = dispatch_uop (i_regs (T k)) (P (i_pc (T k)))" and "same_operands w u" and "\<not> is_jump (opcode u)"
  shows "executes_as T k (P (i_pc (T k))) h i x p g"
proof -
  let ?v = "P (i_pc (T k))"
  have v: "simple_uop ?v" "address ?v = i_pc (T k)" using assms(2) by (simp_all add: simple_program_def)
  have w: "opcode w = opcode u" and nxt: "next_addr w = next_addr u"
    using assms(8) by (simp_all add: same_operands_def next_addr_def)
  have x: "\<not> rip_changed x" "eflags x = i_flags (T k)" using assms(3) by (simp_all add: executed_def)
  have ua: "address u = i_pc (T k)" "opcode u = opcode ?v" "src u = src ?v" by (simp_all add: assms(7) v)
  obtain u' w' e' where alu: "alu_step (opcode u) u (eflags x) = Inr (u', e')" "alu_step (opcode u) w (eflags x) = Inr (w', e')"
      "opcode u' = opcode u" "address w' = address u" "src w' = src u" "src u' = src u" and same: "same_result w' u'"
    using alu_same_operands [OF v(1) assms(7-9), of "eflags x"] by (auto simp: same_result_def)
  have "is_plain (opcode w)"
    unfolding w is_plain_def using simple_same_shape [OF v(1) assms(7)] assms(9) by (auto simp: is_jump_def)
  moreover have "reg2 w' \<noteq> Load_store_reg" using same by (auto simp: same_result_def split: if_splits)
  ultimately obtain x' p' where work: "exec_work h i (x, p, g) = Inr (x', p', g\<lparr>de_uop_queue := [], ew_uop_queue := ew_uop_queue g @ [w']\<rparr>)"
      "ex_state x' = ex_state x" "\<not> rip_changed x'" "eflags x' = e'" "\<not> firstrun x'" "expected_addr x' = next_addr w"
    and ports: "p' = p\<lparr>out_ready := True, change_RIP := False\<rparr>"
    and prev: "if opcode w = UD_Inop \<or> reg2 w' = UD_NONE
       then prev_reg1 x' = prev_reg1 x \<and> prev_value1 x' = prev_value1 x \<and>
            prev_reg2 x' = prev_reg2 x \<and> prev_value2 x' = prev_value2 x
       else prev_reg1 x' = reg2 w' \<and> prev_value1 x' = value2 w' \<and>
            prev_reg2 x' = prev_reg1 x \<and> prev_value2 x' = prev_value1 x"
    using exec_work_computes [OF assms(4,6) _ _ x(1) assms(5), of w' e' h p] alu(2) unfolding w by blast
  note ret = simple_retire [OF v(1)]
  have T': "T (Suc k) = \<lparr>i_pc = next_addr u, i_regs = arf_set ((i_regs (T k))\<lparr>rip := next_addr u'\<rparr>) (reg2 u') (value2 u'), i_flags = e'\<rparr>"
    using isa_at_alu [OF assms(2), of u pc k u' e'] assms(7,9) alu(1) x(2) ret [of u'] alu(3,6) ua by (simp add: T_def)
  have "executed T (Suc k) x'"
    by (rule same_result_executed [OF assms(3) same work(2,3,5)])
      (use prev in \<open>simp only: w alu(3)\<close>, simp only: T' work(4,6) nxt)
  moreover have "retires_as w' (T k) (T (Suc k))"
    using same_result_agree [OF same] ret [of w'] same alu(3-5) ua by (simp add: retires_as_def T' same_result_def)
  moreover have "follows p p' (i_pc (T (Suc k))) ?v" by (simp add: follows_def ports T' assms(7) next_addr_def)
  ultimately show ?thesis unfolding executes_as_def using work(1) by blast
qed

lemma executes_next:
  fixes P pc
  defines "T \<equiv> isa_at P pc"
  assumes "simple_program P" and "executed T k x" and "exec_accepts i x g"
    and "de_uop_queue g = [w0]" "w0 = dispatch_uop f (P (i_pc (T k)))"
    and "m \<le> k" "k \<le> m + 2" "agree f (i_regs (T m))"
  shows "\<exists>x' p' w. exec_work h i (x, p, g) = Inr (x', p', g\<lparr>de_uop_queue := [], ew_uop_queue := ew_uop_queue g @ [w]\<rparr>) \<and>
    executed T (Suc k) x' \<and> retires_as w (T k) (T (Suc k)) \<and>
    follows p p' (i_pc (T (Suc k))) (P (i_pc (T k)))"
proof -
  have v: "simple_uop (P (i_pc (T k)))" using assms(2) by (simp add: simple_program_def)
  have same: "same_operands (fwd_op x (offsetreg_value g) (hd (de_uop_queue g))) (dispatch_uop (i_regs (T k)) (P (i_pc (T k))))"
    using fwd_same_operands [OF v executed_forwards [OF assms(3,7,8,9)]] assms(5,6) by simp
  have one: "length (de_uop_queue g) \<le> 1" using assms(5) by simp
  note here = assms(2) assms(3) [unfolded T_def] assms(4) one refl refl same [unfolded T_def]
  show ?thesis
    using executes_jump [OF here] executes_alu [OF here] unfolding executes_as_def T_def by blast
qed

subsection \<open>Every handler keeps the invariant\<close>

lemma isa_inv_init: "isa_inv P pc [] (exec_init False sp u) (globals_init\<lparr>brk_val := brk\<rparr>)"
  by (simp add: isa_inv_def Let_def globals_init_def executed_def exec_init_def isa_start_def agree_def)

text \<open>Before the first instruction has executed the entry point is open.\<close>

lemma isa_inv_restart:
  assumes "isa_inv P pc rs x g" and "rs = []" "ew_uop_queue g = []"
  shows "isa_inv P pc' rs x g"
  using assms by (simp add: isa_inv_def Let_def executed_def isa_start_def)

lemma isa_inv_fetch:
  assumes "isa_inv P pc rs x g"
  shows "isa_inv P pc rs x (g\<lparr>regfile := (regfile g)\<lparr>rsp := v\<rparr>, RIP_jump := b\<rparr>)"
proof -
  have "arf_get (f\<lparr>rsp := v\<rparr>) r = arf_get f r" if "operand_reg r" for f :: ARF and r
    using that by (cases r) simp_all
  then have "agree ((regfile g)\<lparr>rsp := v\<rparr>) f' = agree (regfile g) f'" for f' by (simp add: agree_def)
  then show ?thesis using assms by (simp add: isa_inv_def Let_def)
qed

lemma isa_inv_decode:
  assumes "isa_inv P pc rs x g" and "\<forall>u \<in> set us. u = P (address u)"
    and "distinct_adj (map address (dd_uop_queue g @ us))"
  shows "isa_inv P pc rs x (g\<lparr>dd_uop_queue := dd_uop_queue g @ us, RIP_jump := b\<rparr>)"
  using assms by (auto simp: isa_inv_def Let_def)

lemma isa_inv_clear:
  assumes "isa_inv P pc rs x g"
  shows "isa_inv P pc rs x (g\<lparr>dd_uop_queue := []\<rparr>)" "isa_inv P pc rs x (g\<lparr>de_uop_queue := []\<rparr>)"
  using assms by (simp_all add: isa_inv_def Let_def)

lemma one_instruction:
  assumes "distinct_adj (map address (u # us))"
  shows "dispatch_batch (u # us) = 1"
proof -
  have "length (takeWhile (\<lambda>v. address v = address u) (u # us)) = 1"
    using assms by (cases us) auto
  then show ?thesis by (simp add: dispatch_batch_def)
qed

lemma isa_inv_dispatch:
  assumes "isa_inv P pc rs x g" and "dispatch_work False clr rdy d g = (d', g')"
  shows "isa_inv P pc rs x g'"
proof (cases "\<not> clr \<and> rdy \<and> dd_uop_queue g \<noteq> [] \<and> de_uop_queue g = []")
  case True
  then obtain u us where q: "dd_uop_queue g = u # us" by (cases "dd_uop_queue g") auto
  have inv: "distinct_adj (map address (u # us))" "u = P (address u)" "length (ew_uop_queue g) \<le> 2"
      "agree (regfile g) (i_regs (isa_at P pc (length rs)))"
    using assms(1) q by (simp_all add: isa_inv_def Let_def)
  have g': "g' = g\<lparr>de_uop_queue := [dispatch_uop (regfile g) u], dd_uop_queue := us\<rparr>"
    using assms(2) True q one_instruction [OF inv(1)] dispatch_loop_batch [of g]
    by (auto simp: dispatch_work_def Let_def)
  have "\<exists>m f. m \<le> length rs + length (ew_uop_queue g) \<and> length rs + length (ew_uop_queue g) \<le> m + 2 \<and>
      agree f (i_regs (isa_at P pc m)) \<and> dispatch_uop (regfile g) u = dispatch_uop f (P (address (dispatch_uop (regfile g) u)))"
    using inv(3,4) by (intro exI [of _ "length rs"] exI [of _ "regfile g"]) (simp add: inv(2) [symmetric])
  then show ?thesis using assms(1) q inv(1) distinct_adj_ConsD [of "address u" "map address us"]
    by (simp add: g' isa_inv_def Let_def)
next
  case False
  then have "g' = g \<or> g' = g\<lparr>dd_uop_queue := []\<rparr>"
    using assms(2) by (auto simp: dispatch_work_def Let_def split: if_splits)
  then show ?thesis using assms(1) isa_inv_clear by blast
qed

lemma isa_inv_writeback:
  assumes "isa_inv P pc rs x g" and "writeback_work False rdy w g = (w', g')"
  shows "isa_inv P pc (rs @ map address (take (length (ew_uop_queue g) - length (ew_uop_queue g')) (ew_uop_queue g))) x g'"
proof (cases "rdy \<and> ew_uop_queue g \<noteq> []")
  case True
  then obtain u rest where q: "ew_uop_queue g = u # rest" by (cases "ew_uop_queue g") auto
  have g': "g' = g\<lparr>regfile := retire u (regfile g), ew_uop_queue := rest\<rparr>"
    using assms(2) True q by (auto simp: writeback_work_def Let_def)
  let ?T = "isa_at P pc" and ?n = "length rs"
  have inv: "rs = map (\<lambda>j. i_pc (?T j)) [0..<?n]"
      "\<And>i. i < length (u # rest) \<Longrightarrow> retires_as ((u # rest) ! i) (?T (?n + i)) (?T (Suc (?n + i)))"
      "agree (regfile g) (i_regs (?T ?n))"
    using assms(1) q by (simp_all add: isa_inv_def Let_def)
  have "address u = i_pc (?T ?n)" "agree (retire u (regfile g)) (i_regs (?T (Suc ?n)))"
    using inv(2) [of 0] inv(3) by (simp_all add: retires_as_def)
  moreover have "retires_as (rest ! i) (?T (Suc ?n + i)) (?T (Suc (Suc ?n + i)))" if "i < length rest" for i
    using inv(2) [of "Suc i"] that by simp
  ultimately show ?thesis using assms(1) inv(1) q by (simp add: g' isa_inv_def Let_def)
next
  case False
  then have "g' = g" using assms(2) by (auto simp: writeback_work_def Let_def split: list.splits)
  then show ?thesis using assms(1) by simp
qed

lemma isa_inv_accepts:
  assumes "simple_program P" and "isa_inv P pc rs x g" and "exec_accepts i x g" and "de_uop_queue g = [w0]"
    and "address w0 = i_pc (isa_at P pc (length rs + length (ew_uop_queue g)))"
    and "exec_work h i (x, p, g) = Inr (x', p', g')"
  shows "isa_inv P pc rs x' g' \<and> (\<exists>w. g' = g\<lparr>de_uop_queue := [], ew_uop_queue := ew_uop_queue g @ [w]\<rparr>) \<and>
    follows p p' (i_pc (isa_at P pc (Suc (length rs + length (ew_uop_queue g))))) (P (address w0))"
proof -
  define n where "n = length rs"
  define k where "k = n + length (ew_uop_queue g)"
  let ?T = "isa_at P pc"
  have pc': "address w0 = i_pc (?T k)" using assms(5) by (simp add: n_def k_def)
  have I: "rs = map (\<lambda>j. i_pc (?T j)) [0..<n]" "executed ?T k x"
      "\<And>i. i < length (ew_uop_queue g) \<Longrightarrow> retires_as (ew_uop_queue g ! i) (?T (n + i)) (?T (Suc (n + i)))"
      "agree (regfile g) (i_regs (?T n))" "\<forall>u \<in> set (dd_uop_queue g). u = P (address u)"
      "distinct_adj (map address (dd_uop_queue g))"
    using assms(2) unfolding isa_inv_def Let_def k_def n_def by blast+
  obtain m f where w0: "m \<le> k" "k \<le> m + 2" "agree f (i_regs (?T m))" "w0 = dispatch_uop f (P (i_pc (?T k)))"
    using assms(2,4) pc' by (auto simp: isa_inv_def Let_def k_def n_def)
  obtain x1 p1 w where work: "exec_work h i (x, p, g) = Inr (x1, p1, g\<lparr>de_uop_queue := [], ew_uop_queue := ew_uop_queue g @ [w]\<rparr>)"
      "executed ?T (Suc k) x1" "retires_as w (?T k) (?T (Suc k))" "follows p p1 (i_pc (?T (Suc k))) (P (i_pc (?T k)))"
    using executes_next [OF assms(1) I(2) assms(3,4) w0(4,1,2,3), of h p] by blast
  have ret: "retires_as ((ew_uop_queue g @ [w]) ! i) (?T (n + i)) (?T (Suc (n + i)))"
    if "i < Suc (length (ew_uop_queue g))" for i
  proof (cases "i = length (ew_uop_queue g)")
    case True
    then show ?thesis using work(3) by (simp add: k_def)
  next
    case False
    then show ?thesis using I(3) [of i] that by (simp add: nth_append)
  qed
  have r: "x' = x1" "p' = p1" "g' = g\<lparr>de_uop_queue := [], ew_uop_queue := ew_uop_queue g @ [w]\<rparr>"
    using work(1) assms(6) by simp_all
  moreover have "length (ew_uop_queue g) \<le> 1" using assms(3) by (simp add: exec_accepts_def)
  ultimately have "isa_inv P pc rs x' g'"
    unfolding isa_inv_def Let_def using I(1,4-6) work(2) ret by (simp add: n_def k_def)
  then show ?thesis using work(4) r pc' unfolding k_def n_def by auto
qed

lemma isa_inv_execute:
  assumes "simple_program P" and "isa_inv P pc rs x g" and "\<not> in_reset i"
    and "exec_work h i (x, p, g) = Inr (x', p', g')"
    and "\<not> in_clear i \<longrightarrow> (\<forall>u \<in> set (de_uop_queue g). address u = prev_addr x \<longrightarrow> firstrun x \<or> address u = expected_addr x)"
  shows "\<exists>pc'. isa_inv P pc' rs x' g' \<and>
    (pc' = pc \<or> rs = [] \<and> ew_uop_queue g = [] \<and> (\<exists>u. de_uop_queue g = [u] \<and> pc' = address u))"
proof (cases "exec_accepts i x g")
  case False
  let ?k = "length rs + length (ew_uop_queue g)"
  have x: "executed (isa_at P pc) ?k x" "length (de_uop_queue g) \<le> 1"
    using assms(2) by (simp_all add: isa_inv_def Let_def)
  then have st: "ex_state x = STATE_NORMAL" by (simp add: executed_def)
  note rest = exec_work_rests [OF assms(4,3) st x(2) False]
  have "isa_inv P pc rs x' g" using assms(2) executed_rest [of x x'] rest by (simp add: isa_inv_def Let_def)
  then show ?thesis using rest isa_inv_clear by blast
next
  case True
  define n where "n = length rs"
  define k where "k = n + length (ew_uop_queue g)"
  have one: "length (de_uop_queue g) \<le> 1" "de_uop_queue g \<noteq> []"
    using assms(2) True by (simp_all add: isa_inv_def Let_def exec_accepts_def)
  then obtain w0 where q: "de_uop_queue g = [w0]" by (cases "de_uop_queue g") auto
  obtain pc' where inv: "isa_inv P pc' rs x g" and pc': "address w0 = i_pc (isa_at P pc' k)"
      and entry: "pc' = pc \<or> rs = [] \<and> ew_uop_queue g = [] \<and> pc' = address w0"
  proof (cases "k = 0")
    case True
    then have "rs = []" "ew_uop_queue g = []" by (simp_all add: k_def n_def)
    from isa_inv_restart [OF assms(2) this, of "address w0"] that True this show ?thesis by (simp add: isa_start_def)
  next
    case False
    have "executed (isa_at P pc) k x" using assms(2) by (simp add: isa_inv_def Let_def k_def n_def)
    then have "\<not> firstrun x" "expected_addr x = i_pc (isa_at P pc k)" using False by (simp_all add: executed_def)
    moreover have "address w0 = expected_addr x"
      using True q assms(5) \<open>\<not> firstrun x\<close> by (auto simp: exec_accepts_def)
    ultimately show ?thesis using that assms(2) by simp
  qed
  show ?thesis
    using isa_inv_accepts [OF assms(1) inv True q _ assms(4)] pc' entry q by (auto simp: k_def n_def)
qed

lemma fed_inv:
  assumes "fed P s" and "simple_program P"
  shows "\<exists>pc. isa_inv P pc (p_retired s) (p_ex s) (p_glob s)"
  using assms(1)
proof (induction rule: fed.induct)
  case (fed_init brk sp u)
  show ?case by (simp add: pipe_init_def isa_inv_init)
next
  case (fed_fetch s v b)
  then obtain pc where "isa_inv P pc (p_retired s) (p_ex s) (p_glob s)" by blast
  from isa_inv_fetch [OF this] show ?case by auto
next
  case (fed_decode s us b)
  then obtain pc where "isa_inv P pc (p_retired s) (p_ex s) (p_glob s)" by blast
  from isa_inv_decode [OF this fed_decode(2,3)] show ?case by auto
next
  case (fed_dispatch s clr rdy d' g')
  then obtain pc where "isa_inv P pc (p_retired s) (p_ex s) (p_glob s)" by blast
  from isa_inv_dispatch [OF this fed_dispatch(2)] show ?case by auto
next
  case (fed_execute s i h x' p' g')
  then obtain pc where "isa_inv P pc (p_retired s) (p_ex s) (p_glob s)" by blast
  from isa_inv_execute [OF assms(2) this fed_execute(2,4,5)] show ?case by auto
next
  case (fed_writeback s rdy w' g')
  then obtain pc where "isa_inv P pc (p_retired s) (p_ex s) (p_glob s)" by blast
  from isa_inv_writeback [OF this fed_writeback(2)] show ?case by auto
qed

subsection \<open>Instructions get through\<close>

text \<open>The execute stage with nothing to do: an outstanding clear is over.\<close>

definition quiet_in :: "bool \<Rightarrow> exec_in" where
  "quiet_in c = \<lparr>in_reset = False, in_clear = c, in_ready = \<not> c, d_ready = False, d_tagout = 0, d_data = 0\<rparr>"

definition idle_host :: host where
  "idle_host = \<lparr>host_write = (\<lambda>_ _ _. 0), now = 0\<rparr>"

lemma exec_work_quiet:
  assumes "ex_state x = STATE_NORMAL" and "de_uop_queue g = []"
  shows "\<exists>x' p'. exec_work idle_host (quiet_in (clear_out p)) (x, p, g) = Inr (x', p', g) \<and> \<not> clear_out p'"
proof -
  have "g\<lparr>de_uop_queue := []\<rparr> = g" using assms(2) by simp
  then show ?thesis using assms
    by (cases "clear_out p") (auto simp: exec_work_def exec_issue_def quiet_in_def Let_def)
qed

definition drained :: "pipe \<Rightarrow> bool" where
  "drained s \<longleftrightarrow> dd_uop_queue (p_glob s) = [] \<and> de_uop_queue (p_glob s) = [] \<and> ew_uop_queue (p_glob s) = []"

lemma fed_quiet:
  assumes "fed P s" "simple_program P" "drained s" and "isa_inv P pc (p_retired s) (p_ex s) (p_glob s)"
  shows "\<exists>s'. fed P s' \<and> p_glob s' = p_glob s \<and> p_retired s' = p_retired s \<and> \<not> clear_out (p_ports s') \<and>
    isa_inv P pc (p_retired s') (p_ex s') (p_glob s')"
proof -
  have "executed (isa_at P pc) (length (p_retired s)) (p_ex s)"
    using assms(3,4) by (simp add: isa_inv_def Let_def drained_def)
  then have "ex_state (p_ex s) = STATE_NORMAL" by (simp add: executed_def)
  then obtain x' p' where work: "exec_work idle_host (quiet_in (clear_out (p_ports s))) (p_ex s, p_ports s, p_glob s) =
      Inr (x', p', p_glob s)" "\<not> clear_out p'"
    using exec_work_quiet [of "p_ex s" "p_glob s" "p_ports s"] assms(3) unfolding drained_def by blast
  have q: "\<not> in_reset (quiet_in c)" "in_clear (quiet_in c) = c" for c by (simp_all add: quiet_in_def)
  have guard: "\<forall>u \<in> set (de_uop_queue (p_glob s)). address u = prev_addr (p_ex s) \<longrightarrow>
      firstrun (p_ex s) \<or> address u = expected_addr (p_ex s)" using assms(3) by (simp add: drained_def)
  have "fed P (s\<lparr>p_ex := x', p_ports := p', p_glob := p_glob s\<rparr>)"
    by (rule fed_execute [OF assms(1) q work(1) impI [OF guard]])
  moreover have "isa_inv P pc (p_retired s) x' (p_glob s)"
    using isa_inv_execute [OF assms(2,4) q(1) work(1) impI [OF guard]] assms(3) by (auto simp: drained_def)
  ultimately show ?thesis using work(2)
    by (intro exI [of _ "s\<lparr>p_ex := x', p_ports := p', p_glob := p_glob s\<rparr>"]) simp
qed

text \<open>From a drained state the next instruction of the machine is decoded and dispatched, executed, and retired.\<close>

lemma fed_dispatched:
  fixes P pc s
  defines "a \<equiv> i_pc (isa_at P pc (length (p_retired s)))"
  assumes "fed P s" "simple_program P" "drained s" and "isa_inv P pc (p_retired s) (p_ex s) (p_glob s)"
  shows "\<exists>s'. fed P s' \<and> p_ex s' = p_ex s \<and> p_ports s' = p_ports s \<and> p_retired s' = p_retired s \<and>
    p_glob s' = (p_glob s)\<lparr>dd_uop_queue := [], de_uop_queue := [dispatch_uop (regfile (p_glob s)) (P a)], RIP_jump := False\<rparr> \<and>
    isa_inv P pc (p_retired s) (p_ex s) (p_glob s')"
proof -
  have P: "address (P a) = a" using assms(3) by (simp add: simple_program_def)
  have empty: "dd_uop_queue (p_glob s) = []" "de_uop_queue (p_glob s) = []"
    using assms(4) by (simp_all add: drained_def)
  define g1 where "g1 = (p_glob s)\<lparr>dd_uop_queue := [P a], RIP_jump := False\<rparr>"
  define s1 where "s1 = s\<lparr>p_glob := g1, p_decoded := p_decoded s @ [a]\<rparr>"
  have one: "\<forall>u \<in> set [P a]. u = P (address u)" "distinct_adj (map address (dd_uop_queue (p_glob s) @ [P a]))"
    using P empty by simp_all
  have f1: "fed P s1" using fed_decode [OF assms(2) one, of False] P empty by (simp add: s1_def g1_def)
  have i1: "isa_inv P pc (p_retired s) (p_ex s) g1"
    using isa_inv_decode [OF assms(5) one, of False] empty by (simp add: g1_def)
  obtain d g2 where work: "dispatch_work False False True (p_disp s1) g1 = (d, g2)" by fastforce
  have g2: "g2 = g1\<lparr>dd_uop_queue := [], de_uop_queue := [dispatch_uop (regfile (p_glob s)) (P a)]\<rparr>"
    using work one_instruction [of "P a" "[]"] dispatch_loop_batch [of g1] empty
    by (auto simp: dispatch_work_def Let_def g1_def)
  have "fed P (s1\<lparr>p_disp := d, p_glob := g2\<rparr>)"
    using fed_dispatch [OF f1, of False True d g2] work by (simp add: s1_def)
  then show ?thesis
    using isa_inv_dispatch [OF i1 work] by (intro exI [of _ "s1\<lparr>p_disp := d, p_glob := g2\<rparr>"]) (simp add: s1_def g2 g1_def)
qed

lemma fed_executed:
  fixes P pc s
  defines "T \<equiv> isa_at P pc" and "k \<equiv> length (p_retired s)"
  assumes "fed P s" "simple_program P" "isa_inv P pc (p_retired s) (p_ex s) (p_glob s)" and "\<not> clear_out (p_ports s)"
    and "dd_uop_queue (p_glob s) = []" "ew_uop_queue (p_glob s) = []"
    and "de_uop_queue (p_glob s) = [dispatch_uop (regfile (p_glob s)) (P (i_pc (T k)))]"
  shows "\<exists>s' w. fed P s' \<and> p_retired s' = p_retired s \<and> p_glob s' = (p_glob s)\<lparr>de_uop_queue := [], ew_uop_queue := [w]\<rparr> \<and>
    isa_inv P pc (p_retired s') (p_ex s') (p_glob s')"
proof -
  let ?g = "p_glob s" and ?i = "quiet_in False"
  have P: "address (P a) = a" for a using assms(4) by (simp add: simple_program_def)
  have ex: "executed T k (p_ex s)" "agree (regfile ?g) (i_regs (T k))"
    using assms(5,8) by (simp_all add: isa_inv_def Let_def T_def k_def)
  have "ex_state (p_ex s) = STATE_NORMAL" "firstrun (p_ex s) \<or> expected_addr (p_ex s) = i_pc (T k)"
    using ex(1) unfolding executed_def by blast+
  then have acc: "exec_accepts ?i (p_ex s) ?g"
    and guard: "\<forall>u \<in> set (de_uop_queue ?g). address u = prev_addr (p_ex s) \<longrightarrow>
      firstrun (p_ex s) \<or> address u = expected_addr (p_ex s)"
    using P by (auto simp: exec_accepts_def quiet_in_def assms(8,9))
  obtain x p w where work: "exec_work idle_host ?i (p_ex s, p_ports s, ?g) =
      Inr (x, p, ?g\<lparr>de_uop_queue := [], ew_uop_queue := ew_uop_queue ?g @ [w]\<rparr>)"
    using executes_next [OF assms(4) ex(1) [unfolded T_def] acc assms(9) [unfolded T_def] refl order_refl le_add1 ex(2) [unfolded T_def],
        of idle_host "p_ports s"] by blast
  have q: "\<not> in_reset ?i" "in_clear ?i = clear_out (p_ports s)" using assms(6) by (simp_all add: quiet_in_def)
  have "isa_inv P pc (p_retired s) x (?g\<lparr>de_uop_queue := [], ew_uop_queue := ew_uop_queue ?g @ [w]\<rparr>)"
    using isa_inv_execute [OF assms(4,5) q(1) work] guard P assms(8,9) by (auto simp: T_def k_def isa_start_def)
  then show ?thesis using fed_execute [OF assms(3) q work impI [OF guard]] assms(8)
    by (intro exI [of _ "s\<lparr>p_ex := x, p_ports := p, p_glob := ?g\<lparr>de_uop_queue := [], ew_uop_queue := [w]\<rparr>\<rparr>"] exI [of _ w]) simp
qed

lemma fed_next:
  assumes "fed P s" "simple_program P" "drained s" and "isa_inv P pc (p_retired s) (p_ex s) (p_glob s)"
  shows "\<exists>s'. fed P s' \<and> drained s' \<and> length (p_retired s') = Suc (length (p_retired s)) \<and>
    isa_inv P pc (p_retired s') (p_ex s') (p_glob s')"
proof -
  obtain s0 where s0: "fed P s0" "p_glob s0 = p_glob s" "p_retired s0 = p_retired s" "\<not> clear_out (p_ports s0)"
      "isa_inv P pc (p_retired s0) (p_ex s0) (p_glob s0)"
    using fed_quiet [OF assms] by blast
  have d0: "drained s0" using assms(3) s0(2) by (simp add: drained_def)
  obtain s2 where s2: "fed P s2" "p_ports s2 = p_ports s0" "p_retired s2 = p_retired s0"
      "p_glob s2 = (p_glob s0)\<lparr>dd_uop_queue := [], de_uop_queue := [dispatch_uop (regfile (p_glob s0))
         (P (i_pc (isa_at P pc (length (p_retired s0)))))], RIP_jump := False\<rparr>"
      "isa_inv P pc (p_retired s2) (p_ex s2) (p_glob s2)"
    using fed_dispatched [OF s0(1) assms(2) d0 s0(5)] by auto
  obtain s3 w where s3: "fed P s3" "p_retired s3 = p_retired s0"
      "p_glob s3 = (p_glob s2)\<lparr>de_uop_queue := [], ew_uop_queue := [w]\<rparr>" "isa_inv P pc (p_retired s3) (p_ex s3) (p_glob s3)"
  proof -
    have "\<not> clear_out (p_ports s2)" "dd_uop_queue (p_glob s2) = []" "ew_uop_queue (p_glob s2) = []"
        "de_uop_queue (p_glob s2) = [dispatch_uop (regfile (p_glob s2)) (P (i_pc (isa_at P pc (length (p_retired s2)))))]"
      using s0(4) d0 by (simp_all add: s2(2-4) drained_def)
    note fed_executed [OF s2(1) assms(2) s2(5) this, unfolded s2(3)]
    then show thesis by (elim exE conjE) (rule that; assumption)
  qed
  obtain wb g4 where work: "writeback_work False True (p_wb s3) (p_glob s3) = (wb, g4)" by fastforce
  have g4: "g4 = (p_glob s3)\<lparr>regfile := retire w (regfile (p_glob s3)), ew_uop_queue := []\<rparr>"
    using work by (auto simp: writeback_work_def Let_def s3(3))
  have "fed P (s3\<lparr>p_wb := wb, p_glob := g4, p_retired := p_retired s0 @ [address w]\<rparr>)"
    using fed_writeback [OF s3(1) work] s3(2,3) g4 by simp
  moreover have "isa_inv P pc (p_retired s0 @ [address w]) (p_ex s3) g4"
    using isa_inv_writeback [OF s3(4) work] s3(2,3) g4 by simp
  ultimately show ?thesis
    by (intro exI [of _ "s3\<lparr>p_wb := wb, p_glob := g4, p_retired := p_retired s0 @ [address w]\<rparr>"])
      (simp add: drained_def g4 s3(3) s2(4) s0(3))
qed

lemma fed_run:
  assumes "simple_program P"
  shows "\<exists>s. fed P s \<and> drained s \<and> length (p_retired s) = n \<and> isa_inv P pc (p_retired s) (p_ex s) (p_glob s)"
proof (induction n)
  case 0
  have "isa_inv P pc [] (exec_init False 0 uop_empty) (globals_init\<lparr>brk_val := 0\<rparr>)" by (rule isa_inv_init)
  moreover have "fed P (pipe_init 0 False 0 uop_empty)" by (rule fed_init)
  moreover have "drained (pipe_init 0 False 0 uop_empty)" by (simp add: drained_def pipe_init_def globals_init_def)
  ultimately show ?case by (intro exI [of _ "pipe_init 0 False 0 uop_empty"]) (simp add: pipe_init_def)
next
  case (Suc n)
  then show ?case using fed_next [OF _ assms] by blast
qed

subsection \<open>Properties\<close>

text \<open>C4: the pipeline implements the sequential machine: whatever the order of the handlers and whatever
  decode delivers, the addresses of the retired micro-operations are those the machine executes one after the
  other from the first one on, the register file holds the machine's registers after as many steps, and the
  flags and the address that the execute stage expects are the machine's after the instructions still waiting
  for writeback.\<close>

theorem pipeline_refines_isa:
  assumes "fed P s" and "simple_program P"
  shows "\<exists>pc. let n = length (p_retired s); k = n + length (ew_uop_queue (p_glob s)) in
    (\<exists>t. isa_run P n (isa_start pc) = Inr t \<and>
       (\<forall>r. is_gpr r \<and> r \<noteq> UD_R_RSP \<longrightarrow> arf_get (regfile (p_glob s)) r = arf_get (i_regs t) r)) \<and>
    (\<exists>t. isa_run P k (isa_start pc) = Inr t \<and> eflags (p_ex s) = i_flags t \<and>
       (0 < k \<longrightarrow> expected_addr (p_ex s) = i_pc t)) \<and>
    (\<forall>j < n. \<exists>t. isa_run P j (isa_start pc) = Inr t \<and> p_retired s ! j = i_pc t)"
proof -
  obtain pc where inv: "isa_inv P pc (p_retired s) (p_ex s) (p_glob s)" using fed_inv [OF assms] by blast
  define n where "n = length (p_retired s)"
  have rs: "p_retired s = map (\<lambda>j. i_pc (isa_at P pc j)) [0..<n]"
    using inv unfolding isa_inv_def Let_def n_def by blast
  have "p_retired s ! j = i_pc (isa_at P pc j)" if "j < n" for j
    by (subst rs) (use that in simp)
  moreover have "agree (regfile (p_glob s)) (i_regs (isa_at P pc n))"
      "executed (isa_at P pc) (n + length (ew_uop_queue (p_glob s))) (p_ex s)"
    using inv unfolding isa_inv_def Let_def n_def by blast+
  then have "is_gpr r \<and> r \<noteq> UD_R_RSP \<Longrightarrow> arf_get (regfile (p_glob s)) r = arf_get (i_regs (isa_at P pc n)) r"
      "eflags (p_ex s) = i_flags (isa_at P pc (n + length (ew_uop_queue (p_glob s))))"
      "0 < n + length (ew_uop_queue (p_glob s)) \<Longrightarrow>
         expected_addr (p_ex s) = i_pc (isa_at P pc (n + length (ew_uop_queue (p_glob s))))" for r
    unfolding agree_def operand_reg_def executed_def by blast+
  ultimately show ?thesis
    using isa_run_at [OF assms(2)] unfolding Let_def n_def [symmetric] by blast
qed

text \<open>A program that adds 5 to \<^verbatim>\<open>rax\<close> for ever.\<close>

definition adds_five :: "addr \<Rightarrow> uop" where
  "adds_five a = uop_empty\<lparr>address := a, opcode := UD_Iadd, src := IMMED, reg2 := UD_R_RAX, immed := 5, opsize := 4\<rparr>"

lemma adds_five_simple: "simple_program adds_five"
  by (simp add: simple_program_def adds_five_def simple_uop_def)

lemma adds_five_step: "isa_step adds_five t =
    Inr \<lparr>i_pc = i_pc t + 4, i_regs = (i_regs t)\<lparr>rip := i_pc t + 4, rax := rax (i_regs t) + 5\<rparr>, i_flags = i_flags t\<rparr>"
  by (simp add: isa_step_def adds_five_def uop_empty_def dispatch_uop_def dispatch_implicit_def dispatch_operand1_def
      dispatch_operand2_def dispatch_operand3_def is_jump_def retire_def retire_reg2_def retire_implicit_def
      next_addr_def operand_value_def Let_def)

lemma adds_five_twice: "isa_run adds_five 2 (isa_start pc) = Inr t \<Longrightarrow> rax (i_regs t) = 10"
  by (auto simp: numeral_2_eq_2 adds_five_step isa_start_def ARF_zero_def)

theorem pipeline_refines_isa_witness:
  "\<exists>s. fed adds_five s \<and> length (p_retired s) = 2 \<and> rax (regfile (p_glob s)) = 10"
proof -
  obtain s where s: "fed adds_five s" "length (p_retired s) = 2"
    using fed_run [OF adds_five_simple, of 2 0] by blast
  from pipeline_refines_isa [OF s(1) adds_five_simple] obtain pc t where
    "isa_run adds_five 2 (isa_start pc) = Inr t"
    and "\<And>r. is_gpr r \<and> r \<noteq> UD_R_RSP \<Longrightarrow> arf_get (regfile (p_glob s)) r = arf_get (i_regs t) r"
    unfolding Let_def s(2) by blast
  from adds_five_twice [OF this(1)] this(2) [of UD_R_RAX] s show ?thesis by auto
qed

text \<open>No program gets stuck in the pipeline: from every entry point and for every number of steps there is
  a run of the stages that retires exactly the instructions the machine executes and leaves the machine's
  registers.\<close>

lemma isa_runs_on_pipeline:
  assumes "simple_program P"
  shows "\<exists>s t. fed P s \<and> isa_run P n (isa_start pc) = Inr t \<and>
    (\<forall>r. is_gpr r \<and> r \<noteq> UD_R_RSP \<longrightarrow> arf_get (regfile (p_glob s)) r = arf_get (i_regs t) r) \<and>
    eflags (p_ex s) = i_flags t \<and> length (p_retired s) = n \<and>
    (\<forall>j < n. \<exists>t. isa_run P j (isa_start pc) = Inr t \<and> p_retired s ! j = i_pc t)"
proof -
  obtain s where s: "fed P s" "drained s" "length (p_retired s) = n"
      "isa_inv P pc (p_retired s) (p_ex s) (p_glob s)"
    using fed_run [OF assms] by blast
  then have inv: "p_retired s = map (\<lambda>j. i_pc (isa_at P pc j)) [0..<n]"
      "agree (regfile (p_glob s)) (i_regs (isa_at P pc n))" "executed (isa_at P pc) n (p_ex s)"
    by (simp_all add: isa_inv_def Let_def drained_def)
  have "p_retired s ! j = i_pc (isa_at P pc j)" if "j < n" for j
    by (subst inv(1)) (use that in simp)
  then show ?thesis using s(1,3) inv(2,3) isa_run_at [OF assms]
    by (intro exI [of _ s] exI [of _ "isa_at P pc n"]) (simp add: agree_def operand_reg_def executed_def)
qed

end
