(* ===== verification/HexText.thy ===== *)
theory HexText
  imports Prelude
begin

text \<open>
  The text the decoder works on (\<^verbatim>\<open>core-project/decoder.cc\<close>): a fetched line is turned into a
  string of two hexadecimal digits and a space per byte (\<^verbatim>\<open>bin2hex\<close>), the disassembler pulls
  its bytes out of that string through \<^verbatim>\<open>input_hook\<close>, and \<^verbatim>\<open>sign_extend\<close> widens an
  immediate by printing it, padding the digits and parsing them again. The C++ streams are
  modelled where the code uses them: \<open>to_hex\<close> is \<^verbatim>\<open>o << hex << n\<close>, \<open>parse_hex\<close> is
  \<^verbatim>\<open>i >> hex >> n\<close> on digits and blanks.
\<close>

subsection \<open>Hexadecimal numbers as text\<close>

definition hex_digit :: "nat \<Rightarrow> char" where
  "hex_digit d = (if d < 10 then char_of (48 + d) else char_of (87 + d))"

fun to_hex :: "nat \<Rightarrow> string" where
  "to_hex n = (if n < 16 then [hex_digit n] else to_hex (n div 16) @ [hex_digit (n mod 16)])"

declare to_hex.simps [simp del]

definition is_hex :: "char \<Rightarrow> bool" where
  "is_hex c \<longleftrightarrow> (let n = of_char c :: nat in 48 \<le> n \<and> n < 58 \<or> 97 \<le> n \<and> n < 103)"

definition digit_val :: "char \<Rightarrow> nat" where
  "digit_val c = (if (of_char c :: nat) < 58 then of_char c - 48 else of_char c - 87)"

definition parse_hex :: "string \<Rightarrow> nat" where
  "parse_hex s = foldl (\<lambda>n c. 16 * n + digit_val c) 0
     (takeWhile is_hex (dropWhile (\<lambda>c. c = CHR '' '') s))"

subsection \<open>The functions of the decoder\<close>

text \<open>\<^verbatim>\<open>setw(2)\<close> with \<^verbatim>\<open>setfill('0')\<close>, and the blank after it.\<close>

definition hex_byte :: "nat \<Rightarrow> string" where
  "hex_byte n = replicate (2 - length (to_hex n)) CHR ''0'' @ to_hex n @ '' ''"

text \<open>\<^verbatim>\<open>bitset<128>(str).to_ulong()\<close>, the first character the highest bit.\<close>

definition bits_val :: "string \<Rightarrow> nat" where
  "bits_val s = foldl (\<lambda>n c. 2 * n + (if c = CHR ''1'' then 1 else 0)) 0 s"

function bin2hex :: "string \<Rightarrow> string" where
  "bin2hex s = (if s = [] then [] else hex_byte (bits_val (take 8 s)) @ bin2hex (drop 8 s))"
  by pat_completeness auto
termination by (relation "measure length") auto

declare bin2hex.simps [simp del]

text \<open>\<open>None\<close> is \<^verbatim>\<open>UD_EOI\<close>; the second component is the new \<^verbatim>\<open>byte_seek_ptr\<close>.\<close>

definition input_hook :: "string \<Rightarrow> nat \<Rightarrow> nat option \<times> nat" where
  "input_hook stream seek =
     (if seek \<ge> length stream then (None, seek)
      else (Some (parse_hex (take 2 (drop seek stream)) mod 256), seek + 3))"

text \<open>
  \<^verbatim>\<open>sign_extend\<close>. The mask \<^verbatim>\<open>1 << (size-1)\<close> is an \<^verbatim>\<open>int\<close>, stored in an \<^verbatim>\<open>unsigned int\<close>;
  its bit is the one tested when the size is at most 32. With 16 digits nothing is padded.
\<close>

definition sign_extend :: "quad \<Rightarrow> nat \<Rightarrow> quad" where
  "sign_extend v sz =
     (let digits = to_hex (unat v) in
      if length digits * 4 = sz
      then (let fill = (if bit v (sz - 1) then CHR ''f'' else CHR ''0'')
            in word_of_nat (parse_hex (replicate (16 - length digits) fill @ digits)))
      else v)"

text \<open>\<^verbatim>\<open>build_byte_stack\<close>: the two-character pieces at every third position.\<close>

function byte_stack :: "string \<Rightarrow> string list" where
  "byte_stack s = (if s = [] then [] else take 2 s # byte_stack (drop 3 s))"
  by pat_completeness auto
termination by (relation "measure length") auto

declare byte_stack.simps [simp del]

subsection \<open>Printing and parsing\<close>

lemma not_hex_blank [simp]: "\<not> is_hex CHR '' ''"
  by (simp add: is_hex_def)

lemma hex_digit_ok:
  assumes "d < 16"
  shows "is_hex (hex_digit d) \<and> digit_val (hex_digit d) = d \<and> hex_digit d \<noteq> CHR '' ''"
proof -
  have "is_hex (hex_digit d)" "digit_val (hex_digit d) = d"
    using assms by (auto simp: hex_digit_def is_hex_def digit_val_def)
  moreover from this have "hex_digit d \<noteq> CHR '' ''" using not_hex_blank by metis
  ultimately show ?thesis by simp
qed

lemma hex_0_f: "hex_digit 0 = CHR ''0''" "hex_digit 15 = CHR ''f''"
  by (simp_all add: hex_digit_def char_of_def bit_0)

text \<open>A string of digits is determined by its digit values.\<close>

definition digits_val :: "string \<Rightarrow> nat" where
  "digits_val s = foldl (\<lambda>n c. 16 * n + digit_val c) 0 s"

lemma digits_val_snoc [simp]: "digits_val (s @ [c]) = 16 * digits_val s + digit_val c"
  by (simp add: digits_val_def)

lemma digits_val_Nil [simp]: "digits_val [] = 0"
  by (simp add: digits_val_def)

lemma digits_val_append: "digits_val (s @ t) = 16 ^ length t * digits_val s + digits_val t"
proof (induction t rule: rev_induct)
  case Nil
  then show ?case by simp
next
  case (snoc c t)
  have "digits_val (s @ t @ [c]) = 16 * digits_val (s @ t) + digit_val c"
    using digits_val_snoc [of "s @ t" c] by (simp only: append_assoc)
  then show ?case by (simp add: snoc algebra_simps)
qed

lemma parse_hex_digits:
  assumes "\<forall>c \<in> set s. is_hex c" and "t = [] \<or> \<not> is_hex (hd t)"
  shows "parse_hex (s @ t) = (if s = [] then parse_hex t else digits_val s)"
proof (cases s)
  case (Cons c s')
  then have "dropWhile (\<lambda>c. c = CHR '' '') (s @ t) = s @ t"
    using assms(1) by (auto simp: is_hex_def)
  moreover have "takeWhile is_hex (s @ t) = s"
    using assms by (cases t) (auto simp: takeWhile_append2 takeWhile_append)
  ultimately show ?thesis using Cons by (simp add: parse_hex_def digits_val_def)
qed simp

lemma to_hex_is_hex: "\<forall>c \<in> set (to_hex n). is_hex c"
proof (induction n rule: to_hex.induct)
  case (1 n)
  then show ?case using hex_digit_ok [of n] hex_digit_ok [of "n mod 16"]
    by (subst to_hex.simps) (auto)
qed

lemma digits_val_to_hex: "digits_val (to_hex n) = n"
proof (induction n rule: to_hex.induct)
  case (1 n)
  show ?case
  proof (cases "n < 16")
    case True
    then show ?thesis using hex_digit_ok [of n] by (subst to_hex.simps) (simp add: digits_val_def)
  next
    case False
    then show ?thesis using 1 hex_digit_ok [of "n mod 16"] by (subst to_hex.simps) simp
  qed
qed

lemma to_hex_not_Nil [simp]: "to_hex n \<noteq> []"
  by (subst to_hex.simps) simp

lemma length_to_hex: "length (to_hex n) \<le> k \<longleftrightarrow> n < 16 ^ k \<and> 0 < k"
proof (induction n arbitrary: k rule: to_hex.induct)
  case (1 n)
  show ?case
  proof (cases "n < 16")
    case True
    then have "0 < k \<Longrightarrow> n < 16 ^ k" by (cases k) (auto intro: less_le_trans)
    then show ?thesis using True by (subst to_hex.simps) auto
  next
    case False
    show ?thesis
    proof (cases k)
      case 0
      then show ?thesis using False by (subst to_hex.simps) simp
    next
      case (Suc j)
      have "length (to_hex n) \<le> k \<longleftrightarrow> length (to_hex (n div 16)) \<le> j"
        using False Suc by (subst to_hex.simps) simp
      also have "\<dots> \<longleftrightarrow> n div 16 < 16 ^ j \<and> 0 < j" using 1 False by blast
      also have "\<dots> \<longleftrightarrow> n < 16 ^ k \<and> 0 < k"
        using False Suc by (cases j) (auto simp: div_less_iff_less_mult algebra_simps)
      finally show ?thesis .
    qed
  qed
qed

lemma hex_byte_parse:
  assumes "n < 256"
  shows "length (hex_byte n) = 3" and "parse_hex (take 2 (hex_byte n)) = n"
proof -
  have len: "length (to_hex n) \<le> 2" "0 < length (to_hex n)" using assms by (simp_all add: length_to_hex)
  then show "length (hex_byte n) = 3" by (simp add: hex_byte_def)
  let ?d = "replicate (2 - length (to_hex n)) CHR ''0'' @ to_hex n"
  have t: "take 2 (hex_byte n) = ?d" using len by (simp add: hex_byte_def)
  have z: "is_hex CHR ''0''" "digit_val CHR ''0'' = 0" using hex_digit_ok [of 0] by (simp_all add: hex_0_f)
  have "digits_val (replicate k CHR ''0'') = 0" for k
    by (induction k) (simp_all add: z replicate_append_same [symmetric])
  then have "digits_val ?d = n" by (simp add: digits_val_append digits_val_to_hex)
  moreover have "parse_hex (?d @ []) = digits_val ?d"
    by (subst parse_hex_digits) (use to_hex_is_hex [of n] z in auto)
  ultimately show "parse_hex (take 2 (hex_byte n)) = n" by (simp only: t append_Nil2)
qed

subsection \<open>The line and its bytes\<close>

text \<open>\<^verbatim>\<open>sc_bv<128>::to_string\<close>, the highest bit first, and the bytes it stands for.\<close>

definition bv_to_string :: "line128 \<Rightarrow> string" where
  "bv_to_string w = map (\<lambda>b. if b then CHR ''1'' else CHR ''0'') (rev (map (bit w) [0..<128]))"

definition line_byte :: "line128 \<Rightarrow> nat \<Rightarrow> nat" where
  "line_byte w k = unat (ucast (drop_bit (8 * (15 - k)) w) :: byte)"

lemma bits_val_horner:
  "bits_val (map (\<lambda>b. if b then CHR ''1'' else CHR ''0'') bs) = horner_sum of_bool 2 (rev bs)"
  by (induction bs rule: rev_induct) (simp_all add: bits_val_def)

lemma bin2hex_chunks:
  "length s = 8 * n \<Longrightarrow>
   bin2hex s = concat (map (\<lambda>k. hex_byte (bits_val (take 8 (drop (8 * k) s)))) [0..<n])"
proof (induction n arbitrary: s)
  case 0
  then show ?case by (simp add: bin2hex.simps)
next
  case (Suc n)
  then have "bin2hex s = hex_byte (bits_val (take 8 s)) @ bin2hex (drop 8 s)"
    by (subst bin2hex.simps) auto
  moreover have "bin2hex (drop 8 s) = concat (map (\<lambda>k. hex_byte (bits_val (take 8 (drop (8 * k) (drop 8 s))))) [0..<n])"
    by (rule Suc.IH) (simp add: Suc.prems)
  moreover have "[0..<Suc n] = 0 # map Suc [0..<n]" by (simp only: map_Suc_upt upt_conv_Cons)
  ultimately show ?case by (simp add: o_def add.commute)
qed

lemma chunk_val:
  assumes "k < 16"
  shows "bits_val (take 8 (drop (8 * k) (bv_to_string w))) = line_byte w k"
proof -
  let ?m = "8 * (15 - k)"
  have up: "take 8 (drop (8 * k) (rev (map (bit w) [0..<128]))) = rev (map (bit (drop_bit ?m w)) [0..<8])"
  proof (rule nth_equalityI)
    show "length (take 8 (drop (8 * k) (rev (map (bit w) [0..<128])))) =
        length (rev (map (bit (drop_bit ?m w)) [0..<8]))" using assms by simp
    fix i assume "i < length (take 8 (drop (8 * k) (rev (map (bit w) [0..<128]))))"
    then have i: "i < 8" by simp
    then have "127 - (8 * k + i) = ?m + (7 - i)" using assms by simp
    then show "take 8 (drop (8 * k) (rev (map (bit w) [0..<128]))) ! i =
        rev (map (bit (drop_bit ?m w)) [0..<8]) ! i"
      using i assms by (simp add: rev_nth bit_drop_bit_eq add.commute)
  qed
  have "bit (unat (drop_bit ?m w)) = bit (drop_bit ?m w)"
    by (rule ext) (simp add: bit_unsigned_iff)
  then have "bits_val (take 8 (drop (8 * k) (bv_to_string w))) =
      horner_sum of_bool 2 (map (bit (unat (drop_bit ?m w))) [0..<8])"
    by (simp only: bv_to_string_def take_map drop_map up bits_val_horner rev_rev_ident)
  also have "\<dots> = take_bit 8 (unat (drop_bit ?m w))" by (rule horner_sum_bit_eq_take_bit)
  also have "\<dots> = line_byte w k" by (simp add: line_byte_def unsigned_ucast_eq)
  finally show ?thesis .
qed

lemma bin2hex_line:
  "bin2hex (bv_to_string w) = concat (map (\<lambda>k. hex_byte (line_byte w k)) [0..<16])"
proof -
  have len: "length (bv_to_string w) = 8 * 16" by (simp add: bv_to_string_def)
  show ?thesis unfolding bin2hex_chunks [OF len]
    by (intro arg_cong [where f = concat] map_cong refl) (simp add: chunk_val)
qed

lemma drop_hex_bytes:
  assumes "\<forall>b \<in> set bs. b < 256"
  shows "drop (3 * k) (concat (map hex_byte bs)) = concat (map hex_byte (drop k bs))"
  using assms
proof (induction bs arbitrary: k)
  case Nil
  then show ?case by simp
next
  case (Cons b bs)
  then show ?case by (cases k) (simp_all add: hex_byte_parse)
qed

lemma input_hook_bytes:
  assumes "\<forall>b \<in> set bs. b < 256"
  shows "k < length bs \<Longrightarrow> input_hook (concat (map hex_byte bs)) (3 * k) = (Some (bs ! k), 3 * Suc k)"
    and "fst (input_hook (concat (map hex_byte bs)) (3 * length bs)) = None"
proof -
  have len: "length (concat (map hex_byte bs)) = 3 * length bs"
    using assms by (induction bs) (simp_all add: hex_byte_parse)
  show "fst (input_hook (concat (map hex_byte bs)) (3 * length bs)) = None"
    by (simp add: input_hook_def len)
  assume k: "k < length bs"
  then have "drop (3 * k) (concat (map hex_byte bs)) = hex_byte (bs ! k) @ concat (map hex_byte (drop (Suc k) bs))"
    by (simp add: drop_hex_bytes [OF assms] Cons_nth_drop_Suc [symmetric])
  moreover have "bs ! k < 256" using assms k by simp
  ultimately show "input_hook (concat (map hex_byte bs)) (3 * k) = (Some (bs ! k), 3 * Suc k)"
    using k by (simp add: input_hook_def len hex_byte_parse)
qed

subsection \<open>Skipping leading zeros\<close>

text \<open>
  The loop that \<^verbatim>\<open>decode_opcodes\<close> runs on the first line and after a jump, to get rid of the
  zero bytes that stand for the bytes before the entry point: it erases characters, not bytes.
\<close>

definition skip_zeros :: "string \<Rightarrow> string" where
  "skip_zeros s = dropWhile (\<lambda>c. c = CHR ''0'' \<or> c = CHR '' '') s"

subsection \<open>Sign extension\<close>

lemma digits_val_fill:
  "digits_val (replicate m CHR ''0'') = 0" "digits_val (replicate m CHR ''f'') + 1 = 16 ^ m"
proof -
  have z: "digit_val CHR ''0'' = 0" "digit_val CHR ''f'' = 15"
    using hex_digit_ok [of 0] hex_digit_ok [of 15] by (simp_all add: hex_0_f)
  show "digits_val (replicate m CHR ''0'') = 0" "digits_val (replicate m CHR ''f'') + 1 = 16 ^ m"
    by (induction m) (simp_all add: z replicate_append_same [symmetric])
qed

lemma parse_fill:
  assumes "c = CHR ''0'' \<or> c = CHR ''f''"
  shows "parse_hex (replicate m c @ to_hex n) = 16 ^ length (to_hex n) * digits_val (replicate m c) + n"
proof -
  have "is_hex CHR ''0''" "is_hex CHR ''f''"
    using hex_digit_ok [of 0] hex_digit_ok [of 15] by (simp_all add: hex_0_f)
  then have "\<forall>x \<in> set (replicate m c @ to_hex n). is_hex x" using assms to_hex_is_hex by auto
  from parse_hex_digits [OF this, of "[]"] show ?thesis
    by (simp add: digits_val_append digits_val_to_hex)
qed

lemma sign_extend_full:
  assumes "length (to_hex (unat v)) * 4 = sz" and "sz \<le> 64"
  shows "sign_extend v sz = word_of_int (uint v - (if bit v (sz - 1) then 2 ^ sz else 0))"
proof -
  define d where "d = length (to_hex (unat v))"
  have sz: "sz = 4 * d" "d \<le> 16" using assms by (simp_all add: d_def)
  have p16: "(16 :: nat) ^ k = 2 ^ (4 * k)" for k by (simp add: power_mult)
  show ?thesis
  proof (cases "bit v (sz - 1)")
    case True
    have "16 ^ d * digits_val (replicate (16 - d) CHR ''f'') + 16 ^ d = (16 :: nat) ^ 16"
    proof -
      have "16 ^ d * (digits_val (replicate (16 - d) CHR ''f'') + 1) = (16 :: nat) ^ 16"
        unfolding digits_val_fill(2) using sz(2) by (simp flip: power_add)
      then show ?thesis by simp
    qed
    from arg_cong [OF this, of int]
    have "(16 :: int) ^ d * int (digits_val (replicate (16 - d) CHR ''f'')) = 2 ^ 64 - 2 ^ sz"
      by (simp add: sz(1) power_mult)
    then have "int (16 ^ d * digits_val (replicate (16 - d) CHR ''f'') + unat v) =
        uint v - 2 ^ sz + 2 ^ 64"
      by simp
    then have "word_of_nat (16 ^ d * digits_val (replicate (16 - d) CHR ''f'') + unat v) =
        (word_of_int (uint v - 2 ^ sz + 2 ^ 64) :: quad)"
      by (metis of_int_of_nat_eq)
    also have "\<dots> = word_of_int (uint v - 2 ^ sz)" by simp
    finally show ?thesis using True assms(1)
      by (simp add: sign_extend_def Let_def parse_fill d_def)
  next
    case False
    then show ?thesis using assms(1)
      by (simp add: sign_extend_def Let_def parse_fill digits_val_fill)
  qed
qed

subsection \<open>Properties\<close>

text \<open>Padding the printed digits extends the sign: an immediate of 8, 16, 32 or 64 bits is
  widened to the 64-bit number of the same signed value.\<close>

lemma sign_extend_correct:
  assumes "sz \<in> {8, 16, 32, 64}" and "unat v < 2 ^ sz"
  shows "sign_extend v sz = word_of_int (signed_take_bit (sz - 1) (uint v))"
proof -
  obtain k where k: "sz = 4 * k" "0 < k" "sz \<le> 64" using assms(1) by (auto intro: that [of "sz div 4"])
  have p16: "(16 :: nat) ^ j = 2 ^ (4 * j)" for j by (simp add: power_mult)
  have le: "length (to_hex (unat v)) \<le> k" using assms(2) k by (simp add: length_to_hex p16)
  have tb: "take_bit sz (uint v) = uint v"
    using assms(2) by (simp add: take_bit_int_eq_self_iff) (metis of_nat_less_iff of_nat_numeral of_nat_power uint_nat)
  have st: "signed_take_bit (sz - 1) (uint v) = uint v - (if bit v (sz - 1) then 2 ^ sz else 0)"
    using k tb by (auto simp: signed_take_bit_eq_take_bit_minus bit_uint_iff)
  show ?thesis
  proof (cases "length (to_hex (unat v)) = k")
    case True
    then show ?thesis using k st by (simp add: sign_extend_full)
  next
    case False
    then have "length (to_hex (unat v)) \<le> k - 1" using le by simp
    then have "unat v < 2 ^ (4 * (k - 1))" by (simp add: length_to_hex p16)
    then have "uint v < 2 ^ (4 * (k - 1))" by (metis of_nat_less_iff of_nat_numeral of_nat_power uint_nat)
    also have "\<dots> \<le> (2 :: int) ^ (sz - 1)" using k by (intro power_increasing) simp_all
    finally have "take_bit (sz - 1) (uint v) = uint v" by (simp add: take_bit_int_eq_self_iff)
    then have "\<not> bit (uint v) (sz - 1)" by (metis bit_take_bit_iff less_irrefl)
    then have "\<not> bit v (sz - 1)" using k by (simp add: bit_uint_iff)
    then show ?thesis using False k st by (simp add: sign_extend_def Let_def)
  qed
qed

text \<open>C26: the bytes of a fetched line survive the detour over text: pulled through
  \<^verbatim>\<open>input_hook\<close>, the text that \<^verbatim>\<open>bin2hex\<close> makes of a line yields its sixteen bytes, highest
  first, and then the end of input.\<close>

theorem hook_reads_line:
  "map (\<lambda>k. fst (input_hook (bin2hex (bv_to_string w)) (3 * k))) [0..<17] =
   map (\<lambda>k. Some (line_byte w k)) [0..<16] @ [None]"
proof -
  let ?bs = "map (line_byte w) [0..<16]"
  have lt: "\<forall>b \<in> set ?bs. b < 256"
    by (auto simp: line_byte_def intro: less_le_trans [OF unsigned_less])
  have line: "bin2hex (bv_to_string w) = concat (map hex_byte ?bs)"
    by (simp only: bin2hex_line map_map o_def)
  have u: "[0..<17] = [0..<16] @ [16]" by (simp add: upt_rec)
  have "fst (input_hook (bin2hex (bv_to_string w)) (3 * 16)) = None"
    unfolding line using input_hook_bytes(2) [OF lt] by simp
  moreover have "map (\<lambda>k. fst (input_hook (bin2hex (bv_to_string w)) (3 * k))) [0..<16] =
      map (\<lambda>k. Some (line_byte w k)) [0..<16]"
    unfolding line using input_hook_bytes(1) [OF lt] by (intro map_cong refl) simp
  ultimately show ?thesis unfolding u map_append by simp
qed

text \<open>Skipping zeros by character breaks the alignment of the bytes behind it: when the first
  byte kept is below 16, its leading zero is erased, and the hook returns the low digit alone for
  the byte two places further.\<close>

lemma skip_zeros_misaligns:
  assumes "0 < a" "a < 16" "b < 256" "c < 256"
  shows "map (\<lambda>k. fst (input_hook (skip_zeros (concat (map hex_byte [0, a, b, c]))) (3 * k))) [0, 1, 2] =
         [Some a, Some (b mod 16), Some (c mod 16)]"
proof -
  have two: "hex_byte n = [hex_digit (n div 16), hex_digit (n mod 16), CHR '' '']" if "n < 256" for n
    using that by (cases "n < 16")
      (auto simp: hex_byte_def to_hex.simps [of n] to_hex.simps [of "n div 16"] hex_0_f)
  have val: "parse_hex [hex_digit d, CHR '' ''] = d" if "d < 16" for d
    using parse_hex_digits [of "[hex_digit d]" "'' ''"] hex_digit_ok [OF that] by (simp add: digits_val_def)
  have ne: "hex_digit a \<noteq> CHR ''0''" "hex_digit a \<noteq> CHR '' ''"
    using hex_digit_ok [OF assms(2)] hex_digit_ok [of 0] assms(1) by (auto simp: hex_0_f)
  have s: "skip_zeros (concat (map hex_byte [0, a, b, c])) =
      [hex_digit a, CHR '' '', hex_digit (b div 16), hex_digit (b mod 16), CHR '' '',
       hex_digit (c div 16), hex_digit (c mod 16), CHR '' '']"
    using assms ne by (simp add: two skip_zeros_def hex_0_f)
  show ?thesis unfolding s using assms by (simp add: input_hook_def val)
qed

end
