(* ===== verification/Fetch.thy ===== *)
theory Fetch
  imports Common HexText
begin

text \<open>
  The fetch stage (\<^verbatim>\<open>core-project/fetch.cc\<close>, \<^verbatim>\<open>fetch.h\<close>), with the one instruction port
  of \<^verbatim>\<open>const.h\<close>. \<^verbatim>\<open>prev_tag\<close> is the address fetch waits for, \<^verbatim>\<open>RIP\<close> the one it fetches
  from; lines are requested at multiples of 16. A tag travels as an \<^verbatim>\<open>int\<close>.
\<close>

record fetch =
  reset_flag :: bool
  prev_tag :: addr
  firstRunFlag :: bool
  fetch_cycles :: cint
  RIP :: addr
  RSP :: addr

record fetch_ports =
  i_op :: mem_op
  i_tagin :: cint
  i_addr :: addr
  out_data :: line128
  out_addr :: addr
  out_alignedaddr :: quad
  f_out_ready :: bool

record fetch_in =
  f_reset :: bool
  f_clear :: bool
  f_change_RIP :: bool
  f_new_RIP :: addr
  f_i_ready :: bool
  f_i_tagout :: cint
  f_i_data :: line128

type_synonym fetch_state = "fetch \<times> fetch_ports \<times> globals"

definition set_rsp :: "quad \<Rightarrow> globals \<Rightarrow> globals" where
  "set_rsp v g = g\<lparr>regfile := (regfile g)\<lparr>rsp := v\<rparr>\<rparr>"

definition fetch_do_reset :: "bool \<Rightarrow> fetch \<times> globals \<Rightarrow> fetch \<times> globals" where
  "fetch_do_reset rst s = (case s of (f, g) \<Rightarrow>
     (if rst then f\<lparr>reset_flag := True\<rparr> else f, set_rsp (RSP f) g))"

text \<open>\<^verbatim>\<open>RIP & ~15\<close>, written under the test \<^verbatim>\<open>RIP % 16 != 0\<close>.\<close>

definition line_of :: "addr \<Rightarrow> addr" where
  "line_of a = (if a mod 16 \<noteq> 0 then a AND NOT 15 else a)"

definition fetch_clear :: "fetch_state \<Rightarrow> fetch_state" where
  "fetch_clear s = (case s of (f, p, g) \<Rightarrow>
     (f\<lparr>prev_tag := 0\<rparr>,
      p\<lparr>i_op := NONE, i_tagin := 0, i_addr := 0, out_data := 0, out_addr := 0, f_out_ready := False\<rparr>, g))"

definition fetch_redirect :: "addr \<Rightarrow> fetch_state \<Rightarrow> fetch_state" where
  "fetch_redirect new s = (case s of (f, p, g) \<Rightarrow>
     (f\<lparr>RIP := new, prev_tag := new\<rparr>,
      p\<lparr>i_op := READ, i_tagin := ucast (line_of new), i_addr := line_of new\<rparr>,
      g\<lparr>RIP_jump := True\<rparr>))"

text \<open>The answer of the instruction cache; \<^verbatim>\<open>range(127 - 8 * k, 0)\<close> keeps the low bits.\<close>

definition fetch_answer :: "addr \<Rightarrow> fetch_in \<Rightarrow> fetch_state \<Rightarrow> fetch_state" where
  "fetch_answer tempRIP i s = (case s of (f, p, g) \<Rightarrow>
     let tag = signed (f_i_tagout i) :: addr in
     if f_i_ready i \<and> tag = prev_tag f AND NOT 15
     then (let data = (if prev_tag f \<noteq> tag
                       then take_bit (128 - 8 * unat (prev_tag f - tag)) (f_i_data i)
                       else f_i_data i);
               next = tempRIP + 16
           in (f\<lparr>prev_tag := next, RIP := next\<rparr>,
               p\<lparr>out_data := data, out_addr := tag, f_out_ready := True,
                 out_alignedaddr := prev_tag f - tag,
                 i_op := READ, i_tagin := ucast next, i_addr := next\<rparr>, g))
     else s)"

definition fetch_first :: "addr \<Rightarrow> fetch_state \<Rightarrow> fetch_state" where
  "fetch_first tempRIP s = (case s of (f, p, g) \<Rightarrow>
     if firstRunFlag f
     then (f\<lparr>prev_tag := RIP f, firstRunFlag := False\<rparr>,
           p\<lparr>i_op := READ, i_tagin := ucast tempRIP, i_addr := tempRIP\<rparr>, set_rsp (RSP f) g)
     else s)"

definition fetch_work :: "fetch_in \<Rightarrow> fetch_state \<Rightarrow> fetch_state" where
  "fetch_work i s = (case s of (f, p, g) \<Rightarrow>
     let f = f\<lparr>fetch_cycles := fetch_cycles f + 1\<rparr> in
     if f_reset i then (f, p, g)
     else (let s = (if f_clear i then fetch_clear (f, p, g) else (f, p, g));
               tempRIP = line_of (RIP f)
           in if f_change_RIP i then fetch_redirect (f_new_RIP i) s
              else (case s of (f, p, g) \<Rightarrow>
                fetch_first tempRIP (fetch_answer tempRIP i (f, p\<lparr>f_out_ready := False\<rparr>, g)))))"

subsection \<open>Lines\<close>

lemma line_of_eq: "line_of a = a AND NOT 15"
proof (cases "a mod 16 = 0")
  case True
  have "a AND NOT 15 = a"
  proof (rule bit_word_eqI)
    fix n assume n: "n < LENGTH(64)"
    have "take_bit 4 a = 0" using True by (simp add: take_bit_eq_mod)
    then have "\<not> bit a n" if "n < 4" using that by (metis bit_take_bit_iff bit_0_eq bot_apply bot_bool_def)
    moreover have "bit (15 :: addr) n \<longleftrightarrow> n < 4"
      using bit_mask_iff [of 4 n, where ?'a = addr] n by (simp add: mask_eq_exp_minus_1)
    ultimately show "bit (a AND NOT 15) n = bit a n" using n by (auto simp: bit_simps)
  qed
  then show ?thesis using True by (simp add: line_of_def)
next
  case False
  then show ?thesis by (simp add: line_of_def)
qed

lemma line_of_idem [simp]: "line_of (line_of a) = line_of a"
  by (simp add: line_of_eq and.assoc)

lemma and_15_mod: "(a :: addr) AND 15 = a mod 16"
  using take_bit_eq_mask [of 4 a] take_bit_eq_mod [of 4 a] by (simp add: mask_eq_exp_minus_1)

lemma line_fold: "a AND - 16 = line_of a"
  by (simp add: line_of_eq)

lemma line_of_offset: "a - line_of a = a mod 16"
proof -
  have "(a AND 15) + (a AND NOT 15) = a"
    by (subst disjunctive_add) (auto simp: bit_simps intro!: bit_word_eqI)
  then have "a - line_of a = a AND 15" by (simp add: line_of_eq algebra_simps)
  then show ?thesis by (simp only: and_15_mod)
qed

lemma offset_less: "unat (a - line_of a) < 16"
  unfolding line_of_offset by (simp add: unat_mod)

lemma line_of_aligned: "a mod 16 = 0 \<longleftrightarrow> line_of a = a"
  unfolding line_of_offset [symmetric] right_minus_eq by auto

lemma line_of_next: "line_of (line_of a + 16) = line_of a + 16"
proof -
  have "unat (line_of a) mod 16 = 0"
    using line_of_aligned [of "line_of a"] by (simp add: unat_eq_0 [symmetric] unat_mod)
  moreover have "unat ((line_of a + 16) mod 16) = (unat (line_of a) + 16) mod 2 ^ 64 mod 16"
    by (simp add: unat_mod unat_word_ariths)
  moreover have "(unat (line_of a) + 16) mod 2 ^ 64 mod 16 = (unat (line_of a) + 16) mod 16"
    by (rule mod_mod_cancel) (simp add: dvd_def)
  ultimately have "(line_of a + 16) mod 16 = 0" by (simp add: unat_eq_0 [symmetric])
  then show ?thesis by (simp only: line_of_aligned)
qed

lemma line_byte_take:
  assumes "k < 16" "n < 16"
  shows "line_byte (take_bit (128 - 8 * n) w) k = (if k < n then 0 else line_byte w k)"
proof -
  have "(ucast (drop_bit (8 * (15 - k)) (take_bit (128 - 8 * n) w)) :: byte) =
      (if k < n then 0 else ucast (drop_bit (8 * (15 - k)) w))"
    using assms by (intro bit_word_eqI) (auto simp: bit_simps)
  then show ?thesis by (simp add: line_byte_def)
qed


text \<open>What holds between clock edges once fetch runs: the requested line is the one it waits for.\<close>

definition fetch_inv :: "fetch \<Rightarrow> fetch_ports \<Rightarrow> bool" where
  "fetch_inv f p \<longleftrightarrow> i_op p = READ \<and> i_addr p = line_of (prev_tag f) \<and> i_tagin p = ucast (i_addr p) \<and>
     line_of (RIP f) = i_addr p \<and> \<not> firstRunFlag f"

lemma fetch_answer_hit:
  assumes "f_i_ready i" and "signed (f_i_tagout i) = line_of (prev_tag f)"
  shows "fetch_answer t i (f, p, g) =
    (f\<lparr>prev_tag := t + 16, RIP := t + 16\<rparr>,
     p\<lparr>out_data := if prev_tag f \<noteq> line_of (prev_tag f)
          then take_bit (128 - 8 * unat (prev_tag f - line_of (prev_tag f))) (f_i_data i) else f_i_data i,
       out_addr := line_of (prev_tag f), f_out_ready := True,
       out_alignedaddr := prev_tag f - line_of (prev_tag f),
       i_op := READ, i_tagin := ucast (t + 16), i_addr := t + 16\<rparr>, g)"
  unfolding fetch_answer_def Let_def split_conv line_of_eq [symmetric] using assms by simp

lemma fetch_work_plain:
  assumes "\<not> f_reset i" "\<not> f_clear i" "\<not> f_change_RIP i"
  shows "fetch_work i (f, p, g) = fetch_first (line_of (RIP f)) (fetch_answer (line_of (RIP f)) i
     (f\<lparr>fetch_cycles := fetch_cycles f + 1\<rparr>, p\<lparr>f_out_ready := False\<rparr>, g))"
  unfolding fetch_work_def Let_def split_conv using assms by simp

subsection \<open>Properties\<close>

definition sample_fetch :: "fetch_state" where
  "sample_fetch = (\<lparr>reset_flag = False, prev_tag = 0x10005, firstRunFlag = False, fetch_cycles = 0,
       RIP = 0x10005, RSP = 0\<rparr>,
     \<lparr>i_op = READ, i_tagin = 0x10000, i_addr = 0x10000, out_data = 0, out_addr = 0,
       out_alignedaddr = 0, f_out_ready = False\<rparr>, globals_init)"

definition sample_fetch_in :: fetch_in where
  "sample_fetch_in = \<lparr>f_reset = False, f_clear = False, f_change_RIP = False, f_new_RIP = 0x20003,
     f_i_ready = True, f_i_tagout = 0x10000, f_i_data = 0x0123456789\<rparr>"

text \<open>When the line that fetch waits for arrives, decode is given the line with the bytes
  in front of the fetch address zeroed and with the number of these bytes, the following line is
  requested, and fetch waits for that; the address must fit the signed 32-bit tag.\<close>

theorem fetch_delivers:
  assumes "fetch_inv f p" and "\<not> f_reset i" "\<not> f_clear i" "\<not> f_change_RIP i"
    and "f_i_ready i" "f_i_tagout i = i_tagin p" "sint (i_addr p) < 2 ^ 31" "0 \<le> sint (i_addr p)"
  shows "\<exists>f' p'. fetch_work i (f, p, g) = (f', p', g) \<and> f_out_ready p' \<and> out_addr p' = i_addr p \<and>
    out_alignedaddr p' = prev_tag f mod 16 \<and>
    (\<forall>k<16. line_byte (out_data p') k =
        (if k < unat (prev_tag f mod 16) then 0 else line_byte (f_i_data i) k)) \<and>
    i_addr p' = i_addr p + 16 \<and> fetch_inv f' p'"
proof -
  have tag: "signed (f_i_tagout i) = line_of (prev_tag f)"
    using assms(1,6-8) narrow_signed_eq_iff [of "i_addr p"] by (simp add: fetch_inv_def)
  let ?l = "line_of (prev_tag f)"
  let ?data = "if prev_tag f \<noteq> ?l then take_bit (128 - 8 * unat (prev_tag f - ?l)) (f_i_data i) else f_i_data i"
  have off: "prev_tag f - ?l = prev_tag f mod 16" by (rule line_of_offset)
  have bytes: "line_byte ?data k = (if k < unat (prev_tag f mod 16) then 0 else line_byte (f_i_data i) k)" if "k < 16" for k
  proof (cases "prev_tag f = ?l")
    case True
    then have "prev_tag f mod 16 = 0" by (simp only: line_of_aligned)
    then show ?thesis using True by simp
  next
    case False
    then show ?thesis using line_byte_take [OF that offset_less, of "prev_tag f" "f_i_data i"] by (simp add: off)
  qed
  have next_line: "line_of (?l + 16) = ?l + 16" by (rule line_of_next)
  have work: "fetch_work i (f, p, g) =
    (f\<lparr>fetch_cycles := fetch_cycles f + 1, prev_tag := ?l + 16, RIP := ?l + 16\<rparr>,
     p\<lparr>f_out_ready := True, out_data := ?data, out_addr := ?l, out_alignedaddr := prev_tag f - ?l,
       i_op := READ, i_tagin := ucast (?l + 16), i_addr := ?l + 16\<rparr>, g)"
    using assms(1) tag unfolding fetch_work_plain [OF assms(2-4)]
    by (subst fetch_answer_hit) (simp_all add: fetch_first_def fetch_inv_def assms(5))
  show ?thesis
    unfolding work using assms(1) bytes off next_line by (auto simp: fetch_inv_def)
qed

theorem fetch_delivers_witness:
  "\<exists>f' p' g'. fetch_work sample_fetch_in sample_fetch = (f', p', g') \<and> i_addr p' = 0x10010 \<and>
     line_byte (out_data p') 15 = 0x89"
proof -
  obtain f p g where s: "sample_fetch = (f, p, g)" by (cases sample_fetch)
  then have fp: "prev_tag f = 0x10005" "RIP f = 0x10005" "\<not> firstRunFlag f" "i_op p = READ"
      "i_tagin p = 0x10000" "i_addr p = 0x10000"
    by (auto simp: sample_fetch_def)
  have l: "line_of 0x10005 = 0x10000" by (simp add: line_of_def)
  have inv: "fetch_inv f p" by (simp add: fetch_inv_def fp l)
  have "line_byte (0x0123456789 :: line128) 15 = 0x89"
    by (simp add: line_byte_def)
  moreover have "\<exists>f' p'. fetch_work sample_fetch_in (f, p, g) = (f', p', g) \<and> f_out_ready p' \<and> out_addr p' = i_addr p \<and>
    out_alignedaddr p' = prev_tag f mod 16 \<and>
    (\<forall>k<16. line_byte (out_data p') k =
        (if k < unat (prev_tag f mod 16) then 0 else line_byte (f_i_data sample_fetch_in) k)) \<and>
    i_addr p' = i_addr p + 16 \<and> fetch_inv f' p'"
    by (rule fetch_delivers [OF inv]) (simp_all add: sample_fetch_in_def fp)
  ultimately show ?thesis by (auto simp: s fp sample_fetch_in_def)
qed

text \<open>A redirection makes fetch wait for the line of the new address and marks the jump;
  an answer to an older request that arrives next is not handed to decode and changes nothing.\<close>

lemma fetch_redirect_drops_old:
  assumes "\<not> f_reset i" "f_change_RIP i" and "\<not> firstRunFlag f"
    and "\<not> f_reset j" "\<not> f_clear j" "\<not> f_change_RIP j"
    and "signed (f_i_tagout j) \<noteq> line_of (f_new_RIP i)"
  shows "\<exists>f1 p1 g1 f2 p2 g2. fetch_work i (f, p, g) = (f1, p1, g1) \<and> RIP_jump g1 \<and> fetch_inv f1 p1 \<and>
    prev_tag f1 = f_new_RIP i \<and>
    fetch_work j (f1, p1, g1) = (f2, p2, g2) \<and> \<not> f_out_ready p2 \<and> fetch_inv f2 p2 \<and>
    i_addr p2 = line_of (f_new_RIP i) \<and> prev_tag f2 = f_new_RIP i"
  using assms
  by (simp add: fetch_work_def fetch_clear_def fetch_redirect_def fetch_answer_def fetch_first_def
      fetch_inv_def Let_def line_fold)

end
