(* ===== verification/Cracker.thy ===== *)
theory Cracker
  imports HexText Dispatch Execute
begin

text \<open>
  Cracking (\<^verbatim>\<open>Decoder::crack_opcodes\<close> in \<^verbatim>\<open>core-project/decoder.cc\<close>): each disassembled
  instruction becomes one or more micro-operations. The disassembler's structures are declared in
  its own headers, which are not part of the repository; the records hold the fields the code
  uses. \<open>crack_insn\<close> lists the calls of \<^verbatim>\<open>push2q\<close> that an instruction causes, and
  \<open>crack_pops\<close> says whether the queues of sizes and addresses are advanced: an instruction that
  no branch of the chain of tests accepts is dropped without a micro-operation and without that.
\<close>

datatype ud_optype = UD_OP_NONE | UD_OP_REG | UD_OP_MEM | UD_OP_IMM | UD_OP_JIMM | UD_OP_CONST
  | UD_OP_other nat

record operand =
  otype :: ud_optype
  op_base :: reg
  op_index :: reg
  op_scale :: byte
  op_offset :: byte
  op_size :: byte
  op_lval :: quad

record insn =
  mnem :: mnemonic
  operand0 :: operand
  operand1 :: operand
  operand2 :: operand

subsection \<open>One micro-operation\<close>

type_synonym push = "mnemonic \<times> reg \<times> reg \<times> reg \<times> quad \<times> src_type"

text \<open>The value fields of \<^verbatim>\<open>temp_uop\<close> are not assigned: they are those of \<open>junk\<close>.\<close>

definition push2q :: "uop \<Rightarrow> cint \<Rightarrow> addr \<Rightarrow> push \<Rightarrow> uop" where
  "push2q junk sz ad c = (case c of (m, r1, r2, r3, imm, s) \<Rightarrow>
     junk\<lparr>opcode := m, reg1 := r1, reg2 := r2, reg3 := r3, src := s, immed := imm,
          opsize := sz, address := ad\<rparr>)"

text \<open>\<^verbatim>\<open>sign_extend(o.lval.uqword, o.size)\<close>, and the displacement, which passes through an
  \<^verbatim>\<open>int\<close>.\<close>

definition imm_of :: "operand \<Rightarrow> quad" where
  "imm_of p = sign_extend (op_lval p) (unat (op_size p))"

definition disp_of :: "operand \<Rightarrow> cint" where
  "disp_of p = ucast (sign_extend (op_lval p) (unat (op_offset p)))"

subsection \<open>Instructions without a memory operand\<close>

definition crack_imul :: "insn \<Rightarrow> push list" where
  "crack_imul u =
     (let m = mnem u; a = operand0 u; b = operand1 u; c = operand2 u in
      if otype c = UD_OP_REG then [(m, op_base b, op_base a, op_base c, 0, IMUL_3)]
      else if otype c \<noteq> UD_OP_NONE then [(m, op_base b, op_base a, UD_NONE, imm_of c, IMUL_3)]
      else if otype b = UD_OP_REG then [(m, op_base b, op_base a, UD_NONE, 0, IMUL_2R)]
      else if otype b \<noteq> UD_OP_NONE then [(m, UD_NONE, op_base a, UD_NONE, imm_of c, IMUL_2I)]
      else [(m, op_base a, UD_NONE, UD_NONE, 0, IMUL_1)])"

subsection \<open>Memory operands\<close>

text \<open>\<open>i\<close> is the memory operand and \<open>j\<close> the other one.\<close>

definition load_or_store :: "insn \<Rightarrow> mnemonic" where
  "load_or_store u =
     (if otype (operand1 u) = UD_OP_NONE then UD_Iload
      else if mnem u = UD_Ilea then UD_Ilea
      else if otype (operand0 u) = UD_OP_MEM then UD_Istore else UD_Iload)"

text \<open>The micro-operations that put the address into \<^verbatim>\<open>load_store_reg\<close>: without an index, with
  the base as index, with both.\<close>

definition add_disp :: "cint \<Rightarrow> push" where
  "add_disp d = (UD_Iadd, UD_NONE, Load_store_reg, UD_NONE, signed d, IMMED)"

definition crack_address :: "operand \<Rightarrow> push list" where
  "crack_address i =
     (if op_index i = UD_NONE
      then (UD_Imov, op_base i, Load_store_reg, UD_NONE, 0, REG)
             # (if disp_of i \<noteq> 0 then [add_disp (disp_of i)] else [])
      else if op_base i = op_index i
      then (UD_Imov, op_base i, Load_store_reg, UD_NONE, 0, REG)
             # (if op_scale i \<noteq> 0
                then [(UD_Iimul, UD_NONE, Load_store_reg, UD_NONE, ucast (op_scale i) + 1, LOADMUL)]
                else [])
             @ (if op_offset i \<noteq> 0 then [add_disp (disp_of i)] else [])
      else (UD_Imov, op_index i, Load_store_reg, UD_NONE, 0, REG)
             # (if op_scale i \<noteq> 0
                then [(UD_Iimul, UD_NONE, Load_store_reg, UD_NONE, ucast (op_scale i), LOADMUL)]
                else [])
             @ (if op_base i \<noteq> UD_NONE
                then [(UD_Iadd, op_base i, Load_store_reg, UD_NONE, 0, REG)] else [])
             @ (if op_offset i \<noteq> 0 then [add_disp (disp_of i)] else []))"

definition crack_compare :: "mnemonic \<Rightarrow> operand \<Rightarrow> push list" where
  "crack_compare m j =
     [(UD_Iload, Load_store_reg, Scratchregls, UD_NONE, 0, REG),
      (if op_base j \<noteq> UD_NONE then (m, Scratchregls, op_base j, UD_NONE, 0, REG)
       else (m, UD_NONE, Scratchregls, UD_NONE, imm_of j, IMMED))]"

definition crack_load :: "insn \<Rightarrow> push list" where
  "crack_load u =
     [(UD_Iload, Load_store_reg, Scratchregls, UD_NONE, 0, REG),
      (mnem u, Scratchregls, op_base (operand0 u), UD_NONE, 0, REG)]"

text \<open>The use of the address. Without an index the store takes its source as a register.\<close>

definition crack_access :: "insn \<Rightarrow> operand \<Rightarrow> operand \<Rightarrow> push list" where
  "crack_access u i j =
     (let m = mnem u; ls = load_or_store u in
      if op_index i = UD_NONE
      then (if m = UD_Icmp \<or> m = UD_Itest then crack_compare m j
            else if ls = UD_Iload then crack_load u
            else if ls = UD_Istore
            then [(m, op_base (operand1 u), Scratchregls, UD_NONE, 0, REG),
                  (ls, Scratchregls, Load_store_reg, UD_NONE, 0, REG)]
            else [(UD_Imov, Load_store_reg, op_base (operand0 u), UD_NONE, 0, REG)])
      else if m = UD_Ilea
      then [(UD_Imov, Load_store_reg,
             op_base (if op_base i = op_index i then operand0 u else j), UD_NONE, 0, REG)]
      else if m = UD_Icmp \<or> m = UD_Itest then crack_compare m j
      else if ls = UD_Iload then crack_load u
      else [(if op_base j \<noteq> UD_NONE then (m, op_base j, Scratchregls, UD_NONE, 0, REG)
             else (m, UD_NONE, Scratchregls, UD_NONE, imm_of j, IMMED)),
            (ls, Scratchregls, Load_store_reg, UD_NONE, 0, REG)])"

subsection \<open>One instruction\<close>

definition crack_insn :: "insn \<Rightarrow> push list" where
  "crack_insn u =
     (let m = mnem u; a = operand0 u; b = operand1 u in
      if otype a = UD_OP_NONE \<and> otype b = UD_OP_NONE
      then [(m, UD_NONE, UD_NONE, UD_NONE, 0, NO_SRC)]
      else if m = UD_Iimul then crack_imul u
      else if otype a = UD_OP_REG \<and> otype b = UD_OP_REG
      then [(m, op_base b, op_base a, UD_NONE, 0, REG)]
      else if otype a = UD_OP_JIMM then [(m, UD_NONE, UD_NONE, UD_NONE, imm_of a, IMMED)]
      else if otype b = UD_OP_NONE \<and> otype a \<noteq> UD_OP_MEM
      then (if m = UD_Ipop then [(m, UD_NONE, op_base a, UD_NONE, 0, REG)]
            else [(m, op_base a, UD_NONE, UD_NONE, 0, REG)])
      else if otype a = UD_OP_REG \<and> otype b = UD_OP_CONST
      then [(m, UD_NONE, op_base a, UD_NONE, 1, IMMED)]
      else if otype b = UD_OP_IMM \<and> otype a = UD_OP_REG
      then [(m, UD_NONE, op_base a, UD_NONE, imm_of b, IMMED)]
      else if otype b = UD_OP_MEM \<or> otype a = UD_OP_MEM
      then (let (i, j) = (if otype a = UD_OP_MEM then (a, b) else (b, a))
            in crack_address i @ crack_access u i j)
      else [])"

definition crack_pops :: "insn \<Rightarrow> bool" where
  "crack_pops u =
     (let a = operand0 u; b = operand1 u in
      otype a = UD_OP_NONE \<and> otype b = UD_OP_NONE \<or> mnem u = UD_Iimul \<or>
      otype a = UD_OP_REG \<and> otype b = UD_OP_REG \<or> otype a = UD_OP_JIMM \<or>
      otype b = UD_OP_NONE \<and> otype a \<noteq> UD_OP_MEM \<or> otype a = UD_OP_REG \<and> otype b = UD_OP_CONST \<or>
      otype b = UD_OP_IMM \<and> otype a = UD_OP_REG \<or> otype b = UD_OP_MEM \<or> otype a = UD_OP_MEM)"

subsection \<open>The loop\<close>

text \<open>
  The state is the queue of sizes, the queue of addresses and the decode queue. \<^verbatim>\<open>front\<close> and
  \<^verbatim>\<open>pop\<close> of an empty queue are undefined.
\<close>

fun crack_opcodes ::
  "uop \<Rightarrow> insn list \<Rightarrow> cint list \<times> addr list \<times> uop list \<Rightarrow> fault + (cint list \<times> addr list \<times> uop list)" where
  "crack_opcodes junk [] s = Inr s"
| "crack_opcodes junk (u # us) (szs, ads, q) =
     (if crack_pops u
      then (case (szs, ads) of
              (sz # szs', ad # ads') \<Rightarrow>
                crack_opcodes junk us (szs', ads', q @ map (push2q junk sz ad) (crack_insn u))
            | _ \<Rightarrow> Inl Pop_of_empty_queue)
      else crack_opcodes junk us (szs, ads, q))"

subsection \<open>What the address micro-operations compute\<close>

text \<open>The reference meaning of a sequence of micro-operations: one after the other, every operand read
  where dispatch reads it, on a file of all register codes, scratch registers included.\<close>

type_synonym env = "reg \<Rightarrow> quad"

definition run_uop :: "push \<Rightarrow> env \<Rightarrow> env" where
  "run_uop c r = (case c of (m, r1, r2, r3, imm, s) \<Rightarrow>
     let u = uop_empty\<lparr>opcode := m, src := s, reg1 := r1, reg2 := r2, reg3 := r3, immed := imm,
               value1 := (if s = IMMED \<or> s = IMUL_2I \<or> s = LOADMUL then imm else r r1),
               value2 := r r2, value3 := r r3\<rparr>
     in case alu_step m u 0 of Inr (u', e) \<Rightarrow> r(reg2 u' := value2 u') | Inl f \<Rightarrow> r)"

lemma run_mov [simp]: "run_uop (UD_Imov, r1, r2, UD_NONE, 0, REG) r = r(r2 := r r1)"
  by (simp add: run_uop_def)

lemma run_add [simp]: "run_uop (UD_Iadd, r1, r2, UD_NONE, 0, REG) r = r(r2 := r r2 + r r1)"
  by (simp add: run_uop_def)

lemma run_add_disp [simp]: "run_uop (add_disp d) r = r(Load_store_reg := r Load_store_reg + signed d)"
  by (simp add: run_uop_def add_disp_def)

lemma run_scale [simp]:
  "run_uop (UD_Iimul, UD_NONE, r2, UD_NONE, v, LOADMUL) r = r(r2 := r r2 * v)"
  by (simp add: run_uop_def alu_imul_def)

definition scale_factor :: "operand \<Rightarrow> quad" where
  "scale_factor p = (if op_scale p = 0 then 1 else ucast (op_scale p))"

definition effective_address :: "operand \<Rightarrow> env \<Rightarrow> addr" where
  "effective_address p r =
     (if op_base p = UD_NONE then 0 else r (op_base p))
     + (if op_index p = UD_NONE then 0 else r (op_index p) * scale_factor p)
     + signed (disp_of p)"

lemma sign_extend_0 [simp]: "sign_extend 0 n = 0"
proof (cases "n = 4")
  case True
  then show ?thesis using sign_extend_full [of 0 n] by (simp add: to_hex.simps)
next
  case False
  then show ?thesis by (simp add: sign_extend_def to_hex.simps)
qed

lemma crack_address_value:
  assumes "op_base p \<noteq> Load_store_reg"
    and "op_index p = UD_NONE \<longrightarrow> op_base p \<noteq> UD_NONE"
    and "op_offset p = 0 \<longrightarrow> op_lval p = 0"
  shows "fold run_uop (crack_address p) r Load_store_reg =
    (if op_base p = op_index p \<and> op_scale p = 0
     then effective_address p r - r (op_base p) else effective_address p r)"
  using assms
  by (auto simp: crack_address_def effective_address_def scale_factor_def disp_of_def algebra_simps)

lemma crack_address_frame: "q \<noteq> Load_store_reg \<Longrightarrow> fold run_uop (crack_address p) r q = r q"
  by (auto simp: crack_address_def)

subsection \<open>What the loop produces\<close>

lemma crack_pops_iff: "crack_pops u \<longleftrightarrow> crack_insn u \<noteq> []"
  by (auto simp: crack_pops_def crack_insn_def crack_imul_def crack_address_def Let_def)

subsection \<open>Properties\<close>

definition sample_operand :: operand where
  "sample_operand = \<lparr>otype = UD_OP_NONE, op_base = UD_NONE, op_index = UD_NONE, op_scale = 0,
     op_offset = 0, op_size = 0, op_lval = 0\<rparr>"

definition sample_lea :: insn where
  "sample_lea = \<lparr>mnem = UD_Ilea, operand0 = sample_operand\<lparr>otype := UD_OP_REG, op_base := UD_R_RAX\<rparr>,
     operand1 = sample_operand\<lparr>otype := UD_OP_MEM, op_base := UD_R_RBX, op_index := UD_R_RCX, op_scale := 4,
       op_offset := 8, op_lval := 0xF8\<rparr>,
     operand2 = sample_operand\<rparr>"

lemma sample_disp: "signed (disp_of (operand1 sample_lea)) = (-8 :: quad)"
proof -
  have "sign_extend 0xF8 8 = word_of_int (uint (0xF8 :: quad) - (if bit (0xF8 :: quad) (8 - 1) then 2 ^ 8 else 0))"
    by (rule sign_extend_full) (simp_all add: to_hex.simps)
  then have "sign_extend 0xF8 8 = -8" by (simp add: bit_simps bit_iff_odd)
  then show ?thesis by (simp add: disp_of_def sample_lea_def)
qed

text \<open>C18: the micro-operations for a memory operand leave base plus scaled index plus
  sign-extended displacement in \<^verbatim>\<open>load_store_reg\<close>, except that an operand whose base is its
  index without a scale (one times the index) counts the register once instead of twice.\<close>

theorem crack_address_correct:
  assumes "op_base p \<noteq> Load_store_reg"
    and "op_index p = UD_NONE \<longrightarrow> op_base p \<noteq> UD_NONE"
    and "op_offset p = 0 \<longrightarrow> op_lval p = 0"
  shows "fold run_uop (crack_address p) r Load_store_reg =
    (if op_base p = op_index p \<and> op_scale p = 0
     then effective_address p r - r (op_base p) else effective_address p r)"
  using assms by (rule crack_address_value)

theorem crack_address_correct_witness:
  "fold run_uop (crack_address (operand1 sample_lea)) (\<lambda>x. if x = UD_R_RBX then 100 else 5) Load_store_reg = 112"
  by (subst crack_address_correct)
    (simp_all add: effective_address_def sample_disp scale_factor_def, simp_all add: sample_lea_def sample_operand_def)

text \<open>\<^verbatim>\<open>lea\<close> puts the effective address of its operand into its destination and changes
  no other register but the scratch register of addresses.\<close>

lemma crack_lea:
  assumes "mnem u = UD_Ilea" "otype (operand0 u) = UD_OP_REG" "otype (operand1 u) = UD_OP_MEM"
    and "p = operand1 u" "op_base p \<noteq> Load_store_reg"
    and "op_index p = UD_NONE \<longrightarrow> op_base p \<noteq> UD_NONE" "op_offset p = 0 \<longrightarrow> op_lval p = 0"
    and "op_base p = op_index p \<longrightarrow> op_scale p \<noteq> 0"
    and "q \<noteq> Load_store_reg"
  shows "fold run_uop (crack_insn u) r q =
    (if q = op_base (operand0 u) then effective_address p r else r q)"
proof -
  let ?r = "fold run_uop (crack_address p) r"
  have "crack_access u p (operand0 u) = [(UD_Imov, Load_store_reg, op_base (operand0 u), UD_NONE, 0, REG)]"
    using assms by (simp add: crack_access_def load_or_store_def Let_def)
  then have "fold run_uop (crack_insn u) r = ?r(op_base (operand0 u) := ?r Load_store_reg)"
    using assms(1-4) by (simp add: crack_insn_def Let_def)
  moreover have "?r Load_store_reg = effective_address p r"
    using crack_address_value [OF assms(5-7), of r] assms(8) by auto
  ultimately show ?thesis using crack_address_frame [OF assms(9), of p r] by simp
qed

lemma crack_opcodes_zip:
  assumes "kept = filter crack_pops us" and "length kept \<le> length szs" and "length kept \<le> length ads"
  shows "crack_opcodes junk us (szs, ads, q) =
    Inr (drop (length kept) szs, drop (length kept) ads,
         q @ concat (map (\<lambda>(u, sz, ad). map (push2q junk sz ad) (crack_insn u)) (zip kept (zip szs ads))))"
  using assms
proof (induction us arbitrary: kept szs ads q)
  case Nil
  then show ?case by simp
next
  case (Cons u us)
  show ?case
  proof (cases "crack_pops u")
    case True
    then obtain sz szs1 ad ads1 where "szs = sz # szs1" "ads = ad # ads1"
      using Cons.prems by (cases szs; cases ads) auto
    then show ?thesis using Cons True by simp
  next
    case False
    then show ?thesis using Cons by simp
  qed
qed

text \<open>Every micro-operation in the decode queue carries a size and an address from the two
  queues, in order; an instruction that no case accepts takes none, so the instructions after it
  get the sizes and addresses of their predecessors.\<close>

lemma crack_opcodes_attributes:
  assumes "kept = filter crack_pops us" and "length kept \<le> length szs" and "length kept \<le> length ads"
  shows "crack_opcodes junk us (szs, ads, q) =
    Inr (drop (length kept) szs, drop (length kept) ads,
         q @ concat (map (\<lambda>(u, sz, ad). map (push2q junk sz ad) (crack_insn u)) (zip kept (zip szs ads))))"
  using assms by (rule crack_opcodes_zip)

end
