(* ===== verification/Decoder.thy ===== *)
theory Decoder
  imports Cracker
begin

text \<open>
  The decode stage (\<^verbatim>\<open>Decoder::work\<close> and \<^verbatim>\<open>Decoder::decode_opcodes\<close> in
  \<^verbatim>\<open>core-project/decoder.cc\<close>). The disassembler library is a parameter \<open>disasm\<close>: from the
  text of the line and the position of the input hook it returns what \<^verbatim>\<open>ud_disassemble\<close>
  returns, the number of bytes of the next instruction (0 at the end of the input), the
  instruction, and the new position of the hook. The loop over it need not end for an arbitrary
  parameter, so it is a partial function; \<open>None\<close> is not returning.

  \<^verbatim>\<open>scratch_q\<close> holds the two-digit texts of the bytes not yet decoded; what is left of it at the
  end of the line becomes \<^verbatim>\<open>rem_string\<close>, which is put in front of the next line.
\<close>

type_synonym disassembler = "string \<Rightarrow> nat \<Rightarrow> nat \<times> insn \<times> nat"

record decoder =
  dec_reset_flag :: bool
  rem_string :: string
  first_run :: bool
  last_good_addr :: addr
  scratch_q :: "string list"
  dec_out_ready :: bool

record decoder_in =
  dec_reset :: bool
  dec_clear :: bool
  dec_in_ready :: bool
  in_data :: line128
  in_addr :: addr
  in_alignedaddr :: quad

record decode_run =
  temp_addr :: addr
  last_good :: addr
  scratch :: "string list"
  rem :: string
  sizes :: "cint list"
  addrs :: "addr list"
  opcodes :: "insn list"

definition decoder_do_reset :: "bool \<Rightarrow> decoder \<Rightarrow> decoder" where
  "decoder_do_reset rst d = (if rst then d\<lparr>dec_reset_flag := True\<rparr> else d)"

subsection \<open>The text to disassemble\<close>

definition insert_at :: "nat \<Rightarrow> string \<Rightarrow> string \<Rightarrow> string" where
  "insert_at n t s = take n s @ t @ drop n s"

text \<open>The bytes left over from the previous line, each followed by a blank.\<close>

definition leftover :: "string list \<Rightarrow> string" where
  "leftover ts = concat (map (\<lambda>t. t @ '' '') ts)"

text \<open>The text, the address of its first byte, and the two flags afterwards.\<close>

definition decode_text :: "decoder_in \<Rightarrow> decoder \<Rightarrow> bool \<Rightarrow> string \<times> addr \<times> bool" where
  "decode_text i d jump =
     (let pos = in_alignedaddr i;
          addr = (if first_run d then in_addr i else if jump then in_addr i else last_good_addr d);
          bs = bin2hex (bv_to_string (in_data i));
          (bs, addr) = (if first_run d then (skip_zeros bs, addr + pos) else (bs, addr))
      in if rem_string d \<noteq> [] \<and> \<not> jump
         then (if pos \<noteq> 0
               then (insert_at (unat pos - 1) '' '' (insert_at (unat pos) (rem_string d) bs), addr, jump)
               else (rem_string d @ bs, addr, jump))
         else if jump then (skip_zeros bs, addr + pos, False)
         else (bs, addr, jump))"

subsection \<open>The loop over the disassembler\<close>

definition accept_insn :: "nat \<Rightarrow> insn \<Rightarrow> decode_run \<Rightarrow> decode_run" where
  "accept_insn n u l = l\<lparr>sizes := sizes l @ [word_of_nat n], addrs := addrs l @ [temp_addr l],
     temp_addr := temp_addr l + word_of_nat n, last_good := temp_addr l + word_of_nat n,
     scratch := drop n (scratch l), opcodes := opcodes l @ [u]\<rparr>"

definition flush_scratch :: "decode_run \<Rightarrow> decode_run" where
  "flush_scratch l = l\<lparr>rem := rem l @ leftover (scratch l), scratch := []\<rparr>"

partial_function (option) decode_loop ::
  "disassembler \<Rightarrow> string \<Rightarrow> nat \<Rightarrow> decode_run \<Rightarrow> decode_run option" where
  "decode_loop disasm s seek l =
     (case disasm s seek of (n, u, seek') \<Rightarrow>
        if n = 0 then Some (flush_scratch l)
        else if mnem u = UD_Iinvalid
        then decode_loop disasm s seek' ((flush_scratch l)\<lparr>last_good := temp_addr l\<rparr>)
        else decode_loop disasm s seek' (accept_insn n u l))"

subsection \<open>The handler\<close>

definition decode_opcodes ::
  "disassembler \<Rightarrow> uop \<Rightarrow> decoder_in \<Rightarrow> decoder \<times> globals \<Rightarrow> (fault + (decoder \<times> globals)) option" where
  "decode_opcodes disasm junk i s = (case s of (d, g) \<Rightarrow>
     case decode_text i d (RIP_jump g) of (bs, addr, jump) \<Rightarrow>
       case decode_loop disasm bs 0 \<lparr>temp_addr = addr, last_good = last_good_addr d,
              scratch = scratch_q d @ byte_stack bs, rem = [], sizes = [], addrs = [], opcodes = []\<rparr> of
         None \<Rightarrow> None
       | Some l \<Rightarrow> Some (case crack_opcodes junk (opcodes l) (sizes l, addrs l, dd_uop_queue g) of
             Inl f \<Rightarrow> Inl f
           | Inr (_, _, q) \<Rightarrow>
               Inr (d\<lparr>rem_string := rem l, first_run := False, last_good_addr := last_good l,
                      scratch_q := scratch l\<rparr>,
                    g\<lparr>dd_uop_queue := q, RIP_jump := jump\<rparr>)))"

definition decoder_work ::
  "disassembler \<Rightarrow> uop \<Rightarrow> decoder_in \<Rightarrow> decoder \<times> globals \<Rightarrow> (fault + (decoder \<times> globals)) option" where
  "decoder_work disasm junk i s =
     (if dec_reset i then Some (Inr s)
      else if \<not> dec_in_ready i then Some (Inr s)
      else if dec_clear i then Some (Inr s)
      else case decode_opcodes disasm junk i s of
        None \<Rightarrow> None
      | Some (Inl f) \<Rightarrow> Some (Inl f)
      | Some (Inr (d, g)) \<Rightarrow> Some (Inr (d\<lparr>dec_out_ready := True\<rparr>, g)))"

subsection \<open>A run of the disassembler\<close>

inductive disassembles :: "disassembler \<Rightarrow> string \<Rightarrow> nat \<Rightarrow> (nat \<times> insn) list \<Rightarrow> bool"
  for disasm s where
  stop: "disasm s p = (0, u, p') \<Longrightarrow> disassembles disasm s p []"
| more: "disasm s p = (n, u, p') \<Longrightarrow> n \<noteq> 0 \<Longrightarrow> disassembles disasm s p' xs \<Longrightarrow>
         disassembles disasm s p ((n, u) # xs)"

inductive_cases disassembles_cons: "disassembles disasm s p (x # xs)"

text \<open>The addresses of consecutive instructions of the given sizes.\<close>

fun layout :: "addr \<Rightarrow> nat list \<Rightarrow> addr list" where
  "layout a [] = []"
| "layout a (n # ns) = a # layout (a + word_of_nat n) ns"

lemma decode_loop_run:
  assumes "disassembles disasm s p xs" and "\<forall>(n, u) \<in> set xs. mnem u \<noteq> UD_Iinvalid"
  shows "decode_loop disasm s p l =
    Some (l\<lparr>temp_addr := temp_addr l + word_of_nat (sum_list (map fst xs)),
            last_good := (if xs = [] then last_good l else temp_addr l + word_of_nat (sum_list (map fst xs))),
            scratch := [], rem := rem l @ leftover (drop (sum_list (map fst xs)) (scratch l)),
            sizes := sizes l @ map (\<lambda>x. word_of_nat (fst x)) xs,
            addrs := addrs l @ layout (temp_addr l) (map fst xs),
            opcodes := opcodes l @ map snd xs\<rparr>)"
  using assms
proof (induction arbitrary: l)
  case (stop p u p')
  then show ?case by (subst decode_loop.simps) (simp add: flush_scratch_def)
next
  case (more p n u p' xs)
  then have "decode_loop disasm s p l = decode_loop disasm s p' (accept_insn n u l)"
    by (subst decode_loop.simps) simp
  with more show ?case by (simp add: accept_insn_def add.commute add.assoc)
qed

lemma length_layout [simp]: "length (layout a ns) = length ns"
  by (induction ns arbitrary: a) simp_all

lemma zip_zip_eq: "length xs = length zs \<Longrightarrow>
  map (\<lambda>(u, sz, ad). f u sz ad) (zip (map snd xs) (zip (map (\<lambda>x. g (fst x)) xs) zs)) =
  map (\<lambda>((n, u), ad). f u (g n) ad) (zip xs zs)"
  by (induction xs zs rule: list_induct2) auto

lemma decode_opcodes_run:
  assumes "decode_text i d (RIP_jump g) = (bs, addr, jump)" and "disassembles disasm bs 0 xs"
    and "\<forall>(n, u) \<in> set xs. mnem u \<noteq> UD_Iinvalid \<and> crack_pops u"
  shows "\<exists>d' g'. decode_opcodes disasm junk i (d, g) = Some (Inr (d', g')) \<and>
    dd_uop_queue g' = dd_uop_queue g @
      concat (map (\<lambda>((n, u), ad). map (push2q junk (word_of_nat n) ad) (crack_insn u))
                  (zip xs (layout addr (map fst xs)))) \<and>
    rem_string d' = leftover (drop (sum_list (map fst xs)) (scratch_q d @ byte_stack bs)) \<and>
    last_good_addr d' = (if xs = [] then last_good_addr d else addr + word_of_nat (sum_list (map fst xs))) \<and>
    scratch_q d' = [] \<and> RIP_jump g' = jump \<and> \<not> first_run d'"
proof -
  have valid: "\<forall>(n, u) \<in> set xs. mnem u \<noteq> UD_Iinvalid" using assms(3) by auto
  have kept: "map snd xs = filter crack_pops (map snd xs)"
    using assms(3) by (intro filter_True [symmetric]) auto
  show ?thesis
    using zip_zip_eq [of xs "layout addr (map fst xs)" "\<lambda>u sz ad. map (push2q junk sz ad) (crack_insn u)" word_of_nat]
    by (simp add: decode_opcodes_def assms(1) decode_loop_run [OF assms(2) valid]
        crack_opcodes_zip [OF kept])
qed

lemma byte_stack_bytes:
  assumes "\<forall>b \<in> set bs. b < 256"
  shows "byte_stack (concat (map hex_byte bs)) = map (\<lambda>b. take 2 (hex_byte b)) bs"
  using assms
proof (induction bs)
  case Nil
  then show ?case by (simp add: byte_stack.simps)
next
  case (Cons b bs)
  then have l: "length (hex_byte b) = 3" by (simp add: hex_byte_parse)
  then have "concat (map hex_byte (b # bs)) \<noteq> []" by auto
  then show ?case using Cons l by (subst byte_stack.simps) simp
qed

lemma hex_byte_blank: "b < 256 \<Longrightarrow> take 2 (hex_byte b) @ CHR '' '' # t = hex_byte b @ t"
  using hex_byte_parse(1) [of b] by (simp add: hex_byte_def)

lemma leftover_bytes:
  "\<forall>b \<in> set bs. b < 256 \<Longrightarrow> leftover (map (\<lambda>b. take 2 (hex_byte b)) bs) = concat (map hex_byte bs)"
  by (induction bs) (simp_all add: leftover_def hex_byte_blank)

text \<open>The documented behaviour of the disassembler that termination needs: an instruction takes
  input, and at the end of the input there is none.\<close>

definition progressing :: "disassembler \<Rightarrow> bool" where
  "progressing disasm \<longleftrightarrow> (\<forall>s p n u p'. disasm s p = (n, u, p') \<longrightarrow> n \<noteq> 0 \<longrightarrow> p < length s \<and> p < p')"

lemma decode_loop_terminates:
  assumes "progressing disasm" and "length (opcodes l) = length (sizes l)" "length (opcodes l) = length (addrs l)"
  shows "\<exists>l'. decode_loop disasm s p l = Some l' \<and> length (opcodes l') = length (sizes l') \<and>
    length (opcodes l') = length (addrs l')"
  using assms(2,3)
proof (induction "length s - p" arbitrary: p l rule: less_induct)
  case less
  obtain n u p' where d: "disasm s p = (n, u, p')" by (cases "disasm s p")
  show ?case
  proof (cases "n = 0")
    case True
    then show ?thesis using d less.prems by (subst decode_loop.simps) (simp add: flush_scratch_def)
  next
    case False
    then have lt: "length s - p' < length s - p" using assms(1) d by (force simp: progressing_def)
    show ?thesis
    proof (cases "mnem u = UD_Iinvalid")
      case True
      have "\<exists>l'. decode_loop disasm s p' ((flush_scratch l)\<lparr>last_good := temp_addr l\<rparr>) = Some l' \<and>
          length (opcodes l') = length (sizes l') \<and> length (opcodes l') = length (addrs l')"
        by (rule less.hyps [OF lt]) (use less.prems in \<open>simp_all add: flush_scratch_def\<close>)
      then show ?thesis using d False True by (subst decode_loop.simps) simp
    next
      case valid: False
      have "\<exists>l'. decode_loop disasm s p' (accept_insn n u l) = Some l' \<and>
          length (opcodes l') = length (sizes l') \<and> length (opcodes l') = length (addrs l')"
        by (rule less.hyps [OF lt]) (use less.prems in \<open>simp_all add: accept_insn_def\<close>)
      then show ?thesis using d False valid by (subst decode_loop.simps) simp
    qed
  qed
qed

subsection \<open>Properties\<close>

text \<open>A disassembler for the witnesses: every byte, as the hook delivers it, is an instruction.\<close>

definition nop_insn :: insn where
  "nop_insn = \<lparr>mnem = UD_Inop, operand0 = sample_operand, operand1 = sample_operand, operand2 = sample_operand\<rparr>"

definition one_byte :: disassembler where
  "one_byte s p = (case input_hook s p of (None, p') \<Rightarrow> (0, nop_insn, p') | (Some _, p') \<Rightarrow> (1, nop_insn, p'))"

definition sample_decoder :: decoder where
  "sample_decoder = \<lparr>dec_reset_flag = False, rem_string = [], first_run = False, last_good_addr = 0x400000,
     scratch_q = [], dec_out_ready = False\<rparr>"

definition sample_decoder_in :: decoder_in where
  "sample_decoder_in = \<lparr>dec_reset = False, dec_clear = False, dec_in_ready = True, in_data = 0,
     in_addr = 0x400000, in_alignedaddr = 0\<rparr>"

lemma one_byte_run:
  assumes "\<forall>b \<in> set bs. b < 256" and "k \<le> length bs"
  shows "disassembles one_byte (concat (map hex_byte bs)) (3 * (length bs - k)) (replicate k (1, nop_insn))"
  using assms(2)
proof (induction k)
  case 0
  obtain p' where "input_hook (concat (map hex_byte bs)) (3 * length bs) = (None, p')"
    using input_hook_bytes(2) [OF assms(1)] by (metis prod.collapse)
  then show ?case by (auto simp: one_byte_def intro: disassembles.stop)
next
  case (Suc k)
  let ?i = "length bs - Suc k"
  have "one_byte (concat (map hex_byte bs)) (3 * ?i) = (1, nop_insn, 3 * Suc ?i)"
    using input_hook_bytes(1) [OF assms(1), of ?i] Suc.prems by (simp add: one_byte_def)
  moreover have "Suc ?i = length bs - k" using Suc.prems by simp
  ultimately show ?case using Suc by (auto intro: disassembles.more)
qed

text \<open>C17: between jumps the stage decodes one stream of bytes: it disassembles the bytes left over
  from the last line followed by those of the new one, queues the micro-operations of the decoded
  instructions with their sizes and consecutive addresses, and keeps exactly the bytes behind the
  last decoded instruction for the next line.\<close>

theorem decode_stream:
  assumes "\<not> first_run d" "\<not> RIP_jump g" "in_alignedaddr i = 0" "scratch_q d = []"
    and "rem_string d = concat (map hex_byte rs)" and "\<forall>b \<in> set rs. b < 256"
    and "bytes = rs @ map (line_byte (in_data i)) [0..<16]"
    and "disassembles disasm (concat (map hex_byte bytes)) 0 xs"
    and "\<forall>(n, u) \<in> set xs. mnem u \<noteq> UD_Iinvalid \<and> crack_pops u"
  shows "\<exists>d' g'. decode_opcodes disasm junk i (d, g) = Some (Inr (d', g')) \<and>
    dd_uop_queue g' = dd_uop_queue g @
      concat (map (\<lambda>((n, u), ad). map (push2q junk (word_of_nat n) ad) (crack_insn u))
                  (zip xs (layout (last_good_addr d) (map fst xs)))) \<and>
    rem_string d' = concat (map hex_byte (drop (sum_list (map fst xs)) bytes)) \<and>
    last_good_addr d' = last_good_addr d + word_of_nat (sum_list (map fst xs)) \<and>
    scratch_q d' = [] \<and> \<not> first_run d' \<and> \<not> RIP_jump g'"
proof -
  have lt: "\<forall>b \<in> set bytes. b < 256"
    using assms(6,7) by (auto simp: line_byte_def intro: less_le_trans [OF unsigned_less])
  have line: "bin2hex (bv_to_string (in_data i)) = concat (map hex_byte (map (line_byte (in_data i)) [0..<16]))"
    by (simp only: bin2hex_line map_map o_def)
  have dt: "decode_text i d (RIP_jump g) = (concat (map hex_byte bytes), last_good_addr d, False)"
    unfolding decode_text_def Let_def line using assms(1-3,5,7) by simp
  from decode_opcodes_run [OF dt assms(8,9), of junk] obtain d' g' where
    r: "decode_opcodes disasm junk i (d, g) = Some (Inr (d', g'))"
    "dd_uop_queue g' = dd_uop_queue g @
      concat (map (\<lambda>((n, u), ad). map (push2q junk (word_of_nat n) ad) (crack_insn u))
                  (zip xs (layout (last_good_addr d) (map fst xs))))"
    "rem_string d' = leftover (drop (sum_list (map fst xs)) (scratch_q d @ byte_stack (concat (map hex_byte bytes))))"
    "last_good_addr d' = (if xs = [] then last_good_addr d else last_good_addr d + word_of_nat (sum_list (map fst xs)))"
    "scratch_q d' = []" "RIP_jump g' = False" "\<not> first_run d'"
    by blast
  have "\<forall>b \<in> set (drop (sum_list (map fst xs)) bytes). b < 256" using lt by (meson in_set_dropD)
  from leftover_bytes [OF this]
  have "rem_string d' = concat (map hex_byte (drop (sum_list (map fst xs)) bytes))"
    by (simp add: r(3) assms(4) byte_stack_bytes [OF lt] drop_map)
  then show ?thesis using r by (intro exI [of _ d'] exI [of _ g']) auto
qed

theorem decode_stream_witness:
  "\<exists>d' g'. decode_opcodes one_byte uop_empty sample_decoder_in (sample_decoder, globals_init) = Some (Inr (d', g')) \<and>
     last_good_addr d' = 0x400010 \<and> rem_string d' = []"
proof -
  let ?bytes = "[] @ map (line_byte (in_data sample_decoder_in)) [0..<16]"
  have "\<forall>b \<in> set ?bytes. b < 256"
    by (auto simp: line_byte_def intro: less_le_trans [OF unsigned_less])
  from one_byte_run [OF this, of 16]
  have run: "disassembles one_byte (concat (map hex_byte ?bytes)) 0 (replicate 16 (1, nop_insn))" by simp
  have s: "sum_list (map fst (replicate 16 (1 :: nat, nop_insn))) = 16" by (simp add: sum_list_replicate)
  have "\<exists>d' g'. decode_opcodes one_byte uop_empty sample_decoder_in (sample_decoder, globals_init) = Some (Inr (d', g')) \<and>
    dd_uop_queue g' = dd_uop_queue globals_init @
      concat (map (\<lambda>((n, u), ad). map (push2q uop_empty (word_of_nat n) ad) (crack_insn u))
        (zip (replicate 16 (1, nop_insn)) (layout (last_good_addr sample_decoder) (map fst (replicate 16 (1, nop_insn)))))) \<and>
    rem_string d' = concat (map hex_byte (drop (sum_list (map fst (replicate 16 (1 :: nat, nop_insn)))) ?bytes)) \<and>
    last_good_addr d' = last_good_addr sample_decoder + word_of_nat (sum_list (map fst (replicate 16 (1 :: nat, nop_insn)))) \<and>
    scratch_q d' = [] \<and> \<not> first_run d' \<and> \<not> RIP_jump g'"
    by (rule decode_stream [OF _ _ _ _ _ _ refl run])
      (simp_all add: sample_decoder_def sample_decoder_in_def globals_init_def nop_insn_def crack_pops_def sample_operand_def)
  then show ?thesis unfolding s by (auto simp: sample_decoder_def)
qed



end
