(* ===== verification/System.thy ===== *)
theory System
  imports Pipeline Fetch Decoder TagPort
begin

text \<open>
  The whole simulator: the wiring of the stages (\<^verbatim>\<open>CoreCSE502\<close> in
  \<^verbatim>\<open>core-project/core_cse502.h\<close>), of the core and the memory (\<^verbatim>\<open>Top\<close> in \<^verbatim>\<open>top.cc\<close>), and
  the edges of the clock (\<^verbatim>\<open>sc_main\<close> in \<^verbatim>\<open>main.cc\<close>). The state holds the members and the
  output ports of every module and the globals. A signal has the value of the output port that
  drives it at the end of the last edge: during an edge every handler reads its inputs from the
  state \<open>old\<close> before the edge, and only the globals are seen as the handlers that ran earlier
  left them. The order of the handlers is the parameter \<open>order\<close>.

  The stores of \<^verbatim>\<open>clock_gettime\<close> go straight into the memory's bytes (\<open>sys_effects\<close>).
\<close>

record system =
  s_fetch :: fetch
  s_fports :: fetch_ports
  s_dec :: decoder
  s_disp :: dispatch
  s_ex :: exec
  s_xports :: exec_ports
  s_wb :: writeback
  s_glob :: globals
  s_mem :: memory

datatype stage = At_fetch | At_decode | At_dispatch | At_execute | At_writeback | At_memory

text \<open>What the model leaves open: the host, the ties of the delay buckets, the disassembler, and the
  content of uninitialised fields.\<close>

record env =
  e_host :: host
  e_pick :: "response bucket \<Rightarrow> nat"
  e_disasm :: disassembler
  e_junk :: uop

subsection \<open>The bindings of the ports\<close>

definition fetch_inputs :: "bool \<Rightarrow> system \<Rightarrow> fetch_in" where
  "fetch_inputs rst old = \<lparr>f_reset = rst, f_clear = clear_out (s_xports old),
     f_change_RIP = change_RIP (s_xports old), f_new_RIP = new_RIP (s_xports old),
     f_i_ready = mi_ready (s_mem old), f_i_tagout = mi_tagout (s_mem old), f_i_data = mi_data (s_mem old)\<rparr>"

definition decoder_inputs :: "bool \<Rightarrow> system \<Rightarrow> decoder_in" where
  "decoder_inputs rst old = \<lparr>dec_reset = rst, dec_clear = clear_out (s_xports old),
     dec_in_ready = f_out_ready (s_fports old), in_data = out_data (s_fports old),
     in_addr = out_addr (s_fports old), in_alignedaddr = out_alignedaddr (s_fports old)\<rparr>"

definition exec_inputs :: "bool \<Rightarrow> system \<Rightarrow> exec_in" where
  "exec_inputs rst old = \<lparr>in_reset = rst, in_clear = clear_out (s_xports old),
     in_ready = disp_out_ready (s_disp old), d_ready = md_ready (s_mem old),
     d_tagout = md_tagout (s_mem old), d_data = md_data (s_mem old)\<rparr>"

definition memory_inputs :: "bool \<Rightarrow> system \<Rightarrow> memory_in" where
  "memory_inputs rst old = \<lparr>mm_reset = rst, mi_op = i_op (s_fports old),
     mi_tagin = i_tagin (s_fports old), mi_addr = i_addr (s_fports old), md_op = d_op (s_xports old),
     md_tagin = d_tagin (s_xports old), md_addr = d_addr (s_xports old), md_din = d_dout (s_xports old)\<rparr>"

subsection \<open>System calls that store\<close>

text \<open>\<^verbatim>\<open>*(uint64_t* )(mem_base + a)\<close>: outside the mapped bytes the store is undefined.\<close>

definition poke :: "addr \<Rightarrow> quad \<Rightarrow> (addr \<Rightarrow> byte) \<Rightarrow> fault + (addr \<Rightarrow> byte)" where
  "poke p v bytes =
     (if p - mem_base \<le> mem_size - 8
      then Inr (store64 (p - mem_base) v bytes)
      else Inl Undefined_behaviour)"

fun sys_effects :: "sys_effect list \<Rightarrow> (addr \<Rightarrow> byte) \<Rightarrow> fault + (addr \<Rightarrow> byte)" where
  "sys_effects [] bytes = Inr bytes"
| "sys_effects (Poke64 p v # es) bytes = and_then (poke p v bytes) (sys_effects es)"
| "sys_effects (_ # es) bytes = sys_effects es bytes"

subsection \<open>One handler\<close>

definition execute_stage :: "env \<Rightarrow> nat \<Rightarrow> bool \<Rightarrow> system \<Rightarrow> system \<Rightarrow> fault + system" where
  "execute_stage e t rst old s =
     (case exec_work ((e_host e)\<lparr>now := word_of_nat t\<rparr>) (exec_inputs rst old) (s_ex s, s_xports s, s_glob s) of
        Inl f \<Rightarrow> Inl f
      | Inr (x, p, g) \<Rightarrow>
          (case sys_effects (drop (length (sys_log (s_glob s))) (sys_log g)) (mem (s_mem s)) of
             Inl f \<Rightarrow> Inl f
           | Inr bytes \<Rightarrow> Inr (s\<lparr>s_ex := x, s_xports := p, s_glob := g, s_mem := (s_mem s)\<lparr>mem := bytes\<rparr>\<rparr>)))"

definition stage_work ::
  "env \<Rightarrow> nat \<Rightarrow> bool \<Rightarrow> system \<Rightarrow> stage \<Rightarrow> system \<Rightarrow> (fault + system) option" where
  "stage_work e t rst old st s = (case st of
     At_fetch \<Rightarrow> (case fetch_work (fetch_inputs rst old) (s_fetch s, s_fports s, s_glob s) of
       (f, p, g) \<Rightarrow> Some (Inr (s\<lparr>s_fetch := f, s_fports := p, s_glob := g\<rparr>)))
   | At_decode \<Rightarrow> (case decoder_work (e_disasm e) (e_junk e) (decoder_inputs rst old) (s_dec s, s_glob s) of
       None \<Rightarrow> None
     | Some (Inl f) \<Rightarrow> Some (Inl f)
     | Some (Inr (d, g)) \<Rightarrow> Some (Inr (s\<lparr>s_dec := d, s_glob := g\<rparr>)))
   | At_dispatch \<Rightarrow> (case dispatch_work rst (clear_out (s_xports old)) (dec_out_ready (s_dec old)) (s_disp s) (s_glob s) of
       (d, g) \<Rightarrow> Some (Inr (s\<lparr>s_disp := d, s_glob := g\<rparr>)))
   | At_execute \<Rightarrow> Some (execute_stage e t rst old s)
   | At_writeback \<Rightarrow> (case writeback_work rst (out_ready (s_xports old)) (s_wb s) (s_glob s) of
       (w, g) \<Rightarrow> Some (Inr (s\<lparr>s_wb := w, s_glob := g\<rparr>)))
   | At_memory \<Rightarrow> (case mem_work (e_pick e) t (memory_inputs rst old) (s_mem s) of
       Inl f \<Rightarrow> Some (Inl f)
     | Inr m \<Rightarrow> Some (Inr (s\<lparr>s_mem := m\<rparr>))))"

subsection \<open>A clock edge and a run\<close>

fun run_stages ::
  "env \<Rightarrow> nat \<Rightarrow> bool \<Rightarrow> system \<Rightarrow> stage list \<Rightarrow> system \<Rightarrow> (fault + system) option" where
  "run_stages e t rst old [] s = Some (Inr s)"
| "run_stages e t rst old (st # sts) s = (case stage_work e t rst old st s of
     None \<Rightarrow> None
   | Some (Inl f) \<Rightarrow> Some (Inl f)
   | Some (Inr s') \<Rightarrow> run_stages e t rst old sts s')"

definition all_stages :: "stage list" where
  "all_stages = [At_fetch, At_decode, At_dispatch, At_execute, At_writeback, At_memory]"

definition system_edge :: "env \<Rightarrow> stage list \<Rightarrow> nat \<Rightarrow> bool \<Rightarrow> system \<Rightarrow> (fault + system) option" where
  "system_edge e order t rst s = run_stages e t rst s order s"

text \<open>
  The state after the reset. \<^verbatim>\<open>Core::do_reset\<close> and \<^verbatim>\<open>CoreCSE502::do_reset\<close> have set the
  addresses of the fetch stage; the constructors leave \<^verbatim>\<open>prev_tag\<close>, \<^verbatim>\<open>last_good_addr\<close> and
  three members of the execute stage uninitialised.
\<close>

definition system_start ::
  "addr \<Rightarrow> quad \<Rightarrow> (addr \<Rightarrow> byte) \<Rightarrow> addr \<Rightarrow> addr \<Rightarrow> bool \<Rightarrow> quad \<Rightarrow> uop \<Rightarrow> system" where
  "system_start ent brk bytes pt lga rc sp u =
     \<lparr>s_fetch = \<lparr>reset_flag = True, prev_tag = pt, firstRunFlag = True, fetch_cycles = 0,
        RIP = core_RIP (core_do_reset ent True \<lparr>core_RIP = 0, core_RSP = 0\<rparr>),
        RSP = core_RSP (core_do_reset ent True \<lparr>core_RIP = 0, core_RSP = 0\<rparr>)\<rparr>,
      s_fports = \<lparr>i_op = NONE, i_tagin = 0, i_addr = 0, out_data = 0, out_addr = 0,
        out_alignedaddr = 0, f_out_ready = False\<rparr>,
      s_dec = \<lparr>dec_reset_flag = True, rem_string = [], first_run = True, last_good_addr = lga,
        scratch_q = [], dec_out_ready = False\<rparr>,
      s_disp = dispatch_init, s_ex = exec_init rc sp u, s_xports = exec_ports_init, s_wb = writeback_init,
      s_glob = globals_init\<lparr>brk_val := brk\<rparr>, s_mem = memory_new bytes\<rparr>"

text \<open>The clock period is 500 ps; the reset is over before the first edge counted here.\<close>

inductive system_at :: "env \<Rightarrow> nat \<Rightarrow> system \<Rightarrow> bool" for e where
  at_start: "system_at e 0 (system_start ent brk bytes pt lga rc sp u)"
| at_edge: "system_at e t s \<Longrightarrow> distinct order \<Longrightarrow> set order = set all_stages \<Longrightarrow>
    system_edge e order t False s = Some (Inr s') \<Longrightarrow> system_at e (t + 500) s'"

subsection \<open>Every edge is a sequence of pipeline steps\<close>

lemma crack_opcodes_appends:
  "crack_opcodes junk us (szs, ads, q) = Inr (szs', ads', q') \<Longrightarrow> \<exists>vs. q' = q @ vs"
proof (induction us arbitrary: szs ads q)
  case (Cons u us)
  then show ?case by (fastforce split: if_splits list.splits)
qed simp

lemma decoder_work_frame:
  assumes "decoder_work disasm junk i (d, g) = Some (Inr (d', g'))"
  shows "\<exists>us b. g' = g\<lparr>dd_uop_queue := dd_uop_queue g @ us, RIP_jump := b\<rparr>"
proof (cases "dec_reset i \<or> \<not> dec_in_ready i \<or> dec_clear i")
  case True
  then have "g' = g\<lparr>dd_uop_queue := dd_uop_queue g @ [], RIP_jump := RIP_jump g\<rparr>"
    using assms by (auto simp: decoder_work_def split: if_split_asm)
  then show ?thesis by blast
next
  case False
  obtain bs a jump where dt: "decode_text i d (RIP_jump g) = (bs, a, jump)" by (cases "decode_text i d (RIP_jump g)")
  from False assms obtain d1 where "decode_opcodes disasm junk i (d, g) = Some (Inr (d1, g'))"
    by (auto simp: decoder_work_def split: option.splits sum.splits)
  then show ?thesis
    by (auto simp: decode_opcodes_def dt dest!: crack_opcodes_appends split: option.splits sum.splits)
qed

lemma fetch_work_frame:
  assumes "fetch_work i (f, p, g) = (f', p', g')"
  shows "\<exists>v b. g' = g\<lparr>regfile := (regfile g)\<lparr>rsp := v\<rparr>, RIP_jump := b\<rparr>"
proof -
  have "regfile g' = (regfile g)\<lparr>rsp := rsp (regfile g')\<rparr> \<and>
      g' = g\<lparr>regfile := regfile g', RIP_jump := RIP_jump g'\<rparr>"
    using assms
    by (auto simp: fetch_work_def fetch_clear_def fetch_redirect_def fetch_answer_def fetch_first_def
        set_rsp_def Let_def split: if_splits)
  then show ?thesis by metis
qed

text \<open>The part of the state that the pipeline relation knows, with its two records of the past.\<close>

definition pipe_of :: "system \<Rightarrow> addr list \<Rightarrow> addr list \<Rightarrow> pipe" where
  "pipe_of s ds rs = \<lparr>p_disp = s_disp s, p_wb = s_wb s, p_ex = s_ex s, p_ports = s_xports s,
     p_glob = s_glob s, p_decoded = ds, p_retired = rs\<rparr>"


lemma stage_keeps_xports:
  "stage_work e t rst old st s = Some (Inr s') \<Longrightarrow> st \<noteq> At_execute \<Longrightarrow> s_xports s' = s_xports s"
  by (cases st) (auto simp: stage_work_def split: prod.splits option.splits sum.splits)

lemma stage_step:
  assumes "stage_work e t False old st s = Some (Inr s')"
    and "st = At_execute \<Longrightarrow> clear_out (s_xports s) = clear_out (s_xports old)"
  shows "\<exists>ds' rs'. pipe_step\<^sup>*\<^sup>* (pipe_of s ds rs) (pipe_of s' ds' rs')"
proof (cases st)
  case At_fetch
  obtain f p g where w: "fetch_work (fetch_inputs False old) (s_fetch s, s_fports s, s_glob s) = (f, p, g)"
    by (metis prod_cases3)
  from fetch_work_frame [OF this] obtain v b where "g = (s_glob s)\<lparr>regfile := (regfile (s_glob s))\<lparr>rsp := v\<rparr>, RIP_jump := b\<rparr>"
    by blast
  then have "pipe_step (pipe_of s ds rs) (pipe_of s' ds rs)"
    using step_fetch [of "pipe_of s ds rs" b v] assms(1) At_fetch w by (auto simp: pipe_of_def stage_work_def)
  then show ?thesis by (blast intro: r_into_rtranclp)
next
  case At_decode
  then obtain d g where w: "decoder_work (e_disasm e) (e_junk e) (decoder_inputs False old) (s_dec s, s_glob s) = Some (Inr (d, g))"
    and s': "s' = s\<lparr>s_dec := d, s_glob := g\<rparr>"
    using assms(1) by (auto simp: stage_work_def split: option.splits sum.splits)
  from decoder_work_frame [OF w] obtain us b where "g = (s_glob s)\<lparr>dd_uop_queue := dd_uop_queue (s_glob s) @ us, RIP_jump := b\<rparr>"
    by blast
  then have "pipe_step (pipe_of s ds rs) (pipe_of s' (ds @ map address us) rs)"
    using step_decode [of "pipe_of s ds rs" us b] s' by (auto simp: pipe_of_def)
  then show ?thesis by (blast intro: r_into_rtranclp)
next
  case At_dispatch
  obtain d g where w: "dispatch_work False (clear_out (s_xports old)) (dec_out_ready (s_dec old)) (s_disp s) (s_glob s) = (d, g)"
    by (metis surj_pair)
  then have "pipe_step (pipe_of s ds rs) (pipe_of s' ds rs)"
    using step_dispatch [of _ _ "pipe_of s ds rs" d g] assms(1) At_dispatch by (auto simp: pipe_of_def stage_work_def)
  then show ?thesis by (blast intro: r_into_rtranclp)
next
  case At_execute
  then obtain x p g bytes where w: "exec_work ((e_host e)\<lparr>now := word_of_nat t\<rparr>) (exec_inputs False old) (s_ex s, s_xports s, s_glob s) = Inr (x, p, g)"
    and s': "s' = s\<lparr>s_ex := x, s_xports := p, s_glob := g, s_mem := (s_mem s)\<lparr>mem := bytes\<rparr>\<rparr>"
    using assms(1) by (auto simp: stage_work_def execute_stage_def split: sum.splits)
  have "pipe_step (pipe_of s ds rs) (pipe_of s' ds rs)"
    using step_execute [of "exec_inputs False old" "pipe_of s ds rs" _ x p g] w s' assms(2) [OF At_execute]
    by (auto simp: pipe_of_def exec_inputs_def)
  then show ?thesis by (blast intro: r_into_rtranclp)
next
  case At_writeback
  obtain w g where w: "writeback_work False (out_ready (s_xports old)) (s_wb s) (s_glob s) = (w, g)"
    by (metis surj_pair)
  then have "pipe_step (pipe_of s ds rs) (pipe_of s' ds (rs @ map address
      (take (length (ew_uop_queue (s_glob s)) - length (ew_uop_queue g)) (ew_uop_queue (s_glob s)))))"
    using step_writeback [of _ "pipe_of s ds rs" w g] assms(1) At_writeback by (auto simp: pipe_of_def stage_work_def)
  then show ?thesis by (blast intro: r_into_rtranclp)
next
  case At_memory
  then have "pipe_of s' ds rs = pipe_of s ds rs"
    using assms(1) by (auto simp: stage_work_def pipe_of_def split: sum.splits)
  then show ?thesis by (metis rtranclp.rtrancl_refl)
qed

lemma run_steps:
  assumes "run_stages e t False old sts s = Some (Inr s')"
    and "distinct sts" and "At_execute \<in> set sts \<Longrightarrow> s_xports s = s_xports old"
  shows "\<exists>ds' rs'. pipe_step\<^sup>*\<^sup>* (pipe_of s ds rs) (pipe_of s' ds' rs')"
  using assms
proof (induction sts arbitrary: s ds rs)
  case (Cons st sts)
  then obtain s1 where s1: "stage_work e t False old st s = Some (Inr s1)" "run_stages e t False old sts s1 = Some (Inr s')"
    by (auto split: option.splits sum.splits)
  obtain ds1 rs1 where r1: "pipe_step\<^sup>*\<^sup>* (pipe_of s ds rs) (pipe_of s1 ds1 rs1)"
    using stage_step [OF s1(1), of ds rs] Cons.prems(3) by auto
  have "s_xports s1 = s_xports old" if "At_execute \<in> set sts"
    using stage_keeps_xports [OF s1(1)] Cons.prems(2,3) that by auto
  with Cons.IH [OF s1(2), of ds1 rs1] Cons.prems(2) r1 show ?case by (fastforce intro: rtranclp_trans)
qed (simp, metis rtranclp.rtrancl_refl)

lemma edge_steps:
  assumes "system_edge e order t False s = Some (Inr s')" and "distinct order"
  shows "\<exists>ds' rs'. pipe_step\<^sup>*\<^sup>* (pipe_of s ds rs) (pipe_of s' ds' rs')"
  using run_steps assms by (simp add: system_edge_def)

lemma steps_reachable: "pipe_step\<^sup>*\<^sup>* q q' \<Longrightarrow> reachable q \<Longrightarrow> reachable q'"
  by (induction rule: rtranclp_induct) (auto intro: reach_step)

lemma steps_inv: "pipe_step\<^sup>*\<^sup>* q q' \<Longrightarrow> pipe_inv q \<Longrightarrow> pipe_inv q'"
  by (induction rule: rtranclp_induct) (auto intro: pipe_inv_step)

lemma system_reachable: "system_at e t s \<Longrightarrow> \<exists>ds rs. reachable (pipe_of s ds rs)"
proof (induction rule: system_at.induct)
  case (at_start ent brk bytes pt lga rc sp u)
  have "pipe_of (system_start ent brk bytes pt lga rc sp u) [] [] = pipe_init brk rc sp u"
    by (simp add: pipe_of_def system_start_def pipe_init_def)
  then show ?case using reach_init by metis
next
  case (at_edge t s order s')
  then show ?case using edge_steps steps_reachable by meson
qed

subsection \<open>What one edge does to each module\<close>

text \<open>The data port carries the address as its tag, a redirection comes with a clear, and the record of
  system calls only grows.\<close>

definition port_ok :: "exec_ports \<Rightarrow> bool" where
  "port_ok p \<longleftrightarrow> d_tagin p = ucast (d_addr p) \<and> (change_RIP p \<longrightarrow> clear_out p)"

definition grows :: "exec_ports \<Rightarrow> globals \<Rightarrow> exec_ports \<Rightarrow> globals \<Rightarrow> bool" where
  "grows p g p' g' \<longleftrightarrow> (port_ok p \<longrightarrow> port_ok p') \<and> prefix (sys_log g) (sys_log g')"

lemma grows_same [simp]: "sys_log g' = sys_log g \<Longrightarrow> grows p g p' g' \<longleftrightarrow> (port_ok p \<longrightarrow> port_ok p')"
  by (simp add: grows_def)

lemma core_syscall_grows:
  "core_syscall h s q n a0 a1 a2 a3 a4 a5 g = Inr (r, g') \<Longrightarrow> prefix (sys_log g) (sys_log g')"
  by (auto simp: core_syscall_def Let_def split: if_splits)

lemma do_syscall_grows: "do_syscall h x g = Inr (x', g') \<Longrightarrow> prefix (sys_log g) (sys_log g')"
  by (auto simp: do_syscall_def Let_def split: sum.splits dest!: core_syscall_grows)

lemma do_jump_grows: "do_jump (x, p) = (x', p') \<Longrightarrow> port_ok p \<longrightarrow> port_ok p'"
  by (auto simp: do_jump_def Let_def port_ok_def split: if_splits)

lemma exec_call_grows: "exec_call (x, p, g) = (x', p', g') \<Longrightarrow> (port_ok p \<longrightarrow> port_ok p') \<and> g' = g"
  unfolding exec_call_def Let_def split_conv by (auto simp: port_ok_def issue_def split: if_splits)

lemma exec_push_grows: "exec_push v (x, p, g) = (x', p', g') \<Longrightarrow> (port_ok p \<longrightarrow> port_ok p') \<and> g' = g"
  unfolding exec_push_def Let_def split_conv by (auto simp: port_ok_def issue_def)

lemma exec_wait_read_grows: "exec_wait_read a (x, p, g) = (x', p', g') \<Longrightarrow> (port_ok p \<longrightarrow> port_ok p') \<and> g' = g"
  unfolding exec_wait_read_def split_conv by (auto simp: port_ok_def issue_def)

lemma exec_switch_grows:
  assumes "exec_switch h (x, p, g) = Inr (returned, x', p', g')"
  shows "grows p g p' g'"
  using assms unfolding exec_switch_def Let_def split_conv
  by (auto simp: grows_def port_ok_def issue_def split: sum.splits prod.splits if_split_asm
      dest!: do_syscall_grows do_jump_grows exec_call_grows exec_push_grows exec_wait_read_grows)

lemma exec_op_grows:
  assumes "exec_op h (x, p, g) = Inr (x', p', g')"
  shows "grows p g p' g'"
proof -
  from assms obtain returned x1 p1 g1 where
    sw: "exec_switch h (x\<lparr>firstrun := False, Op := fwd_op x (offsetreg_value g) (Op x)\<rparr>, p, g) = Inr (returned, x1, p1, g1)" and
    fin: "(x', p', g') = (if returned then (x1, p1, g1) else exec_epilogue (x1, p1, g1))"
    by (auto simp: exec_op_def split: sum.splits)
  have "port_ok p' = port_ok p1 \<and> sys_log g' = sys_log g1"
    using fin by (cases returned) (auto simp: exec_epilogue_def Let_def port_ok_def split: if_splits)
  with exec_switch_grows [OF sw] show ?thesis by (simp add: grows_def)
qed

lemma exec_issue_grows:
  assumes "exec_issue h i (x, p, g) = Inr (x', p', g')"
  shows "grows p g p' g'"
  using assms by (auto simp: exec_issue_def Let_def split: if_splits list.splits dest!: exec_op_grows)
    (auto simp: grows_def port_ok_def)

lemma exec_work_grows:
  assumes "exec_work h i (x, p, g) = Inr (x', p', g')"
  shows "grows p g p' g'"
  using assms unfolding exec_work_def Let_def split_conv
  by (auto simp: read_ret_def read_pop_def read_load_def exec_complete_def Let_def grows_def port_ok_def
      split: if_split_asm dest!: exec_issue_grows)

lemma stage_log:
  assumes "stage_work e t rst old st s = Some (Inr s')"
  shows "prefix (sys_log (s_glob s)) (sys_log (s_glob s'))"
proof (cases st)
  case At_fetch
  then show ?thesis using assms
    by (auto simp: stage_work_def split: prod.splits dest!: fetch_work_frame)
next
  case At_decode
  then show ?thesis using assms
    by (auto simp: stage_work_def split: option.splits sum.splits dest!: decoder_work_frame)
next
  case At_dispatch
  have "sys_log (snd (dispatch_work rst c r d g)) = sys_log g" for c r d g
    by (simp add: dispatch_work_def dispatch_loop_effect [OF refl] Let_def)
  with At_dispatch show ?thesis using assms
    by (auto simp: stage_work_def split: prod.splits) (metis prefix_order.refl snd_conv)
next
  case At_execute
  then show ?thesis using assms
    by (auto simp: stage_work_def execute_stage_def grows_def split: sum.splits dest!: exec_work_grows)
next
  case At_writeback
  then show ?thesis using assms
    by (auto simp: stage_work_def writeback_work_def Let_def split: if_splits list.splits)
next
  case At_memory
  then show ?thesis using assms by (auto simp: stage_work_def split: sum.splits)
qed

lemma stage_keeps_memory:
  assumes "stage_work e t rst old st s = Some (Inr s')" and "st \<noteq> At_memory"
    and "sys_log (s_glob s') = sys_log (s_glob s)"
  shows "s_mem s' = s_mem s"
  using assms
  by (cases st) (auto simp: stage_work_def execute_stage_def split: prod.splits option.splits sum.splits)

lemma stage_keeps_fetch:
  "stage_work e t rst old st s = Some (Inr s') \<Longrightarrow> st \<noteq> At_fetch \<Longrightarrow> s_fetch s' = s_fetch s \<and> s_fports s' = s_fports s"
  by (cases st) (auto simp: stage_work_def execute_stage_def split: prod.splits option.splits sum.splits)

lemma stage_keeps_exec:
  "stage_work e t rst old st s = Some (Inr s') \<Longrightarrow> st \<noteq> At_execute \<Longrightarrow> s_ex s' = s_ex s \<and> s_xports s' = s_xports s"
  by (cases st) (auto simp: stage_work_def execute_stage_def split: prod.splits option.splits sum.splits)

lemma stage_keeps_decode:
  "stage_work e t rst old st s = Some (Inr s') \<Longrightarrow> st \<noteq> At_decode \<Longrightarrow> s_dec s' = s_dec s"
  by (cases st) (auto simp: stage_work_def execute_stage_def split: prod.splits option.splits sum.splits)

lemma stage_keeps_dispatch:
  "stage_work e t rst old st s = Some (Inr s') \<Longrightarrow> st \<noteq> At_dispatch \<Longrightarrow> s_disp s' = s_disp s"
  by (cases st) (auto simp: stage_work_def execute_stage_def split: prod.splits option.splits sum.splits)

text \<open>An edge on which every handler runs once runs each of them on its own state from before.\<close>

lemma run_stages_cons:
  assumes "run_stages e t rst old (st # sts) s = Some (Inr s')"
  obtains s1 where "stage_work e t rst old st s = Some (Inr s1)" "run_stages e t rst old sts s1 = Some (Inr s')"
  using assms by (auto split: option.splits sum.splits)

lemma run_log: "run_stages e t rst old sts s = Some (Inr s') \<Longrightarrow> prefix (sys_log (s_glob s)) (sys_log (s_glob s'))"
proof (induction sts arbitrary: s)
  case (Cons st sts)
  from Cons.prems obtain s1 where s1: "stage_work e t rst old st s = Some (Inr s1)" "run_stages e t rst old sts s1 = Some (Inr s')"
    by (rule run_stages_cons)
  from stage_log [OF s1(1)] Cons.IH [OF s1(2)] show ?case by (rule prefix_order.trans)
qed simp

lemma run_memory:
  assumes "run_stages e t rst old sts s = Some (Inr s')" and "distinct sts"
    and "sys_log (s_glob s') = sys_log (s_glob s)"
  shows "if At_memory \<in> set sts then mem_work (e_pick e) t (memory_inputs rst old) (s_mem s) = Inr (s_mem s')
         else s_mem s' = s_mem s"
  using assms
proof (induction sts arbitrary: s)
  case (Cons st sts)
  from Cons.prems(1) obtain s1 where s1: "stage_work e t rst old st s = Some (Inr s1)" "run_stages e t rst old sts s1 = Some (Inr s')"
    by (rule run_stages_cons)
  have l: "sys_log (s_glob s1) = sys_log (s_glob s)" "sys_log (s_glob s') = sys_log (s_glob s1)"
    using stage_log [OF s1(1)] run_log [OF s1(2)] Cons.prems(3) by (auto intro: prefix_order.antisym)
  note IH = Cons.IH [OF s1(2) _ l(2)]
  show ?case
  proof (cases "st = At_memory")
    case True
    then have "mem_work (e_pick e) t (memory_inputs rst old) (s_mem s) = Inr (s_mem s1)"
      using s1(1) by (auto simp: stage_work_def split: sum.splits)
    then show ?thesis using True IH Cons.prems(2) by simp
  next
    case False
    then show ?thesis using IH Cons.prems(2) stage_keeps_memory [OF s1(1) False l(1)]
      by (cases "At_memory \<in> set sts") auto
  qed
qed simp

lemma run_component:
  assumes keeps: "\<And>st s s'. stage_work e t rst old st s = Some (Inr s') \<Longrightarrow> st \<noteq> own \<Longrightarrow> part s' = part s"
    and "run_stages e t rst old sts s = Some (Inr s')" and "distinct sts" and "own \<in> set sts"
  shows "\<exists>a b. part a = part s \<and> stage_work e t rst old own a = Some (Inr b) \<and> part b = part s'"
  using assms(2-4)
proof (induction sts arbitrary: s)
  case (Cons st sts)
  from Cons.prems(1) obtain s1 where s1: "stage_work e t rst old st s = Some (Inr s1)" "run_stages e t rst old sts s1 = Some (Inr s')"
    by (rule run_stages_cons)
  have rest: "run_stages e t rst old sts s1 = Some (Inr s') \<Longrightarrow> own \<notin> set sts \<Longrightarrow> part s' = part s1" for sts s1
  proof (induction sts arbitrary: s1)
    case (Cons st sts)
    from Cons.prems(1) obtain s2 where s2: "stage_work e t rst old st s1 = Some (Inr s2)" "run_stages e t rst old sts s2 = Some (Inr s')"
      by (rule run_stages_cons)
    have "part s2 = part s1" using keeps [OF s2(1)] Cons.prems(2) by auto
    moreover have "part s' = part s2" using Cons.IH [OF s2(2)] Cons.prems(2) by simp
    ultimately show ?case by simp
  qed simp
  show ?case
  proof (cases "st = own")
    case True
    then show ?thesis using s1 rest [OF s1(2)] Cons.prems(2) by (intro exI [of _ s] exI [of _ s1]) simp
  next
    case False
    then show ?thesis using Cons.IH [OF s1(2)] Cons.prems(2,3) keeps [OF s1(1) False] by simp
  qed
qed simp

lemma run_fetch:
  assumes "run_stages e t rst old sts s = Some (Inr s')" and "distinct sts" and "At_fetch \<in> set sts"
  shows "\<exists>g g'. fetch_work (fetch_inputs rst old) (s_fetch s, s_fports s, g) = (s_fetch s', s_fports s', g')"
proof -
  have "\<exists>a b. (\<lambda>s. (s_fetch s, s_fports s)) a = (\<lambda>s. (s_fetch s, s_fports s)) s \<and> stage_work e t rst old At_fetch a = Some (Inr b) \<and> (\<lambda>s. (s_fetch s, s_fports s)) b = (\<lambda>s. (s_fetch s, s_fports s)) s'"
    by (rule run_component [OF _ assms]) (simp add: stage_keeps_fetch)
  then obtain a b where "(\<lambda>s. (s_fetch s, s_fports s)) a = (\<lambda>s. (s_fetch s, s_fports s)) s" "stage_work e t rst old At_fetch a = Some (Inr b)" "(\<lambda>s. (s_fetch s, s_fports s)) b = (\<lambda>s. (s_fetch s, s_fports s)) s'"
    by blast
  then obtain g g' where "fetch_work (fetch_inputs rst old) (s_fetch s, s_fports s, g) = (s_fetch s', s_fports s', g')"
    by (auto simp: stage_work_def split: prod.splits intro: that)
  then show ?thesis by blast
qed

lemma run_exec:
  assumes "run_stages e t rst old sts s = Some (Inr s')" and "distinct sts" and "At_execute \<in> set sts"
  shows "\<exists>h g g'. exec_work h (exec_inputs rst old) (s_ex s, s_xports s, g) = Inr (s_ex s', s_xports s', g')"
proof -
  have "\<exists>a b. (\<lambda>s. (s_ex s, s_xports s)) a = (\<lambda>s. (s_ex s, s_xports s)) s \<and> stage_work e t rst old At_execute a = Some (Inr b) \<and> (\<lambda>s. (s_ex s, s_xports s)) b = (\<lambda>s. (s_ex s, s_xports s)) s'"
    by (rule run_component [OF _ assms]) (simp add: stage_keeps_exec)
  then obtain a b where "(\<lambda>s. (s_ex s, s_xports s)) a = (\<lambda>s. (s_ex s, s_xports s)) s" "stage_work e t rst old At_execute a = Some (Inr b)" "(\<lambda>s. (s_ex s, s_xports s)) b = (\<lambda>s. (s_ex s, s_xports s)) s'"
    by blast
  then obtain h g g' where "exec_work h (exec_inputs rst old) (s_ex s, s_xports s, g) = Inr (s_ex s', s_xports s', g')"
    by (auto simp: stage_work_def execute_stage_def split: sum.splits prod.splits intro: that)
  then show ?thesis by blast
qed

lemma run_decode:
  assumes "run_stages e t rst old sts s = Some (Inr s')" and "distinct sts" and "At_decode \<in> set sts"
  shows "\<exists>g g'. decoder_work (e_disasm e) (e_junk e) (decoder_inputs rst old) (s_dec s, g) = Some (Inr (s_dec s', g'))"
proof -
  have "\<exists>a b. s_dec a = s_dec s \<and> stage_work e t rst old At_decode a = Some (Inr b) \<and> s_dec b = s_dec s'"
    by (rule run_component [OF _ assms]) (simp add: stage_keeps_decode)
  then obtain a b where "s_dec a = s_dec s" "stage_work e t rst old At_decode a = Some (Inr b)" "s_dec b = s_dec s'"
    by blast
  then obtain g g' where "decoder_work (e_disasm e) (e_junk e) (decoder_inputs rst old) (s_dec s, g) = Some (Inr (s_dec s', g'))"
    by (auto simp: stage_work_def split: option.splits sum.splits intro: that)
  then show ?thesis by blast
qed

lemma run_dispatch:
  assumes "run_stages e t rst old sts s = Some (Inr s')" and "distinct sts" and "At_dispatch \<in> set sts"
  shows "\<exists>g g'. dispatch_work rst (clear_out (s_xports old)) (dec_out_ready (s_dec old)) (s_disp s) g = (s_disp s', g')"
proof -
  have "\<exists>a b. s_disp a = s_disp s \<and> stage_work e t rst old At_dispatch a = Some (Inr b) \<and> s_disp b = s_disp s'"
    by (rule run_component [OF _ assms]) (simp add: stage_keeps_dispatch)
  then obtain a b where "s_disp a = s_disp s" "stage_work e t rst old At_dispatch a = Some (Inr b)" "s_disp b = s_disp s'"
    by blast
  then obtain g g' where "dispatch_work rst (clear_out (s_xports old)) (dec_out_ready (s_dec old)) (s_disp s) g = (s_disp s', g')"
    by (auto simp: stage_work_def split: prod.splits intro: that)
  then show ?thesis by blast
qed

subsection \<open>The tags on the buses\<close>

definition bus_inv :: "system \<Rightarrow> bool" where
  "bus_inv s \<longleftrightarrow> i_tagin (s_fports s) = ucast (i_addr (s_fports s)) \<and> port_ok (s_xports s) \<and>
     tagged (\<lambda>a. i_mshr (s_mem s) a \<noteq> None) (i_out (s_mem s)) \<and>
     tagged (\<lambda>a. d_mshr (s_mem s) a \<noteq> None) (d_out (s_mem s))"

lemma fetch_work_tag:
  assumes "fetch_work i (f, p, g) = (f', p', g')" and "i_tagin p = ucast (i_addr p)"
  shows "i_tagin p' = ucast (i_addr p')"
  using assms
  by (auto simp: fetch_work_def fetch_clear_def fetch_redirect_def fetch_answer_def fetch_first_def
      Let_def split: if_splits)

lemma fetch_work_out:
  assumes "fetch_work i (f, p, g) = (f', p', g')" and "\<not> f_reset i" and "f_change_RIP i \<longrightarrow> f_clear i"
    and "f_out_ready p'"
  shows "f_i_ready i \<and> out_addr p' = signed (f_i_tagout i) \<and>
    out_data p' = take_bit (128 - 8 * unat (out_alignedaddr p')) (f_i_data i)"
  using assms
  by (auto simp: fetch_work_def fetch_clear_def fetch_redirect_def fetch_answer_def fetch_first_def
      Let_def take_bit_word_eq_self split: if_splits)

lemma stage_bus_inv:
  assumes "stage_work e t rst old st s = Some (Inr s')" and "tie_break (e_pick e)"
    and "bus_inv s" and "bus_inv old"
  shows "bus_inv s'"
proof (cases st)
  case At_fetch
  then show ?thesis using assms
    by (auto simp: stage_work_def bus_inv_def split: prod.splits dest!: fetch_work_tag)
next
  case At_execute
  then show ?thesis using assms
    by (auto simp: stage_work_def execute_stage_def bus_inv_def grows_def split: sum.splits dest!: exec_work_grows)
next
  case At_memory
  then obtain m where m: "mem_work (e_pick e) t (memory_inputs rst old) (s_mem s) = Inr m" "s' = s\<lparr>s_mem := m\<rparr>"
    using assms(1) by (auto simp: stage_work_def split: sum.splits)
  have "fst r = ucast (snd r)" if "i_sent (memory_inputs rst old) = Some r" for r
    using that assms(4) by (auto simp: i_sent_def memory_inputs_def bus_inv_def split: if_splits)
  moreover have "fst r = ucast (snd r)" if "d_sent (memory_inputs rst old) = Some r" for r
    using that assms(4) by (auto simp: d_sent_def memory_inputs_def bus_inv_def port_ok_def split: if_splits)
  ultimately show ?thesis
    using tagged_port.tagged_edge [OF i_port_laws [OF assms(2)] m(1)]
      tagged_port.tagged_edge [OF d_port_laws [OF assms(2)] m(1)] assms(3)
    by (simp add: bus_inv_def m(2))
qed (use assms in \<open>auto simp: stage_work_def bus_inv_def split: prod.splits option.splits sum.splits\<close>)

lemma exec_work_completes:
  assumes "exec_work h i (x, p, g) = Inr (x', p', g')" and "ex_state x = STATE_READ"
    and "ex_state x' = STATE_NORMAL" and "\<not> in_reset i" "\<not> in_clear i"
    and "opcode (Op x) \<in> {UD_Iret, UD_Ipop, UD_Iload}"
  shows "d_ready i \<and> signed (d_tagout i) = (if opcode (Op x) = UD_Iload then value1 (Op x) else value3 (Op x)) \<and>
    (if opcode (Op x) = UD_Iret then new_RIP p' = d_data i \<and> change_RIP p' else value2 (Op x') = d_data i)"
  using assms unfolding exec_work_def Let_def split_conv
  by (auto simp: read_ret_def read_pop_def read_load_def exec_complete_def remember_def Let_def split: if_split_asm)

lemma run_bus_inv:
  assumes "run_stages e t rst old sts s = Some (Inr s')" and "tie_break (e_pick e)"
    and "bus_inv s" and "bus_inv old"
  shows "bus_inv s'"
  using assms
proof (induction sts arbitrary: s)
  case (Cons st sts)
  from Cons.prems(1) obtain s1 where s1: "stage_work e t rst old st s = Some (Inr s1)" "run_stages e t rst old sts s1 = Some (Inr s')"
    by (rule run_stages_cons)
  from Cons.IH [OF s1(2)] stage_bus_inv [OF s1(1)] Cons.prems show ?case by blast
qed simp

subsection \<open>Well-formed states\<close>

definition system_ok :: "system \<Rightarrow> bool" where
  "system_ok s \<longleftrightarrow> bus_inv s \<and> exec_order_inv (s_ex s, s_xports s, s_glob s)"

lemma system_ok_pipe: "pipe_inv (pipe_of s ds rs) \<Longrightarrow> exec_order_inv (s_ex s, s_xports s, s_glob s)"
  by (simp add: pipe_inv_def pipe_of_def)

lemma edge_ok:
  assumes "system_ok s" and "tie_break (e_pick e)" and "distinct order"
    and "system_edge e order t False s = Some (Inr s')"
  shows "system_ok s'"
proof -
  let ?ds = "map address (ew_uop_queue (s_glob s) @ de_uop_queue (s_glob s) @ dd_uop_queue (s_glob s))"
  have "pipe_inv (pipe_of s ?ds [])" using assms(1) by (simp add: pipe_inv_def pipe_of_def system_ok_def)
  moreover obtain ds' rs' where "pipe_step\<^sup>*\<^sup>* (pipe_of s ?ds []) (pipe_of s' ds' rs')"
    using edge_steps [OF assms(4,3)] by blast
  ultimately have "exec_order_inv (s_ex s', s_xports s', s_glob s')"
    using steps_inv system_ok_pipe by blast
  moreover have "bus_inv s'"
    using run_bus_inv assms by (simp add: system_edge_def system_ok_def)
  ultimately show ?thesis by (simp add: system_ok_def)
qed

lemma system_start_ok: "system_ok (system_start ent brk bytes pt lga rc sp u)"
  by (simp add: system_ok_def bus_inv_def system_start_def exec_ports_init_def port_ok_def tagged_def
      memory_new_def outstanding_def exec_order_inv_def exec_inv_def exec_init_def globals_init_def)

subsection \<open>Concrete states\<close>

definition sample_env :: env where
  "sample_env = \<lparr>e_host = sample_host, e_pick = pick_first, e_disasm = one_byte, e_junk = uop_empty\<rparr>"

text \<open>Fetch waits for the line of \<^verbatim>\<open>0x10005\<close>, whose answer is due.\<close>

definition sample_waiting :: system where
  "sample_waiting = (system_start 0x10005 0 (\<lambda>a. if a = 0x10005 then 0x90 else 0) 0 0 False 0 uop_empty)
     \<lparr>s_fetch := \<lparr>reset_flag = True, prev_tag = 0x10005, firstRunFlag = False, fetch_cycles = 0,
        RIP = 0x10005, RSP = 0\<rparr>,
      s_mem := (memory_new (\<lambda>a. if a = 0x10005 then 0x90 else 0))\<lparr>i_resp := [(0, (0x10000, 0x10000))]\<rparr>\<rparr>"

lemma sample_edges:
  "\<exists>s1 s2. system_edge sample_env all_stages 0 False sample_waiting = Some (Inr s1) \<and>
     system_edge sample_env all_stages 500 False s1 = Some (Inr s2) \<and>
     sys_log (s_glob s1) = sys_log (s_glob sample_waiting) \<and> f_out_ready (s_fports s2) \<and>
     out_addr (s_fports s2) = 0x10000 \<and> out_alignedaddr (s_fports s2) = 5"
  by (simp add: system_edge_def all_stages_def stage_work_def sample_waiting_def sample_env_def system_start_def
      fetch_work_def fetch_answer_def fetch_first_def fetch_inputs_def exec_ports_init_def memory_new_def
      decoder_work_def decoder_inputs_def dispatch_work_def dispatch_init_def execute_stage_def exec_work_def
      exec_inputs_def exec_init_def exec_issue_def writeback_work_def mem_work_def memory_inputs_def
      mem_i_answer_def mem_d_answer_def mem_i_request_def mem_d_request_def bucket_get_def line_of_def
      release_def and_then_def mem_i_read_def globals_init_def Let_def)

text \<open>The execute stage waits for a load from \<^verbatim>\<open>0x10000\<close>, whose answer is due.\<close>

definition sample_load :: uop where
  "sample_load = uop_empty\<lparr>opcode := UD_Iload, value1 := 0x10000, reg1 := UD_R_RBX, reg2 := UD_R_RCX\<rparr>"

definition sample_reading :: system where
  "sample_reading = (system_start 0x10005 0 (\<lambda>a. 0) 0 0 False 0 uop_empty)
     \<lparr>s_ex := (exec_init False 0 sample_load)\<lparr>ex_state := STATE_READ, firstrun := False\<rparr>,
      s_glob := globals_init\<lparr>de_uop_queue := [sample_load]\<rparr>,
      s_mem := (memory_new (\<lambda>a. 0))\<lparr>d_resp := [(0, (0x10000, 0x10000))]\<rparr>\<rparr>"

lemma sample_reads:
  "\<exists>s1 s2. system_edge sample_env all_stages 0 False sample_reading = Some (Inr s1) \<and>
     system_edge sample_env all_stages 500 False s1 = Some (Inr s2) \<and>
     sys_log (s_glob s1) = sys_log (s_glob sample_reading) \<and> ex_state (s_ex s1) = STATE_READ \<and>
     ex_state (s_ex s2) = STATE_NORMAL \<and> Op (s_ex s1) = sample_load"
  by (simp add: system_edge_def all_stages_def stage_work_def sample_reading_def sample_env_def system_start_def
      fetch_work_def fetch_answer_def fetch_first_def fetch_inputs_def exec_ports_init_def memory_new_def
      decoder_work_def decoder_inputs_def dispatch_work_def dispatch_init_def execute_stage_def exec_work_def
      exec_inputs_def exec_init_def exec_issue_def writeback_work_def mem_work_def memory_inputs_def
      mem_i_answer_def mem_d_answer_def mem_i_request_def mem_d_request_def bucket_get_def line_of_def
      release_def and_then_def mem_d_read_def globals_init_def Let_def sample_load_def read_load_def
      exec_complete_def remember_def set_rsp_def core_do_reset_def i_latency_def lru_get_def lru_put_def lru_new_def
      mem_size_def)

lemma sample_ok: "system_ok sample_waiting" "system_ok sample_reading"
  by (simp_all add: sample_waiting_def sample_reading_def system_ok_def bus_inv_def system_start_def exec_ports_init_def
      port_ok_def tagged_def memory_new_def outstanding_def exec_order_inv_def exec_inv_def exec_init_def
      globals_init_def mem_size_def sample_load_def split: if_splits)

subsection \<open>Properties\<close>

text \<open>C7: the simulator as it is wired refines the pipeline relation: whatever the order of the
  handlers, the disassembler, the memory and the host do, every state it reaches is one that the
  relation reaches, so the micro-operations in its queues are a subsequence of decoded ones, in
  order, its writeback queue never holds more than two, and the next edge of the execute stage
  pops no empty queue.\<close>

theorem system_refines_pipeline:
  assumes "system_at e t s"
  shows "\<exists>ds rs. reachable (pipe_of s ds rs) \<and>
    subseq (rs @ map address (ew_uop_queue (s_glob s) @ de_uop_queue (s_glob s) @ dd_uop_queue (s_glob s))) ds \<and>
    length (ew_uop_queue (s_glob s)) \<le> 2 \<and>
    exec_work h (exec_inputs False s) (s_ex s, s_xports s, s_glob s) \<noteq> Inl Pop_of_empty_queue"
proof -
  from system_reachable [OF assms] obtain ds rs where r: "reachable (pipe_of s ds rs)" by blast
  have sub: "subseq (rs @ map address (ew_uop_queue (s_glob s) @ de_uop_queue (s_glob s) @ dd_uop_queue (s_glob s))) ds"
    and "exec_order_inv (s_ex s, s_xports s, s_glob s)"
    using reachable_inv [OF r] by (simp_all add: pipe_inv_def pipe_of_def)
  then have inv: "exec_inv (s_ex s, s_xports s, s_glob s)" by (simp add: exec_order_inv_def)
  then have "length (ew_uop_queue (s_glob s)) \<le> 2" by (simp add: exec_inv_def)
  with r sub exec_work_no_pop [OF inv] show ?thesis by blast
qed

theorem system_refines_pipeline_witness:
  "\<exists>ds rs. reachable (pipe_of (system_start 0x10000 0 (\<lambda>_. 0) 0 0 False 0 uop_empty) ds rs)"
  using system_refines_pipeline [OF at_start [of sample_env "0x10000" 0 "\<lambda>_. 0" 0 0 False 0 uop_empty]]
  by blast

text \<open>C16: every state the simulator reaches is well formed: the tags on both memory ports and of all
  requests under way are their addresses, redirections come with a clear, and the execute stage
  waits only for the micro-operation at the front of its queue.\<close>

theorem system_stays_ok:
  assumes "system_at e t s" and "tie_break (e_pick e)"
  shows "system_ok s"
  using assms(1)
proof (induction rule: system_at.induct)
  case at_start
  then show ?case by (rule system_start_ok)
next
  case (at_edge t s order s')
  then show ?case using edge_ok assms(2) by blast
qed

theorem system_stays_ok_witness: "system_ok (system_start 0x10000 0 (\<lambda>_. 0) 0 0 False 0 uop_empty)"
proof -
  have "tie_break (e_pick sample_env)" using tie_break_first by (simp add: sample_env_def)
  with system_stays_ok [OF at_start] show ?thesis .
qed

text \<open>C13: a line that fetch hands to decode holds the bytes the memory had at its address on the edge
  before, from the wanted byte on, however many stale answers arrive: two edges after a well-formed
  state, unless a system call stored into the memory on the first.\<close>

theorem line_from_memory:
  assumes "system_ok s" and "tie_break (e_pick e)"
    and "distinct o1" "set o1 = set all_stages" "system_edge e o1 t False s = Some (Inr s1)"
    and "distinct o2" "set o2 = set all_stages" "system_edge e o2 (t + 500) False s1 = Some (Inr s2)"
    and "sys_log (s_glob s1) = sys_log (s_glob s)"
    and "f_out_ready (s_fports s2)"
  shows "\<exists>v. mem_i_read (mem (s_mem s)) (out_addr (s_fports s2)) = Inr v \<and>
    out_data (s_fports s2) = take_bit (128 - 8 * unat (out_alignedaddr (s_fports s2))) v"
proof -
  have m: "mem_work (e_pick e) t (memory_inputs False s) (s_mem s) = Inr (s_mem s1)"
    using run_memory [OF assms(5) [unfolded system_edge_def] assms(3,9)] assms(4)
    by (simp add: all_stages_def)
  have b: "tagged (\<lambda>a. i_mshr (s_mem s) a \<noteq> None) (i_out (s_mem s))"
    using assms(1) by (simp add: system_ok_def bus_inv_def)
  obtain g g' where f: "fetch_work (fetch_inputs False s1) (s_fetch s1, s_fports s1, g) = (s_fetch s2, s_fports s2, g')"
    using run_fetch [OF assms(8) [unfolded system_edge_def] assms(6)] assms(7) by (auto simp: all_stages_def)
  have redirect: "change_RIP (s_xports s1) \<longrightarrow> clear_out (s_xports s1)"
    using edge_ok [OF assms(1-3,5)] by (simp add: system_ok_def bus_inv_def port_ok_def)
  have "mi_ready (s_mem s1)" and a: "out_addr (s_fports s2) = signed (mi_tagout (s_mem s1))"
    and d: "out_data (s_fports s2) = take_bit (128 - 8 * unat (out_alignedaddr (s_fports s2))) (mi_data (s_mem s1))"
    using fetch_work_out [OF f] assms(10) redirect by (auto simp: fetch_inputs_def)
  with tagged_port.answer_is_word [OF i_port_laws [OF assms(2)] _ m b, of "mi_tagout (s_mem s1)"]
  show ?thesis by (simp add: memory_inputs_def)
qed

theorem line_from_memory_witness:
  "\<exists>s1 s2 v. system_edge sample_env all_stages 0 False sample_waiting = Some (Inr s1) \<and>
     system_edge sample_env all_stages 500 False s1 = Some (Inr s2) \<and>
     mem_i_read (mem (s_mem sample_waiting)) 0x10000 = Inr v \<and> out_data (s_fports s2) = take_bit 88 v"
proof -
  obtain s1 s2 where e: "system_edge sample_env all_stages 0 False sample_waiting = Some (Inr s1)"
     "system_edge sample_env all_stages (0 + 500) False s1 = Some (Inr s2)"
     "sys_log (s_glob s1) = sys_log (s_glob sample_waiting)" "f_out_ready (s_fports s2)"
     "out_addr (s_fports s2) = 0x10000" "out_alignedaddr (s_fports s2) = 5"
    using sample_edges by auto
  have d: "distinct all_stages" and p: "tie_break (e_pick sample_env)"
    using tie_break_first by (simp_all add: all_stages_def sample_env_def)
  from line_from_memory [OF sample_ok(1) p d refl e(1) d refl e(2-4)] e show ?thesis by auto
qed

text \<open>C9: a load, a pop or a return that completes does so with the word the memory had at its own
  address on the edge before it was seen, whatever older answers were on their way; a return
  redirects fetch to that word.\<close>

theorem read_from_memory:
  assumes "system_ok s" and "tie_break (e_pick e)"
    and "distinct o1" "set o1 = set all_stages" "system_edge e o1 t False s = Some (Inr s1)"
    and "distinct o2" "set o2 = set all_stages" "system_edge e o2 (t + 500) False s1 = Some (Inr s2)"
    and "sys_log (s_glob s1) = sys_log (s_glob s)"
    and "ex_state (s_ex s1) = STATE_READ" "ex_state (s_ex s2) = STATE_NORMAL"
  shows "let u = Op (s_ex s1); a = (if opcode u = UD_Iload then value1 u else value3 u) in
    \<exists>v. mem_d_read (mem (s_mem s)) a = Inr v \<and>
      (if opcode u = UD_Iret then new_RIP (s_xports s2) = v \<and> change_RIP (s_xports s2)
       else value2 (Op (s_ex s2)) = v)"
proof -
  have inv: "exec_inv (s_ex s1, s_xports s1, s_glob s1)"
    using edge_ok [OF assms(1-3,5)] by (simp add: system_ok_def exec_order_inv_def)
  have m: "mem_work (e_pick e) t (memory_inputs False s) (s_mem s) = Inr (s_mem s1)"
    using run_memory [OF assms(5) [unfolded system_edge_def] assms(3,9)] assms(4)
    by (simp add: all_stages_def)
  have b: "tagged (\<lambda>a. d_mshr (s_mem s) a \<noteq> None) (d_out (s_mem s))"
    using assms(1) by (simp add: system_ok_def bus_inv_def)
  obtain h g g' where x: "exec_work h (exec_inputs False s1) (s_ex s1, s_xports s1, g) = Inr (s_ex s2, s_xports s2, g')"
    using run_exec [OF assms(8) [unfolded system_edge_def] assms(6)] assms(7) by (auto simp: all_stages_def)
  let ?u = "Op (s_ex s1)"
  let ?a = "if opcode ?u = UD_Iload then value1 ?u else value3 ?u"
  have op: "opcode ?u \<in> {UD_Iret, UD_Ipop, UD_Iload}" "\<not> clear_out (s_xports s1)"
    using inv assms(10) by (auto simp: exec_inv_def)
  have fin: "md_ready (s_mem s1) \<and> signed (md_tagout (s_mem s1)) = ?a \<and>
      (if opcode ?u = UD_Iret then new_RIP (s_xports s2) = md_data (s_mem s1) \<and> change_RIP (s_xports s2)
       else value2 (Op (s_ex s2)) = md_data (s_mem s1))"
    using exec_work_completes [OF x assms(10,11) _ _ op(1)] op(2) by (simp add: exec_inputs_def)
  have "md_ready (s_mem s1)" "signed (md_tagout (s_mem s1)) = ?a"
    using fin by (simp_all split: if_splits)
  with tagged_port.answer_is_word [OF d_port_laws [OF assms(2)] _ m b, of "md_tagout (s_mem s1)"]
  have "mem_d_read (mem (s_mem s)) ?a = Inr (md_data (s_mem s1))" by (simp add: memory_inputs_def)
  then show ?thesis using fin by (simp add: Let_def)
qed

theorem read_from_memory_witness:
  "\<exists>s1 s2 v. system_edge sample_env all_stages 0 False sample_reading = Some (Inr s1) \<and>
     system_edge sample_env all_stages 500 False s1 = Some (Inr s2) \<and>
     mem_d_read (\<lambda>_. 0) 0x10000 = Inr v \<and> value2 (Op (s_ex s2)) = v"
proof -
  obtain s1 s2 where e: "system_edge sample_env all_stages 0 False sample_reading = Some (Inr s1)"
     "system_edge sample_env all_stages (0 + 500) False s1 = Some (Inr s2)"
     "sys_log (s_glob s1) = sys_log (s_glob sample_reading)" "ex_state (s_ex s1) = STATE_READ"
     "ex_state (s_ex s2) = STATE_NORMAL" "Op (s_ex s1) = sample_load"
    using sample_reads by auto
  have d: "distinct all_stages" and p: "tie_break (e_pick sample_env)"
    using tie_break_first by (simp_all add: all_stages_def sample_env_def)
  have "mem (s_mem sample_reading) = (\<lambda>_. 0)" by (simp add: sample_reading_def memory_new_def)
  with read_from_memory [OF sample_ok(2) p d refl e(1) d refl e(2-5)] e(1,2)
  show ?thesis by (auto simp: e(6) sample_load_def Let_def)
qed

end
