(* ===== verification/CodeStream.thy ===== *)
theory CodeStream
  imports System
begin

text \<open>
  From the bytes of a program in memory to the micro-operations in the decode queue: the text that decode makes
  of a line, after a jump or of the line that follows, and what the queue gets when the disassembler delivers the
  instructions of the program.
\<close>

subsection \<open>Lines of code\<close>

definition code_bytes :: "(addr \<Rightarrow> byte) \<Rightarrow> addr \<Rightarrow> nat \<Rightarrow> nat list" where
  "code_bytes M a n = map (\<lambda>i. unat (M (a + word_of_nat i))) [0..<n]"

definition hex_text :: "nat list \<Rightarrow> string" where
  "hex_text bs = concat (map hex_byte bs)"

lemma length_code_bytes [simp]: "length (code_bytes M a n) = n"
  by (simp add: code_bytes_def)

lemma code_bytes_small: "b \<in> set (code_bytes M a n) \<Longrightarrow> b < 256"
  by (auto simp: code_bytes_def intro: less_le_trans [OF unsigned_less])

lemma code_bytes_append: "code_bytes M a (m + n) = code_bytes M a m @ code_bytes M (a + word_of_nat m) n"
  by (rule nth_equalityI) (auto simp: code_bytes_def nth_append add.assoc)

lemma drop_code_bytes: "drop k (code_bytes M a n) = code_bytes M (a + word_of_nat k) (n - k)"
  by (rule nth_equalityI) (auto simp: code_bytes_def add.assoc)

lemma line_bytes:
  assumes "mem_i_read M a = Inr l"
  shows "map (line_byte l) [0..<16] = code_bytes M a 16"
proof -
  have l: "l = word_rcat (map (\<lambda>b. M (a + word_of_nat b)) [0..<16])"
    using assms by (simp add: mem_i_read_def split: if_splits)
  have "(ucast (drop_bit (8 * (15 - k)) l) :: byte) = M (a + word_of_nat k)" if "k < 16" for k
  proof (rule bit_word_eqI)
    fix n assume "n < LENGTH(8)"
    then have n: "n < 8" by simp
    have "rev (map (\<lambda>b. M (a + word_of_nat b)) [0..<16]) ! (15 - k) = M (a + word_of_nat k)"
      using that by (subst rev_nth) simp_all
    moreover have "(8 * (15 - k) + n) div 8 = 15 - k" "(8 * (15 - k) + n) mod 8 = n" "8 * (15 - k) + n < 128"
      using n that by auto
    ultimately show "bit (ucast (drop_bit (8 * (15 - k)) l) :: byte) n = bit (M (a + word_of_nat k)) n"
      using n by (simp add: l bit_word_rcat bit_simps)
  qed
  then show ?thesis by (simp add: code_bytes_def line_byte_def)
qed

lemma line_prefix_bytes:
  assumes "mem_i_read M (line_of t) = Inr l" and "j = unat (t mod 16)"
  shows "map (line_byte (take_bit (128 - 8 * j) l)) [0..<16] = replicate j 0 @ code_bytes M t (16 - j)"
proof -
  have t: "t = line_of t + word_of_nat j" using line_of_offset [of t] assms(2) by (simp add: algebra_simps)
  have j: "j < 16" using offset_less [of t] assms(2) by (simp add: line_of_offset)
  have line: "code_bytes M (line_of t) 16 = code_bytes M (line_of t) j @ code_bytes M t (16 - j)"
    using code_bytes_append [of M "line_of t" j "16 - j"] j t by simp
  show ?thesis
  proof (rule nth_equalityI)
    fix k assume "k < length (map (line_byte (take_bit (128 - 8 * j) l)) [0..<16])"
    then have k: "k < 16" by simp
    have "line_byte l k = (code_bytes M (line_of t) j @ code_bytes M t (16 - j)) ! k"
      using arg_cong [OF line_bytes [OF assms(1)], of "\<lambda>xs. xs ! k"] k by (simp add: line)
    then show "map (line_byte (take_bit (128 - 8 * j) l)) [0..<16] ! k = (replicate j 0 @ code_bytes M t (16 - j)) ! k"
      using k by (simp add: line_byte_take [OF k j] nth_append)
  qed (use j in simp)
qed

subsection \<open>Skipping the zeros in front of the first instruction\<close>

lemma hex_byte_two: "b < 256 \<Longrightarrow> hex_byte b = [hex_digit (b div 16), hex_digit (b mod 16), CHR '' '']"
  by (cases "b < 16")
    (auto simp: hex_byte_def to_hex.simps [of b] to_hex.simps [of "b div 16"] hex_0_f)

lemma hex_digit_nonzero: "0 < d \<Longrightarrow> d < 16 \<Longrightarrow> hex_digit d \<noteq> CHR ''0'' \<and> hex_digit d \<noteq> CHR '' ''"
  using hex_digit_ok [of d] hex_digit_ok [of 0] not_hex_blank by (metis hex_0_f(1) less_numeral_extra(3) zero_less_numeral)

lemma skip_zeros_text:
  assumes "16 \<le> b" "b < 256"
  shows "skip_zeros (hex_text (replicate j 0 @ b # bs)) = hex_text (b # bs)"
proof -
  have "0 < b div 16" "b div 16 < 16" using assms by (simp_all add: div_greater_zero_iff less_mult_imp_div_less)
  from hex_digit_nonzero [OF this] have "skip_zeros (hex_text (b # bs)) = hex_text (b # bs)"
    by (simp add: skip_zeros_def hex_text_def hex_byte_two [OF assms(2)])
  then show ?thesis
    by (induction j) (simp_all add: skip_zeros_def hex_text_def hex_byte_two hex_0_f)
qed

subsection \<open>What the disassembler delivers\<close>

text \<open>Some instructions, and then the end of the input, or one that the end of the input cuts off.\<close>

inductive delivers :: "disassembler \<Rightarrow> string \<Rightarrow> nat \<Rightarrow> (nat \<times> insn) list \<Rightarrow> bool \<Rightarrow> bool"
  for disasm s where
  del_stop: "disasm s p = (0, u, p') \<Longrightarrow> delivers disasm s p [] False"
| del_cut: "disasm s p = (n, u, p') \<Longrightarrow> n \<noteq> 0 \<Longrightarrow> mnem u = UD_Iinvalid \<Longrightarrow> disasm s p' = (0, u', p'') \<Longrightarrow>
    delivers disasm s p [] True"
| del_more: "disasm s p = (n, u, p') \<Longrightarrow> n \<noteq> 0 \<Longrightarrow> mnem u \<noteq> UD_Iinvalid \<Longrightarrow> delivers disasm s p' xs c \<Longrightarrow>
    delivers disasm s p ((n, u) # xs) c"

lemma decode_loop_delivers:
  assumes "delivers disasm s p xs c"
  shows "decode_loop disasm s p l =
    Some (l\<lparr>temp_addr := temp_addr l + word_of_nat (sum_list (map fst xs)),
            last_good := (if xs = [] \<and> \<not> c then last_good l else temp_addr l + word_of_nat (sum_list (map fst xs))),
            scratch := [], rem := rem l @ leftover (drop (sum_list (map fst xs)) (scratch l)),
            sizes := sizes l @ map (\<lambda>x. word_of_nat (fst x)) xs,
            addrs := addrs l @ layout (temp_addr l) (map fst xs),
            opcodes := opcodes l @ map snd xs\<rparr>)"
  using assms
proof (induction arbitrary: l)
  case (del_stop p u p')
  then show ?case by (subst decode_loop.simps) (simp add: flush_scratch_def)
next
  case (del_cut p n u p' u' p'')
  then have "decode_loop disasm s p l = decode_loop disasm s p' ((flush_scratch l)\<lparr>last_good := temp_addr l\<rparr>)"
    by (subst decode_loop.simps) simp
  also have "\<dots> = Some (flush_scratch ((flush_scratch l)\<lparr>last_good := temp_addr l\<rparr>))"
    using del_cut by (subst decode_loop.simps) simp
  finally show ?case by (simp add: flush_scratch_def leftover_def)
next
  case (del_more p n u p' xs c)
  then have "decode_loop disasm s p l = decode_loop disasm s p' (accept_insn n u l)"
    by (subst decode_loop.simps) simp
  with del_more.IH show ?case by (simp add: accept_insn_def add.commute add.assoc)
qed

lemma decode_delivers:
  assumes "decode_text i d (RIP_jump g) = (hex_text bs, a, jump)" and "\<forall>b \<in> set bs. b < 256" and "scratch_q d = []"
    and "delivers disasm (hex_text bs) 0 xs c" and "xs = [] \<longrightarrow> c" and "\<forall>(n, u) \<in> set xs. crack_pops u"
  shows "decode_opcodes disasm junk i (d, g) = Some (Inr
    (d\<lparr>rem_string := hex_text (drop (sum_list (map fst xs)) bs), first_run := False,
       last_good_addr := a + word_of_nat (sum_list (map fst xs)), scratch_q := []\<rparr>,
     g\<lparr>dd_uop_queue := dd_uop_queue g @ concat (map (\<lambda>((n, u), ad). map (push2q junk (word_of_nat n) ad) (crack_insn u))
         (zip xs (layout a (map fst xs)))), RIP_jump := jump\<rparr>))"
proof -
  have kept: "map snd xs = filter crack_pops (map snd xs)"
    using assms(6) by (intro filter_True [symmetric]) auto
  have "\<forall>b \<in> set (drop (sum_list (map fst xs)) bs). b < 256" using assms(2) by (meson in_set_dropD)
  then have rest: "leftover (drop (sum_list (map fst xs)) (byte_stack (hex_text bs))) = hex_text (drop (sum_list (map fst xs)) bs)"
    using leftover_bytes [of "drop (sum_list (map fst xs)) bs"]
    by (simp only: hex_text_def byte_stack_bytes [OF assms(2)] drop_map)
  show ?thesis
    using zip_zip_eq [of xs "layout a (map fst xs)" "\<lambda>u sz ad. map (push2q junk sz ad) (crack_insn u)" word_of_nat] assms(5)
    by (auto simp: decode_opcodes_def assms(1,3) decode_loop_delivers [OF assms(4)] rest crack_opcodes_zip [OF kept])
qed

subsection \<open>The three kinds of line\<close>

lemma line_text: "bin2hex (bv_to_string w) = hex_text (map (line_byte w) [0..<16])"
  by (simp add: bin2hex_line hex_text_def o_def)

lemma text_next_line:
  assumes "\<not> first_run d" and "in_alignedaddr i = 0" and "rem_string d = hex_text bs"
    and "map (line_byte (in_data i)) [0..<16] = cs"
  shows "decode_text i d False = (hex_text (bs @ cs), last_good_addr d, False)"
  using assms by (simp add: decode_text_def line_text Let_def hex_text_def)

lemma text_first_line:
  assumes "map (line_byte (in_data i)) [0..<16] = replicate j 0 @ b # bs" and "16 \<le> b" "b < 256"
    and "if jump then \<not> first_run d else first_run d \<and> rem_string d = []"
  shows "decode_text i d jump = (hex_text (b # bs), in_addr i + in_alignedaddr i, False)"
  using assms(4) skip_zeros_text [OF assms(2,3), of j bs]
  by (auto simp: decode_text_def line_text assms(1) Let_def split: if_splits)

end
