(* ===== verification/Boot.thy ===== *)
theory Boot
  imports System Stack
begin

text \<open>
  The start of the simulator: the time from the reset to the first line of instructions, while
  fetch waits for the memory and the rest of the pipeline is idle.
\<close>

subsection \<open>Edges on which nothing but fetch and memory moves\<close>

fun same_part :: "stage \<Rightarrow> system \<Rightarrow> system \<Rightarrow> bool" where
  "same_part At_fetch a s = (s_fetch a = s_fetch s \<and> s_fports a = s_fports s)"
| "same_part At_decode a s = (s_dec a = s_dec s)"
| "same_part At_dispatch a s = (s_disp a = s_disp s)"
| "same_part At_execute a s = (s_ex a = s_ex s \<and> s_xports a = s_xports s)"
| "same_part At_writeback a s = (s_wb a = s_wb s)"
| "same_part At_memory a s = (s_mem a = s_mem s)"

lemma stage_same_part:
  assumes "stage_work e t rst old st s = Some (Inr s')" and "st' \<noteq> st"
    and "sys_log (s_glob s') = sys_log (s_glob s)"
  shows "same_part st' s' s"
  using assms
  by (cases st'; cases st) (auto simp: stage_work_def execute_stage_def split: prod.splits option.splits sum.splits)

lemma same_part_refl: "same_part st s s"
  by (cases st) auto

lemma same_part_trans: "same_part st a b \<Longrightarrow> same_part st b c \<Longrightarrow> same_part st a c"
  by (cases st) auto

lemma run_total:
  assumes "\<And>st a. same_part st a old \<Longrightarrow> \<exists>b. stage_work e t rst old st a = Some (Inr b) \<and> sys_log (s_glob b) = sys_log (s_glob a)"
    and "distinct sts" and "\<forall>st \<in> set sts. same_part st s old"
  shows "\<exists>s'. run_stages e t rst old sts s = Some (Inr s') \<and> sys_log (s_glob s') = sys_log (s_glob s)"
  using assms(2,3)
proof (induction sts arbitrary: s)
  case (Cons st sts)
  then obtain b where b: "stage_work e t rst old st s = Some (Inr b)" "sys_log (s_glob b) = sys_log (s_glob s)"
    using assms(1) by (metis list.set_intros(1))
  have "\<forall>st' \<in> set sts. same_part st' b old"
    using Cons.prems stage_same_part [OF b(1) _ b(2)] by (metis distinct.simps(2) list.set_intros(2) same_part_trans)
  with Cons.IH [of b] Cons.prems(1) b show ?case by auto
qed simp

text \<open>Fetch is waiting for its first line and the rest of the pipeline is idle.\<close>

definition idle_back :: "system \<Rightarrow> bool" where
  "idle_back s \<longleftrightarrow> \<not> dec_out_ready (s_dec s) \<and> first_run (s_dec s) \<and> \<not> disp_out_ready (s_disp s) \<and>
     ex_state (s_ex s) = STATE_NORMAL \<and> \<not> clear_out (s_xports s) \<and> \<not> change_RIP (s_xports s) \<and>
     \<not> out_ready (s_xports s) \<and> d_op (s_xports s) = NONE"

definition idle_core :: "system \<Rightarrow> bool" where
  "idle_core s \<longleftrightarrow> \<not> f_out_ready (s_fports s) \<and> idle_back s"

lemmas idle_defs = idle_core_def idle_back_def

lemma idle_exec:
  assumes "idle_core old" "same_part At_execute a old"
  shows "exec_work h (exec_inputs False old) (s_ex a, s_xports a, g) =
    Inr ((s_ex old)\<lparr>cyclecount := cyclecount (s_ex old) + 1\<rparr>, (s_xports old)\<lparr>out_ready := False, change_RIP := False\<rparr>, g)"
  using assms by (simp add: idle_defs exec_inputs_def exec_work_def exec_issue_def Let_def)

lemma idle_decode:
  "idle_core old \<Longrightarrow> decoder_work disasm junk (decoder_inputs False old) s = Some (Inr s)"
  by (simp add: idle_defs decoder_inputs_def decoder_work_def)

lemma idle_total:
  assumes "idle_core old" and "mem_work (e_pick e) t (memory_inputs False old) (s_mem old) = Inr m"
    and "same_part st a old"
  shows "\<exists>b. stage_work e t False old st a = Some (Inr b) \<and> sys_log (s_glob b) = sys_log (s_glob a)"
proof (cases st)
  case At_fetch
  then show ?thesis
    by (cases "fetch_work (fetch_inputs False old) (s_fetch a, s_fports a, s_glob a)")
      (auto simp: stage_work_def dest!: fetch_work_frame)
next
  case At_execute
  then show ?thesis using assms by (auto simp: stage_work_def execute_stage_def idle_exec)
next
  case At_dispatch
  then show ?thesis using assms(1) by (auto simp: stage_work_def dispatch_work_def idle_defs Let_def)
next
  case At_writeback
  then show ?thesis by (auto simp: stage_work_def writeback_work_def Let_def split: list.split prod.split)
qed (use assms in \<open>auto simp: stage_work_def idle_decode\<close>)

lemma idle_edge:
  assumes "idle_core s" and "mem_work (e_pick e) t (memory_inputs False s) (s_mem s) = Inr m"
    and "distinct order" "set order = set all_stages"
  obtains s' g g' where "system_edge e order t False s = Some (Inr s')" "s_mem s' = m"
    "sys_log (s_glob s') = sys_log (s_glob s)"
    "fetch_work (fetch_inputs False s) (s_fetch s, s_fports s, g) = (s_fetch s', s_fports s', g')"
    "idle_back s'"
proof -
  obtain s' where e: "run_stages e t False s order s = Some (Inr s')" and l: "sys_log (s_glob s') = sys_log (s_glob s)"
    using run_total [OF idle_total [OF assms(1,2)] assms(3)] same_part_refl by blast
  have in_order: "st \<in> set order" for st using assms(4) by (cases st) (simp_all add: all_stages_def)
  have m: "s_mem s' = m" using run_memory [OF e assms(3) l] in_order assms(2) by simp
  obtain g g' where f: "fetch_work (fetch_inputs False s) (s_fetch s, s_fports s, g) = (s_fetch s', s_fports s', g')"
    using run_fetch [OF e assms(3) in_order] by blast
  obtain h k k' where "exec_work h (exec_inputs False s) (s_ex s, s_xports s, k) = Inr (s_ex s', s_xports s', k')"
    using run_exec [OF e assms(3) in_order] by blast
  then have x: "s_ex s' = (s_ex s)\<lparr>cyclecount := cyclecount (s_ex s) + 1\<rparr>"
    "s_xports s' = (s_xports s)\<lparr>out_ready := False, change_RIP := False\<rparr>"
    by (simp_all add: idle_exec [OF assms(1), of s, simplified])
  obtain k k' where "decoder_work (e_disasm e) (e_junk e) (decoder_inputs False s) (s_dec s, k) = Some (Inr (s_dec s', k'))"
    using run_decode [OF e assms(3) in_order] by blast
  then have d: "s_dec s' = s_dec s" by (simp add: idle_decode [OF assms(1)])
  obtain k k' where dw: "dispatch_work False (clear_out (s_xports s)) (dec_out_ready (s_dec s)) (s_disp s) k = (s_disp s', k')"
    using run_dispatch [OF e assms(3) in_order] by blast
  have "\<not> disp_out_ready (fst (dispatch_work False (clear_out (s_xports s)) (dec_out_ready (s_dec s)) (s_disp s) k))"
    using assms(1) by (simp add: dispatch_work_def idle_defs Let_def)
  then have "\<not> disp_out_ready (s_disp s')" by (simp add: dw)
  then have "idle_back s'" using assms(1) x d by (simp add: idle_defs)
  with e m l f show thesis by (intro that) (simp_all add: system_edge_def)
qed

text \<open>The wait: the request of the first line was taken on the edge of 500 ps and has been repeated on every
  edge since.\<close>

definition waiting :: "addr \<Rightarrow> (addr \<Rightarrow> byte) \<Rightarrow> nat \<Rightarrow> system \<Rightarrow> bool" where
  "waiting ent bytes n s \<longleftrightarrow> idle_core s \<and> prev_tag (s_fetch s) = ent \<and> RIP (s_fetch s) = ent \<and>
     \<not> firstRunFlag (s_fetch s) \<and> i_op (s_fports s) = READ \<and> i_tagin (s_fports s) = ucast (line_of ent) \<and>
     i_addr (s_fports s) = line_of ent \<and> mem (s_mem s) = bytes \<and> \<not> mi_ready (s_mem s) \<and> d_resp (s_mem s) = [] \<and>
     (if n = 0 then i_resp (s_mem s) = [] \<and> i_mshr (s_mem s) = Map.empty \<and>
           \<not> resident (line_of ent) (L1i (s_mem s)) \<and> \<not> resident (line_of ent) (L2 (s_mem s))
      else i_resp (s_mem s) = [(111500, (ucast (line_of ent), line_of ent))] \<and>
           i_mshr (s_mem s) = [line_of ent \<mapsto> replicate (n - 1) (ucast (line_of ent))])"

lemma waiting_memory:
  assumes "tie_break (e_pick e)" and "waiting ent bytes n s" and "n < 222"
    and "0xffff < line_of ent" "line_of ent < mem_size"
  shows "\<exists>m. mem_work (e_pick e) (500 * (n + 1)) (memory_inputs False s) (s_mem s) = Inr m \<and> mem m = bytes \<and>
    \<not> mi_ready m \<and> d_resp m = [] \<and> i_resp m = [(111500, (ucast (line_of ent), line_of ent))] \<and>
    i_mshr m = [line_of ent \<mapsto> replicate n (ucast (line_of ent))]"
proof (cases n)
  case 0
  obtain l m1 where lat: "i_latency (line_of ent) ((s_mem s)\<lparr>mi_ready := False, md_ready := False\<rparr>) = (l, m1)"
    by fastforce
  then have "l = 111" using i_latency_levels [of "line_of ent" "(s_mem s)\<lparr>mi_ready := False, md_ready := False\<rparr>"] assms(2) 0
    by (simp add: waiting_def)
  moreover obtain c1 c2 where "m1 = (s_mem s)\<lparr>mi_ready := False, md_ready := False, L1i := c1, L2 := c2\<rparr>"
    using latency_frame(1) [of "line_of ent" "(s_mem s)\<lparr>mi_ready := False, md_ready := False\<rparr>"] lat by auto
  ultimately show ?thesis using assms(2,4,5) lat 0
    by (simp add: waiting_def mem_work_def mem_i_answer_def mem_d_answer_def bucket_get_def and_then_def
        mem_i_request_def mem_d_request_def memory_inputs_def idle_defs bucket_add_def)
next
  case (Suc k)
  have "e_pick e [(111500, (ucast (line_of ent), line_of ent))] = 0"
    using tie_break.pick_in [OF assms(1), of "[(111500, (ucast (line_of ent), line_of ent))]"] by simp
  then show ?thesis using assms(2,3) Suc
    by (simp add: waiting_def mem_work_def mem_i_answer_def mem_d_answer_def bucket_get_def and_then_def
        mem_i_request_def mem_d_request_def memory_inputs_def idle_defs replicate_append_same)
qed

lemma waiting_step:
  assumes "tie_break (e_pick e)" and "waiting ent bytes n s" and "n < 222"
    and "0xffff < line_of ent" "line_of ent < mem_size"
    and "distinct order" "set order = set all_stages"
  shows "\<exists>s'. system_edge e order (500 * (n + 1)) False s = Some (Inr s') \<and> waiting ent bytes (n + 1) s'"
proof -
  have idle: "idle_core s" using assms(2) by (simp add: waiting_def)
  from waiting_memory [OF assms(1-5)] obtain m where
    m: "mem_work (e_pick e) (500 * (n + 1)) (memory_inputs False s) (s_mem s) = Inr m" "mem m = bytes"
    "\<not> mi_ready m" "d_resp m = []" "i_resp m = [(111500, (ucast (line_of ent), line_of ent))]"
    "i_mshr m = [line_of ent \<mapsto> replicate n (ucast (line_of ent))]" by blast
  obtain s' g g' where s': "system_edge e order (500 * (n + 1)) False s = Some (Inr s')" "s_mem s' = m"
    "fetch_work (fetch_inputs False s) (s_fetch s, s_fports s, g) = (s_fetch s', s_fports s', g')"
    "idle_back s'"
    by (rule idle_edge [OF idle m(1) assms(6,7)])
  have "s_fetch s' = (s_fetch s)\<lparr>fetch_cycles := fetch_cycles (s_fetch s) + 1\<rparr>"
    "s_fports s' = (s_fports s)\<lparr>f_out_ready := False\<rparr>"
    using s'(3) assms(2)
    by (simp_all add: waiting_def idle_defs fetch_inputs_def fetch_work_def fetch_answer_def fetch_first_def Let_def)
  then show ?thesis using s' m assms(2) by (intro exI [of _ s']) (simp add: waiting_def idle_core_def)
qed

subsection \<open>The first line\<close>

fun system_run :: "env \<Rightarrow> stage list list \<Rightarrow> nat \<Rightarrow> system \<Rightarrow> (fault + system) option" where
  "system_run e [] t s = Some (Inr s)"
| "system_run e (order # os) t s = (case system_edge e order t False s of
     None \<Rightarrow> None
   | Some (Inl f) \<Rightarrow> Some (Inl f)
   | Some (Inr s') \<Rightarrow> system_run e os (t + 500) s')"

lemma system_run_append:
  "system_run e (os @ os') t s = (case system_run e os t s of
     None \<Rightarrow> None | Some (Inl f) \<Rightarrow> Some (Inl f) | Some (Inr s') \<Rightarrow> system_run e os' (t + 500 * length os) s')"
  by (induction os arbitrary: t s) (auto split: option.split sum.split simp: algebra_simps)

lemma waiting_run:
  assumes "tie_break (e_pick e)" and "waiting ent bytes 0 s" and "length os \<le> 222"
    and "0xffff < line_of ent" "line_of ent < mem_size"
    and "\<forall>order \<in> set os. distinct order \<and> set order = set all_stages"
  shows "\<exists>s'. system_run e os 500 s = Some (Inr s') \<and> waiting ent bytes (length os) s'"
  using assms(3,6)
proof (induction os rule: rev_induct)
  case Nil
  then show ?case using assms(2) by simp
next
  case (snoc order os)
  then obtain s1 where s1: "system_run e os 500 s = Some (Inr s1)" "waiting ent bytes (length os) s1" by auto
  have o: "length os < 222" "distinct order" "set order = set all_stages"
    using snoc.prems by simp_all
  obtain s2 where s2: "system_edge e order (500 * (length os + 1)) False s1 = Some (Inr s2)"
    "waiting ent bytes (length os + 1) s2"
    using waiting_step [OF assms(1) s1(2) o(1) assms(4,5) o(2,3)] by blast
  have "system_edge e order (500 + 500 * length os) False s1 = Some (Inr s2)"
    using s2(1) by (simp add: algebra_simps)
  with s1(1) s2(2) show ?case by (intro exI [of _ s2]) (simp add: system_run_append)
qed

lemma start_waiting:
  assumes "distinct order" "set order = set all_stages"
  shows "\<exists>s. system_edge e order 0 False (system_start ent brk bytes pt lga rc sp u) = Some (Inr s) \<and> waiting ent bytes 0 s"
proof -
  let ?s = "system_start ent brk bytes pt lga rc sp u"
  have idle: "idle_core ?s" by (simp add: idle_defs system_start_def dispatch_init_def exec_init_def exec_ports_init_def)
  have m: "mem_work (e_pick e) 0 (memory_inputs False ?s) (s_mem ?s) = Inr (memory_new bytes)"
    by (simp add: mem_work_def mem_i_answer_def mem_d_answer_def bucket_get_def and_then_def memory_inputs_def
        mem_i_request_def mem_d_request_def system_start_def exec_ports_init_def memory_new_def)
  obtain s g g' where s: "system_edge e order 0 False ?s = Some (Inr s)" "s_mem s = memory_new bytes"
    "fetch_work (fetch_inputs False ?s) (s_fetch ?s, s_fports ?s, g) = (s_fetch s, s_fports s, g')"
    "idle_back s"
    by (rule idle_edge [OF idle m assms(1,2)])
  have "s_fetch s = fst (fetch_work (fetch_inputs False ?s) (s_fetch ?s, s_fports ?s, g))"
    "s_fports s = fst (snd (fetch_work (fetch_inputs False ?s) (s_fetch ?s, s_fports ?s, g)))"
    by (simp_all only: s(3) fst_conv snd_conv)
  then have "prev_tag (s_fetch s) = ent \<and> RIP (s_fetch s) = ent \<and> \<not> firstRunFlag (s_fetch s) \<and>
      i_op (s_fports s) = READ \<and> i_tagin (s_fports s) = ucast (line_of ent) \<and> i_addr (s_fports s) = line_of ent \<and>
      \<not> f_out_ready (s_fports s)"
    by (simp add: system_start_def fetch_inputs_def fetch_work_def fetch_answer_def fetch_first_def
        exec_ports_init_def memory_new_def core_do_reset_def Let_def)
  then show ?thesis using s by (auto simp: waiting_def idle_core_def memory_new_def resident_def lru_new_def)
qed

text \<open>The two edges on which the answer is driven and taken.\<close>

lemma line_request_total:
  assumes "mi_op i = READ" "0xffff < mi_addr i" "mi_addr i < mem_size"
  shows "\<exists>m'. mem_i_request tm i m = Inr m' \<and> mem m' = mem m \<and> mi_ready m' = mi_ready m \<and>
    mi_tagout m' = mi_tagout m \<and> mi_data m' = mi_data m \<and> d_resp m' = d_resp m \<and>
    set (i_resp m') \<subseteq> set (i_resp m) \<union> {r. snd (snd r) = mi_addr i}"
proof -
  obtain l m1 where lat: "i_latency (mi_addr i) m = (l, m1)" by fastforce
  then obtain c1 c2 where "m1 = m\<lparr>L1i := c1, L2 := c2\<rparr>"
    using latency_frame(1) [of "mi_addr i" m] by auto
  then show ?thesis using assms lat
    by (cases "i_mshr m (mi_addr i)") (simp_all add: mem_i_request_def bucket_add_def)
qed

lemma release_addresses: "set (release tm a tags q) \<subseteq> set q \<union> {r. snd (snd r) = a}"
proof -
  have "set (fold (\<lambda>t q. bucket_add tm (t, a) 0 q) ts q) \<subseteq> set q \<union> {r. snd (snd r) = a}" for ts
    by (induction ts arbitrary: q) (force simp: bucket_add_def)+
  then show ?thesis by (cases tags) (simp_all add: release_def)
qed

text \<open>An edge of the memory on which every request waiting is for the line at \<open>a\<close>.\<close>

lemma line_edge:
  assumes "tie_break pick" and "\<forall>r \<in> set (i_resp m). snd (snd r) = a" and "d_resp m = []"
    and "mem_i_read (mem m) a = Inr v" and "0xffff < a" "a < mem_size"
    and "mi_op i = READ" "mi_addr i = a" "md_op i = NONE" "\<not> mm_reset i"
  shows "\<exists>m'. mem_work pick tm i m = Inr m' \<and> mem m' = mem m \<and> d_resp m' = [] \<and>
    (\<forall>r \<in> set (i_resp m'). snd (snd r) = a) \<and>
    (\<forall>t tag. i_resp m = [(t, (tag, a))] \<and> t \<le> tm \<longrightarrow> mi_ready m' \<and> mi_tagout m' = tag \<and> mi_data m' = v)"
proof -
  have "\<exists>m1. mem_i_answer pick tm m = Inr m1 \<and> mem m1 = mem m \<and> d_resp m1 = [] \<and>
      (\<forall>r \<in> set (i_resp m1). snd (snd r) = a) \<and>
      (\<forall>t tag. i_resp m = [(t, (tag, a))] \<and> t \<le> tm \<longrightarrow> mi_ready m1 \<and> mi_tagout m1 = tag \<and> mi_data m1 = v)"
  proof (cases "fst (bucket_get pick tm (i_resp m))")
    case None
    then obtain q where q: "bucket_get pick tm (i_resp m) = (None, q)" by (metis prod.collapse)
    moreover have "\<not> t \<le> tm" if "i_resp m = [(t, tag, a)]" for t tag
      using q that tie_break.pick_in [OF assms(1), of "i_resp m"] by (auto simp: bucket_get_def)
    ultimately show ?thesis using assms(2,3) by (auto simp: mem_i_answer_def)
  next
    case (Some r)
    then have ne: "i_resp m \<noteq> []" by (auto simp: bucket_get_def)
    let ?p = "pick (i_resp m)"
    let ?q = "take ?p (i_resp m) @ drop (Suc ?p) (i_resp m)"
    have p: "?p < length (i_resp m)" using tie_break.pick_in [OF assms(1) ne] .
    have "snd (snd (i_resp m ! ?p)) = a" using assms(2) nth_mem [OF p] by blast
    then obtain tag where tag: "snd (i_resp m ! ?p) = (tag, a)" by (metis prod.collapse)
    then have get: "bucket_get pick tm (i_resp m) = (Some (tag, a), ?q)"
      using Some ne by (simp add: bucket_get_def split: if_splits)
    have "set ?q \<subseteq> set (i_resp m)" using set_take_subset set_drop_subset by fastforce
    then have "\<forall>r \<in> set (release tm a (i_mshr m a) ?q). snd (snd r) = a"
      using release_addresses [of tm a "i_mshr m a" ?q] assms(2) by blast
    with get tag assms(3,4) p show ?thesis by (auto simp: mem_i_answer_def)
  qed
  then obtain m1 where m1: "mem_i_answer pick tm m = Inr m1" "mem m1 = mem m" "d_resp m1 = []"
      "\<forall>r \<in> set (i_resp m1). snd (snd r) = a"
      "\<forall>t tag. i_resp m = [(t, (tag, a))] \<and> t \<le> tm \<longrightarrow> mi_ready m1 \<and> mi_tagout m1 = tag \<and> mi_data m1 = v"
    by blast
  have m2: "mem_d_answer pick tm m1 = Inr (m1\<lparr>md_ready := False\<rparr>)"
    using m1(3) by (simp add: mem_d_answer_def bucket_get_def)
  obtain m3 where m3: "mem_i_request tm i (m1\<lparr>md_ready := False\<rparr>) = Inr m3" "mem m3 = mem m1"
      "mi_ready m3 = mi_ready m1" "mi_tagout m3 = mi_tagout m1" "mi_data m3 = mi_data m1" "d_resp m3 = d_resp m1"
      "set (i_resp m3) \<subseteq> set (i_resp m1) \<union> {r. snd (snd r) = a}"
    using line_request_total [of i tm "m1\<lparr>md_ready := False\<rparr>"] assms(5-8) by auto
  have "mem_work pick tm i m = Inr m3"
    using m1(1) m2 m3(1) assms(9,10) by (simp add: mem_work_def mem_d_request_def)
  with m1 m3 show ?thesis by (intro exI [of _ m3]) auto
qed

lemma first_answer:
  assumes "tie_break (e_pick e)" and "waiting ent bytes 222 s" and "mem_i_read bytes (line_of ent) = Inr v"
    and "0xffff < line_of ent" "line_of ent < mem_size"
    and "distinct o1" "set o1 = set all_stages" "distinct o2" "set o2 = set all_stages"
  shows "\<exists>s'. system_run e [o1, o2] 111500 s = Some (Inr s') \<and> f_out_ready (s_fports s') \<and>
    out_addr (s_fports s') = line_of ent \<and> out_alignedaddr (s_fports s') = ent - line_of ent \<and>
    out_data (s_fports s') = take_bit (128 - 8 * unat (ent - line_of ent)) v \<and> idle_back s' \<and>
    (\<exists>s1. system_run e [o1] 111500 s = Some (Inr s1) \<and> idle_core s1)"
proof -
  have idle: "idle_core s" and w: "mem (s_mem s) = bytes" "\<not> mi_ready (s_mem s)"
      "i_resp (s_mem s) = [(111500, (ucast (line_of ent), line_of ent))]" "d_resp (s_mem s) = []"
    using assms(2) by (simp_all add: waiting_def)
  have i: "mi_op (memory_inputs False s) = READ" "mi_addr (memory_inputs False s) = line_of ent"
      "md_op (memory_inputs False s) = NONE" "\<not> mm_reset (memory_inputs False s)"
    using assms(2) by (simp_all add: waiting_def idle_defs memory_inputs_def)
  obtain m1 where m1: "mem_work (e_pick e) 111500 (memory_inputs False s) (s_mem s) = Inr m1" "mem m1 = bytes"
      "d_resp m1 = []" "\<forall>r \<in> set (i_resp m1). snd (snd r) = line_of ent" "mi_ready m1"
      "mi_tagout m1 = ucast (line_of ent)" "mi_data m1 = v"
    using line_edge [OF assms(1), of "s_mem s" "line_of ent" v "memory_inputs False s" 111500] w i assms(3-5) by auto
  obtain s1 g1 g1' where s1: "system_edge e o1 111500 False s = Some (Inr s1)" "s_mem s1 = m1"
    "fetch_work (fetch_inputs False s) (s_fetch s, s_fports s, g1) = (s_fetch s1, s_fports s1, g1')"
    "idle_back s1"
    by (rule idle_edge [OF idle m1(1) assms(6,7)])
  have f1: "s_fetch s1 = (s_fetch s)\<lparr>fetch_cycles := fetch_cycles (s_fetch s) + 1\<rparr>"
    "s_fports s1 = (s_fports s)\<lparr>f_out_ready := False\<rparr>"
    using s1(3) assms(2)
    by (simp_all add: waiting_def idle_defs fetch_inputs_def fetch_work_def fetch_answer_def fetch_first_def Let_def)
  then have idle1: "idle_core s1" using s1(4) by (simp add: idle_core_def)
  have i1: "mi_op (memory_inputs False s1) = READ" "mi_addr (memory_inputs False s1) = line_of ent"
      "md_op (memory_inputs False s1) = NONE" "\<not> mm_reset (memory_inputs False s1)"
    using i idle1 f1(2) by (simp_all add: memory_inputs_def idle_defs)
  obtain m2 where m2: "mem_work (e_pick e) 112000 (memory_inputs False s1) (s_mem s1) = Inr m2"
    using line_edge [OF assms(1), of "s_mem s1" "line_of ent" v "memory_inputs False s1" 112000]
      m1 s1(2) i1 assms(3-5) by auto
  obtain s2 g2 g2' where s2: "system_edge e o2 112000 False s1 = Some (Inr s2)"
    "fetch_work (fetch_inputs False s1) (s_fetch s1, s_fports s1, g2) = (s_fetch s2, s_fports s2, g2')" "idle_back s2"
    by (rule idle_edge [OF idle1 m2 assms(8,9)])
  have p2: "s_fports s2 = fst (snd (fetch_work (fetch_inputs False s1) (s_fetch s1, s_fports s1, g2)))"
    by (simp only: s2(2) fst_conv snd_conv)
  have "prev_tag (s_fetch s1) = ent" "\<not> firstRunFlag (s_fetch s1)" "\<not> clear_out (s_xports s1)" "\<not> change_RIP (s_xports s1)"
    using assms(2) idle1 f1(1) by (simp_all add: waiting_def idle_defs)
  moreover have "signed (mi_tagout m1) = line_of ent" using m1(6) small_tag [OF assms(5)] by simp
  ultimately have "f_out_ready (s_fports s2) \<and> out_addr (s_fports s2) = line_of ent \<and>
      out_alignedaddr (s_fports s2) = ent - line_of ent \<and>
      out_data (s_fports s2) = take_bit (128 - 8 * unat (ent - line_of ent)) v"
    unfolding p2 using m1(5,7) s1(2)
    by (simp add: fetch_inputs_def fetch_work_def fetch_answer_def fetch_first_def Let_def line_of_eq take_bit_word_eq_self)
  then show ?thesis using s1(1) s2(1,3) idle1 by simp
qed

lemma first_line_idle:
  fixes ent brk bytes pt lga rc sp u
  defines "st \<equiv> system_start ent brk bytes pt lga rc sp u"
  assumes "tie_break (e_pick e)" and "0xffff < line_of ent" "line_of ent < mem_size"
    and "length os = 225" "\<forall>order \<in> set os. distinct order \<and> set order = set all_stages"
  shows "\<exists>s v. system_run e os 0 st = Some (Inr s) \<and>
    f_out_ready (s_fports s) \<and> out_addr (s_fports s) = line_of ent \<and> out_alignedaddr (s_fports s) = ent - line_of ent \<and>
    mem_i_read bytes (line_of ent) = Inr v \<and>
    out_data (s_fports s) = take_bit (128 - 8 * unat (ent - line_of ent)) v \<and> idle_back s"
    and "j < 225 \<Longrightarrow> \<exists>s. system_run e (take j os) 0 st = Some (Inr s) \<and> \<not> f_out_ready (s_fports s)"
proof -
  have "line_of ent mod 16 = 0" by (metis line_of_idem line_of_aligned)
  then obtain v where v: "mem_i_read bytes (line_of ent) = Inr v" by (auto simp: mem_i_read_def)
  obtain o0 os' where os: "os = o0 # os'" "length os' = 224" using assms(5) by (cases os) auto
  then have "length (drop 222 os') = 2" by simp
  then obtain o1 o2 where "drop 222 os' = [o1, o2]" by (cases "drop 222 os'"; cases "tl (drop 222 os')") auto
  then have w: "os' = take 222 os' @ [o1, o2]" by (metis append_take_drop_id)
  have orders: "distinct o0" "set o0 = set all_stages" "distinct o1" "set o1 = set all_stages" "distinct o2" "set o2 = set all_stages"
      "\<forall>order \<in> set (take 222 os'). distinct order \<and> set order = set all_stages"
    using assms(6) os(1) w by (auto dest: in_set_takeD) (metis Un_iff list.set_intros set_append)+
  obtain s0 where s0: "system_edge e o0 0 False st = Some (Inr s0)" "waiting ent bytes 0 s0"
    using start_waiting [OF orders(1,2)] unfolding st_def by blast
  have len: "length (take 222 os') = 222" using os(2) by simp
  obtain s1 where s1: "system_run e (take 222 os') 500 s0 = Some (Inr s1)" "waiting ent bytes 222 s1"
    using waiting_run [OF assms(2) s0(2) _ assms(3,4) orders(7)] len by auto
  obtain s2 where s2: "system_run e [o1, o2] 111500 s1 = Some (Inr s2)" and f: "f_out_ready (s_fports s2)"
     "out_addr (s_fports s2) = line_of ent" "out_alignedaddr (s_fports s2) = ent - line_of ent"
     "out_data (s_fports s2) = take_bit (128 - 8 * unat (ent - line_of ent)) v" "idle_back s2"
    and mid: "\<exists>s. system_run e [o1] 111500 s1 = Some (Inr s) \<and> idle_core s"
    using first_answer [OF assms(2) s1(2) v assms(3,4) orders(3-6)] by blast
  have "system_run e os' 500 s0 = Some (Inr s2)"
    by (subst w) (simp only: system_run_append s1(1) len option.case sum.case, simp only: s2 mult.commute, use s2 in simp)
  then have "system_run e os 0 st = Some (Inr s2)"
    by (simp add: os(1) s0(1))
  with f v show "\<exists>s v. system_run e os 0 st = Some (Inr s) \<and>
    f_out_ready (s_fports s) \<and> out_addr (s_fports s) = line_of ent \<and> out_alignedaddr (s_fports s) = ent - line_of ent \<and>
    mem_i_read bytes (line_of ent) = Inr v \<and>
    out_data (s_fports s) = take_bit (128 - 8 * unat (ent - line_of ent)) v \<and> idle_back s" by blast
  show "\<exists>s. system_run e (take j os) 0 st = Some (Inr s) \<and> \<not> f_out_ready (s_fports s)" if "j < 225"
  proof (cases j)
    case 0
    then show ?thesis by (simp add: st_def system_start_def)
  next
    case (Suc i)
    have "\<exists>s. system_run e (take i os') 500 s0 = Some (Inr s) \<and> idle_core s"
    proof (cases "i < 223")
      case True
      then have t: "take i os' = take i (take 222 os')" by (simp add: min_def)
      have o: "\<forall>order \<in> set (take i os'). distinct order \<and> set order = set all_stages"
        using orders(7) unfolding t by (blast dest: in_set_takeD)
      have "length (take i os') \<le> 222" using True by simp
      from waiting_run [OF assms(2) s0(2) this assms(3,4) o] show ?thesis unfolding waiting_def by blast
    next
      case False
      then have i: "i = 223" using that Suc by simp
      have "take i os' = take 222 os' @ [o1]" by (subst w) (simp add: i os(2))
      then show ?thesis using mid by (simp add: system_run_append s1(1) os(2))
    qed
    then show ?thesis by (auto simp: os(1) Suc s0(1) idle_core_def)
  qed
qed

text \<open>The program starts: whatever the order of the handlers, 225 clock edges after the reset the fetch stage
  delivers the line of the entry point, with the bytes before the entry cut off: one edge to ask, 223 to
  wait for the 111 ns of two cache misses and the memory, one to take the answer.\<close>

theorem first_line:
  assumes "tie_break (e_pick e)" and "0xffff < line_of ent" "line_of ent < mem_size"
    and "length os = 225" "\<forall>order \<in> set os. distinct order \<and> set order = set all_stages"
  shows "\<exists>s v. system_run e os 0 (system_start ent brk bytes pt lga rc sp u) = Some (Inr s) \<and>
    f_out_ready (s_fports s) \<and> out_addr (s_fports s) = line_of ent \<and> out_alignedaddr (s_fports s) = ent - line_of ent \<and>
    mem_i_read bytes (line_of ent) = Inr v \<and>
    out_data (s_fports s) = take_bit (128 - 8 * unat (ent - line_of ent)) v"
  using first_line_idle(1) [OF assms] by blast

theorem first_line_witness:
  "\<exists>s v. system_run sample_env (replicate 225 all_stages) 0 (system_start 0x10005 0 (\<lambda>_. 0x90) 0 0 False 0 (e_junk sample_env)) = Some (Inr s) \<and>
    f_out_ready (s_fports s) \<and> out_alignedaddr (s_fports s) = 5 \<and> mem_i_read (\<lambda>_. 0x90) 0x10000 = Inr v \<and>
    out_data (s_fports s) = take_bit 88 v"
proof -
  have l: "line_of 0x10005 = 0x10000" by (simp add: line_of_def)
  have "tie_break (e_pick sample_env)" using tie_break_first by (simp add: sample_env_def)
  from first_line [OF this, where ent = "0x10005" and os = "replicate 225 all_stages" and brk = "0" and
      bytes = "\<lambda>_. 0x90" and pt = "0" and lga = "0" and rc = "False" and sp = "0" and u = "e_junk sample_env"] show ?thesis
    by (auto simp: l mem_size_def all_stages_def)
qed

end
