(* ===== verification/CodeRun.thy ===== *)
theory CodeRun
  imports Isa CodeStream Boot
begin

text \<open>
  A program in memory on the wired simulator: fetch, the instruction cache, decode, dispatch, execute and
  writeback together execute the instructions whose bytes are in the memory, from the entry point on, as the
  machine of \<^verbatim>\<open>Isa\<close> does. The proof follows the stream of instructions through the stages: what is in
  the two queues continues what has executed, what decode has left over continues the queues, and what fetch waits
  for continues that; a jump that is taken restarts the stream at its target.

  The program is one of instructions of a single micro-operation on registers (\<open>simple_program\<close>). Decode skips
  leading zero characters at the entry point and behind a jump, so the first byte there must not be below
  \<^verbatim>\<open>0x10\<close>.
\<close>

subsection \<open>The program and its image\<close>

text \<open>A program, the bytes of the memory, the addresses at which instructions of the code start, the region of its
  bytes, and the entry point.\<close>

record code =
  c_prog :: "addr \<Rightarrow> uop"
  c_mem :: "addr \<Rightarrow> byte"
  c_starts :: "addr set"
  c_region :: "addr set"
  c_entry :: addr

text \<open>From a start on, the disassembler delivers the instructions of the program for any number of bytes of the
  region; an instruction that the end of the input cuts off is reported as invalid.\<close>

definition code_image :: "disassembler \<Rightarrow> uop \<Rightarrow> code \<Rightarrow> bool" where
  "code_image disasm junk C \<longleftrightarrow> (\<forall>a \<in> c_starts C. \<forall>n. (\<forall>i < n. a + word_of_nat i \<in> c_region C) \<longrightarrow>
     (\<exists>xs c. let k = sum_list (map fst xs) in
        delivers disasm (hex_text (code_bytes (c_mem C) a n)) 0 xs c \<and> k \<le> n \<and> (c \<or> k = n) \<and>
        a + word_of_nat k \<in> c_starts C \<and>
        (\<forall>((m, u), ad) \<in> set (zip xs (layout a (map fst xs))).
           m < 16 \<and> crack_pops u \<and> map (push2q junk (word_of_nat m) ad) (crack_insn u) = [c_prog C ad])))"

text \<open>Where the stream may start: at an instruction whose first byte is not taken for a leading zero. The machine
  is to start at such an address, and every address a jump leads to is to be one.\<close>

definition lands :: "code \<Rightarrow> addr \<Rightarrow> bool" where
  "lands C t \<longleftrightarrow> t \<in> c_starts C \<and> 16 \<le> unat (c_mem C t)"

definition stays_in_code :: "code \<Rightarrow> bool" where
  "stays_in_code C \<longleftrightarrow> lands C (c_entry C) \<and>
     (\<forall>n. is_jump (opcode (c_prog C (i_pc (isa_at (c_prog C) (c_entry C) n)))) \<longrightarrow>
          lands C (i_pc (isa_at (c_prog C) (c_entry C) (Suc n))))"

subsection \<open>Consecutive instructions\<close>

fun chain :: "(addr \<Rightarrow> uop) \<Rightarrow> addr \<Rightarrow> addr list \<Rightarrow> addr \<Rightarrow> bool" where
  "chain P a [] b \<longleftrightarrow> a = b"
| "chain P a (x # xs) b \<longleftrightarrow> x = a \<and> next_addr (P a) \<noteq> a \<and> chain P (next_addr (P a)) xs b"

lemma chain_append: "chain P a (xs @ ys) b \<longleftrightarrow> (\<exists>m. chain P a xs m \<and> chain P m ys b)"
  by (induction xs arbitrary: a) auto

lemma chain_distinct: "chain P a xs b \<Longrightarrow> distinct_adj xs"
proof (induction xs arbitrary: a)
  case (Cons x xs)
  then show ?case by (cases xs) auto
qed simp

lemma decoded_chain:
  assumes "delivers disasm s p xs c"
    and "\<forall>((m, u), ad) \<in> set (zip xs (layout a (map fst xs))).
           m < 16 \<and> crack_pops u \<and> map (push2q junk (word_of_nat m) ad) (crack_insn u) = [P ad]"
  shows "concat (map (\<lambda>((n, u), ad). map (push2q junk (word_of_nat n) ad) (crack_insn u)) (zip xs (layout a (map fst xs)))) =
      map P (layout a (map fst xs)) \<and> chain P a (layout a (map fst xs)) (a + word_of_nat (sum_list (map fst xs)))"
  using assms
proof (induction arbitrary: a)
  case (del_more p n u p' xs c)
  have u: "n < 16" "map (push2q junk (word_of_nat n) a) (crack_insn u) = [P a]" using del_more.prems by auto
  have IH: "concat (map (\<lambda>((n, u), ad). map (push2q junk (word_of_nat n) ad) (crack_insn u))
        (zip xs (layout (a + word_of_nat n) (map fst xs)))) = map P (layout (a + word_of_nat n) (map fst xs)) \<and>
      chain P (a + word_of_nat n) (layout (a + word_of_nat n) (map fst xs)) (a + word_of_nat n + word_of_nat (sum_list (map fst xs)))"
    by (rule del_more.IH) (use del_more.prems in auto)
  have "P a = push2q junk (word_of_nat n) a (hd (crack_insn u))" using u(2) by (cases "crack_insn u") auto
  moreover have "(signed (word_of_nat n :: cint) :: addr) = word_of_nat n"
  proof -
    have "sint (word_of_nat n :: cint) = int n"
      using u(1) by (simp add: sint_uint uint_nat unat_of_nat take_bit_nat_eq_self signed_take_bit_int_eq_self)
    then show ?thesis by (metis of_int_of_nat_eq of_int_sint)
  qed
  ultimately have nxt: "next_addr (P a) = a + word_of_nat n"
    by (simp add: next_addr_def push2q_def split: prod.split)
  moreover have "(word_of_nat n :: addr) \<noteq> 0"
    using u(1) del_more.hyps(2) by (simp add: word_of_nat_eq_0_iff dvd_imp_le nat_dvd_not_less)
  ultimately show ?case using IH u(2) by (simp add: add.assoc)
qed simp_all

lemma image_decodes:
  assumes "code_image disasm junk C" and "a \<in> c_starts C" and "\<forall>i < n. a + word_of_nat i \<in> c_region C" and "0 < n"
    and "decode_text i d (RIP_jump g) = (hex_text (code_bytes (c_mem C) a n), a, jump)" and "scratch_q d = []"
  shows "\<exists>as b k. decode_opcodes disasm junk i (d, g) = Some (Inr
      (d\<lparr>rem_string := hex_text (code_bytes (c_mem C) b (n - k)), first_run := False, last_good_addr := b, scratch_q := []\<rparr>,
       g\<lparr>dd_uop_queue := dd_uop_queue g @ map (c_prog C) as, RIP_jump := jump\<rparr>)) \<and>
    chain (c_prog C) a as b \<and> b \<in> c_starts C \<and> k \<le> n \<and> b = a + word_of_nat k \<and>
    (\<exists>xs c. delivers disasm (hex_text (code_bytes (c_mem C) a n)) 0 xs c \<and> length as = length xs)"
proof -
  obtain xs c where xs: "delivers disasm (hex_text (code_bytes (c_mem C) a n)) 0 xs c" "sum_list (map fst xs) \<le> n"
      "c \<or> sum_list (map fst xs) = n" "a + word_of_nat (sum_list (map fst xs)) \<in> c_starts C"
    and each: "\<forall>((m, u), ad) \<in> set (zip xs (layout a (map fst xs))).
           m < 16 \<and> crack_pops u \<and> map (push2q junk (word_of_nat m) ad) (crack_insn u) = [c_prog C ad]"
    using assms(1-3) unfolding code_image_def Let_def by blast
  have empty: "xs = [] \<longrightarrow> c" using xs(3) assms(4) by auto
  have pops: "\<forall>(m, u) \<in> set xs. crack_pops u"
  proof clarify
    fix m u assume "(m, u) \<in> set xs"
    then obtain j where j: "j < length xs" "xs ! j = (m, u)" by (auto simp: in_set_conv_nth)
    then have "((m, u), layout a (map fst xs) ! j) \<in> set (zip xs (layout a (map fst xs)))"
      by (auto simp: in_set_zip intro!: exI [of _ j])
    then show "crack_pops u" using each by auto
  qed
  have small: "\<forall>b \<in> set (code_bytes (c_mem C) a n). b < 256" by (auto dest: code_bytes_small)
  show ?thesis
    using decode_delivers [OF assms(5) small assms(6) xs(1) empty pops, of junk] decoded_chain [OF xs(1) each] xs(1,2,4)
    by (intro exI [of _ "layout a (map fst xs)"] exI [of _ "a + word_of_nat (sum_list (map fst xs))"]
        exI [of _ "sum_list (map fst xs)"]) (auto simp: drop_code_bytes)
qed

subsection \<open>Fetch\<close>

text \<open>Fetch is at \<open>t\<close>: it offers the line of \<open>t\<close>, from \<open>t\<close> on, or waits for it.\<close>

definition line_at :: "(addr \<Rightarrow> byte) \<Rightarrow> fetch_ports \<Rightarrow> addr \<Rightarrow> bool" where
  "line_at M p t \<longleftrightarrow> out_addr p = line_of t \<and> out_alignedaddr p = t mod 16 \<and>
     (\<exists>l. mem_i_read M (line_of t) = Inr l \<and> out_data p = take_bit (128 - 8 * unat (t mod 16)) l)"

definition front_at :: "(addr \<Rightarrow> byte) \<Rightarrow> fetch \<Rightarrow> fetch_ports \<Rightarrow> addr \<Rightarrow> bool" where
  "front_at M f p t \<longleftrightarrow> \<not> firstRunFlag f \<and> prev_tag f = RIP f \<and> i_op p = READ \<and> i_addr p = line_of (RIP f) \<and>
     (if f_out_ready p then line_at M p t \<and> RIP f = line_of t + 16 else RIP f = t)"

lemma fetch_answer_at:
  assumes "prev_tag f = t" and "f_i_ready i \<longrightarrow> mem_i_read M (signed (f_i_tagout i)) = Inr (f_i_data i)"
    and "fetch_answer (line_of t) i (f, p, g) = (f', p', g')" and "\<not> firstRunFlag f" "RIP f = t" "\<not> f_out_ready p"
    and "i_op p = READ" "i_addr p = line_of t"
  shows "front_at M f' p' t \<and> g' = g"
proof (cases "f_i_ready i \<and> signed (f_i_tagout i) = line_of t")
  case True
  then have l: "mem_i_read M (line_of t) = Inr (f_i_data i)" using assms(2) by metis
  have off: "t - line_of t = t mod 16" by (rule line_of_offset)
  have "(if t \<noteq> line_of t then take_bit (128 - 8 * unat (t - line_of t)) (f_i_data i) else f_i_data i) =
      take_bit (128 - 8 * unat (t mod 16)) (f_i_data i)"
  proof (cases "t = line_of t")
    case True
    then have "t mod 16 = 0" by (simp only: line_of_aligned)
    then have "unat (t mod 16) = 0" by (simp only: unsigned_0)
    then show ?thesis using True by (simp only: if_False simp_thms) (simp add: take_bit_word_eq_self)
  qed (simp add: off)
  then show ?thesis
    using assms(3,4) True l off fetch_answer_hit [of i f "line_of t" p g]
    by (auto simp: assms(1) front_at_def line_at_def line_of_next)
next
  case False
  then have "fetch_answer (line_of t) i (f, p, g) = (f, p, g)"
    unfolding fetch_answer_def Let_def split_conv assms(1) line_of_eq [symmetric] by auto
  then show ?thesis using assms(1,3-8) by (simp add: front_at_def)
qed

lemma fetch_stays:
  assumes "fetch_work i (f, p, g) = (f', p', g')" and "\<not> f_reset i" "\<not> f_clear i" "\<not> f_change_RIP i"
    and "f_i_ready i \<longrightarrow> mem_i_read M (signed (f_i_tagout i)) = Inr (f_i_data i)" and "front_at M f p t"
  shows "front_at M f' p' (if f_out_ready p then line_of t + 16 else t) \<and> g' = g"
proof -
  let ?t = "if f_out_ready p then line_of t + 16 else t"
  have at: "prev_tag f = ?t" "RIP f = ?t" "\<not> firstRunFlag f" "i_op p = READ" "i_addr p = line_of ?t"
    using assms(6) by (auto simp: front_at_def split: if_splits)
  let ?f = "f\<lparr>fetch_cycles := fetch_cycles f + 1\<rparr>" and ?p = "p\<lparr>f_out_ready := False\<rparr>"
  obtain f1 p1 g1 where a: "fetch_answer (line_of ?t) i (?f, ?p, g) = (f1, p1, g1)" by (metis prod_cases3)
  have r: "front_at M f1 p1 ?t \<and> g1 = g" by (rule fetch_answer_at [OF _ assms(5) a]) (use at in simp_all)
  then have "\<not> firstRunFlag f1" by (simp add: front_at_def)
  then have "(f', p', g') = (f1, p1, g1)"
    using assms(1) a unfolding fetch_work_plain [OF assms(2-4)] at(2) by (simp add: fetch_first_def)
  then show ?thesis using r by simp
qed

lemma fetch_starts:
  assumes "fetch_work i (f, p, g) = (f', p', g')" and "\<not> f_reset i" "\<not> f_clear i" "\<not> f_change_RIP i"
    and "\<not> f_i_ready i" and "firstRunFlag f"
  shows "front_at M f' p' (RIP f) \<and> RIP_jump g' = RIP_jump g"
  using assms(1,5,6) unfolding fetch_work_plain [OF assms(2-4)]
  by (auto simp: fetch_answer_def fetch_first_def front_at_def set_rsp_def)

lemma fetch_restarts:
  assumes "fetch_work i (f, p, g) = (f', p', g')" and "\<not> f_reset i" "f_clear i" "f_change_RIP i" and "\<not> firstRunFlag f"
  shows "front_at M f' p' (f_new_RIP i) \<and> RIP_jump g'"
  using assms by (auto simp: fetch_work_def fetch_clear_def fetch_redirect_def front_at_def Let_def)

subsection \<open>The stream through the stages\<close>

text \<open>The address that is to be executed next, after the instructions that have been executed.\<close>

definition position :: "code \<Rightarrow> addr list \<Rightarrow> system \<Rightarrow> addr" where
  "position C rs s = i_pc (isa_at (c_prog C) (c_entry C) (length rs + length (ew_uop_queue (s_glob s))))"

definition restarting :: "system \<Rightarrow> bool" where
  "restarting s \<longleftrightarrow> RIP_jump (s_glob s) \<or> first_run (s_dec s)"

text \<open>The stages from decode on have done what the machine does, and touch no data.\<close>

definition follows_isa :: "code \<Rightarrow> addr list \<Rightarrow> system \<Rightarrow> bool" where
  "follows_isa C rs s \<longleftrightarrow> isa_inv (c_prog C) (c_entry C) rs (s_ex s) (s_glob s) \<and>
     (\<exists>ds. fed (c_prog C) (pipe_of s ds rs)) \<and> d_op (s_xports s) = NONE"

text \<open>The queues continue what has been executed, unless nothing has been decoded since the start or a jump, or a
  jump has just been taken.\<close>

definition queues_ok :: "code \<Rightarrow> addr list \<Rightarrow> system \<Rightarrow> bool" where
  "queues_ok C rs s \<longleftrightarrow> follows_isa C rs s \<and>
     (if restarting s
      then dd_uop_queue (s_glob s) = [] \<and> de_uop_queue (s_glob s) = [] \<and> \<not> clear_out (s_xports s) \<and>
        lands C (position C rs s)
      else last_good_addr (s_dec s) \<in> c_starts C \<and>
        (\<exists>a. chain (c_prog C) a (map address (dd_uop_queue (s_glob s))) (last_good_addr (s_dec s))) \<and>
        (if clear_out (s_xports s)
         then change_RIP (s_xports s) \<and> new_RIP (s_xports s) = position C rs s \<and> lands C (position C rs s)
         else chain (c_prog C) (position C rs s)
           (map address (de_uop_queue (s_glob s) @ dd_uop_queue (s_glob s))) (last_good_addr (s_dec s))))"

text \<open>What decode has left over continues the queues; \<open>t\<close> is where the next line is to continue.\<close>

definition decode_at :: "code \<Rightarrow> addr list \<Rightarrow> system \<Rightarrow> addr \<Rightarrow> bool" where
  "decode_at C rs s t \<longleftrightarrow> scratch_q (s_dec s) = [] \<and>
     (first_run (s_dec s) \<longrightarrow> rem_string (s_dec s) = [] \<and> \<not> RIP_jump (s_glob s)) \<and>
     (if restarting s then t = position C rs s
      else t mod 16 = 0 \<and> (\<exists>r. rem_string (s_dec s) = hex_text (code_bytes (c_mem C) (last_good_addr (s_dec s)) r) \<and>
        (\<forall>i < r. last_good_addr (s_dec s) + word_of_nat i \<in> c_region C) \<and>
        t = last_good_addr (s_dec s) + word_of_nat r))"

text \<open>Nothing but lines of instructions is asked for.\<close>

definition lines_only :: "memory \<Rightarrow> bool" where
  "lines_only m \<longleftrightarrow> d_resp m = [] \<and> (\<forall>r \<in> set (i_resp m). line_of (snd (snd r)) = snd (snd r))"

definition mem_ok :: "(addr \<Rightarrow> byte) \<Rightarrow> memory \<Rightarrow> bool" where
  "mem_ok M m \<longleftrightarrow> mem m = M \<and> lines_only m \<and> (mi_ready m \<longrightarrow> mem_i_read M (signed (mi_tagout m)) = Inr (mi_data m))"

text \<open>The parts that the two depend on.\<close>

lemma position_cong: "length rs + length (ew_uop_queue (s_glob s)) = length rs' + length (ew_uop_queue (s_glob s')) \<Longrightarrow>
    position C rs s = position C rs' s'"
  by (simp add: position_def)

lemma decode_at_cong:
  "decode_at C rs s t \<Longrightarrow> s_dec s' = s_dec s \<Longrightarrow> RIP_jump (s_glob s') = RIP_jump (s_glob s) \<Longrightarrow>
   restarting s \<longrightarrow> position C rs' s' = position C rs s \<Longrightarrow> decode_at C rs' s' t"
  by (auto simp: decode_at_def restarting_def)

subsection \<open>Decode\<close>

lemma line_at_decode:
  assumes "line_at M (s_fports old) t"
  shows "map (line_byte (in_data (decoder_inputs rst old))) [0..<16] =
     replicate (unat (t mod 16)) 0 @ code_bytes M t (16 - unat (t mod 16))"
    and "in_addr (decoder_inputs rst old) + in_alignedaddr (decoder_inputs rst old) = t"
proof -
  obtain l where l: "mem_i_read M (line_of t) = Inr l" "out_data (s_fports old) = take_bit (128 - 8 * unat (t mod 16)) l"
    using assms by (auto simp: line_at_def)
  show "map (line_byte (in_data (decoder_inputs rst old))) [0..<16] =
     replicate (unat (t mod 16)) 0 @ code_bytes M t (16 - unat (t mod 16))"
    using line_prefix_bytes [OF l(1) refl] l(2) by (simp add: decoder_inputs_def)
  have "line_of t + t mod 16 = t" using line_of_offset [of t] by (simp add: algebra_simps)
  then show "in_addr (decoder_inputs rst old) + in_alignedaddr (decoder_inputs rst old) = t"
    using assms by (simp add: decoder_inputs_def line_at_def)
qed

lemma line_split: "line_of t + word_of_nat (unat (t mod 16)) = t"
  using line_of_offset [of t] by (simp add: algebra_simps)

lemma line_region:
  assumes "\<forall>i < 16. line_of t + word_of_nat i \<in> R" and "i < 16 - unat (t mod 16)"
  shows "t + word_of_nat i \<in> R"
proof -
  have "t + word_of_nat i = line_of t + (word_of_nat (unat (t mod 16)) + word_of_nat i)"
    by (simp only: add.assoc [symmetric] line_split)
  also have "\<dots> = line_of t + word_of_nat (unat (t mod 16) + i)" by (simp only: of_nat_add)
  finally have "t + word_of_nat i = line_of t + word_of_nat (unat (t mod 16) + i)" .
  moreover have "unat (t mod 16) + i < 16" using assms(2) by simp
  then have "line_of t + word_of_nat (unat (t mod 16) + i) \<in> R" using assms(1) by blast
  ultimately show ?thesis by (simp only:)
qed

lemma line_end: "t + word_of_nat (16 - unat (t mod 16)) = line_of t + 16"
proof -
  have j: "unat (t mod 16) < 16" using offset_less [of t] by (simp add: line_of_offset)
  have "t + word_of_nat (16 - unat (t mod 16)) =
      line_of t + (word_of_nat (unat (t mod 16)) + word_of_nat (16 - unat (t mod 16)))"
    by (simp only: add.assoc [symmetric] line_split)
  also have "(word_of_nat (unat (t mod 16)) + word_of_nat (16 - unat (t mod 16)) :: addr) = word_of_nat 16"
    using j by (simp only: of_nat_add [symmetric]) simp
  finally show ?thesis by simp
qed

lemma mod_16_line: "(line_of t + 16) mod 16 = 0"
  by (simp only: line_of_aligned line_of_next)

text \<open>A line is decoded: its instructions are appended, and the rest is left over.\<close>

text \<open>The text that decode hands to the disassembler: the \<open>n\<close> bytes from the start \<open>a\<close> to the end of the line.\<close>

definition hands_over :: "code \<Rightarrow> system \<Rightarrow> decoder_in \<Rightarrow> addr \<Rightarrow> addr \<Rightarrow> nat \<Rightarrow> bool" where
  "hands_over C s i t a n \<longleftrightarrow> a \<in> c_starts C \<and> (\<forall>i < n. a + word_of_nat i \<in> c_region C) \<and> 0 < n \<and>
     decode_text i (s_dec s) (RIP_jump (s_glob s)) = (hex_text (code_bytes (c_mem C) a n), a, False) \<and>
     a + word_of_nat n = line_of t + 16"

lemma first_text:
  assumes "line_at (c_mem C) (s_fports old) t" and "\<forall>i < 16. line_of t + word_of_nat i \<in> c_region C"
    and "decode_at C rs s t" and "lands C t" and "restarting s"
  shows "hands_over C s (decoder_inputs rst old) t t (16 - unat (t mod 16))"
proof -
  let ?i = "decoder_inputs rst old" and ?d = "s_dec s" and ?g = "s_glob s"
  note line = line_at_decode [OF assms(1), of rst]
  have j: "unat (t mod 16) < 16" using offset_less [of t] by (simp add: line_of_offset)
  let ?n = "16 - unat (t mod 16)"
  have n: "?n = Suc (15 - unat (t mod 16))" using j by simp
  have bytes: "code_bytes (c_mem C) t ?n = unat (c_mem C t) # code_bytes (c_mem C) (t + 1) (15 - unat (t mod 16))"
    unfolding n using code_bytes_append [of "c_mem C" t 1 "15 - unat (t mod 16)"] by (simp add: code_bytes_def)
  have first: "16 \<le> unat (c_mem C t)" "t \<in> c_starts C" using assms(4) by (simp_all add: lands_def)
  have flags: "if RIP_jump ?g then \<not> first_run ?d else first_run ?d \<and> rem_string ?d = []"
    using assms(3,5) by (auto simp: decode_at_def restarting_def)
  have "unat (c_mem C t) < 256" using unsigned_less [of "c_mem C t"] by simp
  from text_first_line [OF line(1) [unfolded bytes] first(1) this flags]
  have dt: "decode_text ?i ?d (RIP_jump ?g) = (hex_text (code_bytes (c_mem C) t ?n), t, False)"
    by (simp only: bytes line(2))
  have region: "\<forall>i < ?n. t + word_of_nat i \<in> c_region C" using line_region [OF assms(2)] by blast
  show ?thesis unfolding hands_over_def by (intro conjI first(2) region dt line_end) (use j in simp)
qed

lemma next_text:
  assumes "line_at (c_mem C) (s_fports old) t" and "\<forall>i < 16. line_of t + word_of_nat i \<in> c_region C"
    and "decode_at C rs s t" and "last_good_addr (s_dec s) \<in> c_starts C" and "\<not> restarting s"
  shows "\<exists>n \<ge> 16. hands_over C s (decoder_inputs rst old) t (last_good_addr (s_dec s)) n"
proof -
  let ?i = "decoder_inputs rst old" and ?d = "s_dec s" and ?g = "s_glob s"
  note line = line_at_decode [OF assms(1), of rst]
  obtain r where r: "rem_string ?d = hex_text (code_bytes (c_mem C) (last_good_addr ?d) r)"
      "\<forall>i < r. last_good_addr ?d + word_of_nat i \<in> c_region C" "t = last_good_addr ?d + word_of_nat r" "t mod 16 = 0"
    using assms(3) unfolding decode_at_def if_not_P [OF assms(5)] by (elim conjE exE) (rule that; assumption)
  let ?n = "r + 16"
  have z: "unat (t mod 16) = 0" by (simp only: r(4) unsigned_0)
  have "map (line_byte (in_data ?i)) [0..<16] = code_bytes (c_mem C) t 16" using line(1) by (simp only: z) simp
  moreover have "in_alignedaddr ?i = 0" using assms(1) r(4) by (simp only: decoder_inputs_def decoder_in.simps line_at_def)
  moreover have "\<not> first_run ?d" "\<not> RIP_jump ?g" using assms(5) by (simp_all add: restarting_def)
  ultimately have dt: "decode_text ?i ?d (RIP_jump ?g) = (hex_text (code_bytes (c_mem C) (last_good_addr ?d) ?n), last_good_addr ?d, False)"
    using text_next_line [of ?d ?i, OF _ _ r(1)] by (simp add: code_bytes_append r(3))
  have region: "last_good_addr ?d + word_of_nat i \<in> c_region C" if "i < ?n" for i
  proof (cases "i < r")
    case False
    have "t + word_of_nat (i - r) \<in> c_region C" using line_region [OF assms(2), of "i - r"] False that by (simp add: z)
    then show ?thesis using False by (simp add: r(3) add.assoc)
  qed (use r(2) in simp)
  have "line_of t = t" using r(4) by (simp only: line_of_aligned)
  then have "last_good_addr ?d + word_of_nat ?n = line_of t + 16" by (simp add: r(3) add.assoc)
  then show ?thesis unfolding hands_over_def using region dt assms(4) by (intro exI [of _ ?n]) simp
qed

lemma decode_line:
  assumes "code_image disasm junk C" and "line_at (c_mem C) (s_fports old) t"
    and "\<forall>i < 16. line_of t + word_of_nat i \<in> c_region C"
    and "decode_at C rs s t" and "restarting s \<longrightarrow> lands C t" and "\<not> restarting s \<longrightarrow> last_good_addr (s_dec s) \<in> c_starts C"
  shows "\<exists>as r. let b = line_of t + 16 - word_of_nat r in
    decode_opcodes disasm junk (decoder_inputs rst old) (s_dec s, s_glob s) = Some (Inr
      ((s_dec s)\<lparr>rem_string := hex_text (code_bytes (c_mem C) b r), first_run := False, last_good_addr := b, scratch_q := []\<rparr>,
       (s_glob s)\<lparr>dd_uop_queue := dd_uop_queue (s_glob s) @ map (c_prog C) as, RIP_jump := False\<rparr>)) \<and>
    chain (c_prog C) (if restarting s then t else last_good_addr (s_dec s)) as b \<and> b \<in> c_starts C \<and>
    (\<forall>i < r. b + word_of_nat i \<in> c_region C) \<and>
    (restarting s \<longrightarrow> (\<exists>xs c. delivers disasm (hex_text (code_bytes (c_mem C) t (16 - unat (t mod 16)))) 0 xs c \<and>
       length as = length xs))"
proof -
  let ?i = "decoder_inputs rst old" and ?d = "s_dec s" and ?g = "s_glob s"
  obtain a n where h: "hands_over C s ?i t a n" and a: "a = (if restarting s then t else last_good_addr ?d)"
      "restarting s \<longrightarrow> n = 16 - unat (t mod 16)"
    using first_text [OF assms(2,3,4), of rst] next_text [OF assms(2,3,4), of rst] assms(5,6)
    by (cases "restarting s") auto
  have hands: "a \<in> c_starts C" "\<forall>i < n. a + word_of_nat i \<in> c_region C" "0 < n"
      "decode_text ?i ?d (RIP_jump ?g) = (hex_text (code_bytes (c_mem C) a n), a, False)" "line_of t + 16 = a + word_of_nat n"
    using h unfolding hands_over_def by simp_all
  have q: "scratch_q ?d = []" using assms(4) by (simp add: decode_at_def)
  obtain as b k where k: "decode_opcodes disasm junk ?i (?d, ?g) = Some (Inr
      (?d\<lparr>rem_string := hex_text (code_bytes (c_mem C) b (n - k)), first_run := False, last_good_addr := b, scratch_q := []\<rparr>,
       ?g\<lparr>dd_uop_queue := dd_uop_queue ?g @ map (c_prog C) as, RIP_jump := False\<rparr>))"
      "chain (c_prog C) a as b" "b \<in> c_starts C" "k \<le> n" "b = a + word_of_nat k"
    and xs: "\<exists>xs c. delivers disasm (hex_text (code_bytes (c_mem C) a n)) 0 xs c \<and> length as = length xs"
    using image_decodes [OF assms(1) hands(1-4) q] by blast
  have "b = line_of t + 16 - word_of_nat (n - k)"
    using k(4,5) unfolding hands(5) by (simp add: of_nat_diff)
  moreover have "b + word_of_nat i \<in> c_region C" if "i < n - k" for i
    using hands(2) [rule_format, of "k + i"] that by (simp add: k(5) add.assoc)
  moreover have "restarting s \<longrightarrow> (\<exists>xs c. delivers disasm (hex_text (code_bytes (c_mem C) t (16 - unat (t mod 16)))) 0 xs c \<and>
      length as = length xs)"
    using xs a by metis
  ultimately show ?thesis using k(1-3) a(1) by (intro exI [of _ as] exI [of _ "n - k"]) (simp add: Let_def)
qed

text \<open>The handler of decode, on an edge without a clear.\<close>

lemma simple_address [simp]: "simple_program P \<Longrightarrow> address (P a) = a"
  by (simp add: simple_program_def)

lemma decoded_continues:
  assumes "queues_ok C rs s" and "decode_at C rs s t"
    and "chain (c_prog C) (if restarting s then t else last_good_addr (s_dec s)) as b"
  shows "\<exists>a. chain (c_prog C) a (map address (dd_uop_queue (s_glob s)) @ as) b"
    and "\<not> clear_out (s_xports s) \<Longrightarrow>
      chain (c_prog C) (position C rs s) (map address (de_uop_queue (s_glob s) @ dd_uop_queue (s_glob s)) @ as) b"
    and "clear_out (s_xports s) \<Longrightarrow>
      change_RIP (s_xports s) \<and> new_RIP (s_xports s) = position C rs s \<and> lands C (position C rs s)"
proof -
  show "\<exists>a. chain (c_prog C) a (map address (dd_uop_queue (s_glob s)) @ as) b"
    using assms(1,3) by (cases "restarting s") (auto simp: queues_ok_def chain_append)
  show "chain (c_prog C) (position C rs s) (map address (de_uop_queue (s_glob s) @ dd_uop_queue (s_glob s)) @ as) b"
    if "\<not> clear_out (s_xports s)"
  proof (cases "restarting s")
    case True
    then show ?thesis using assms by (simp add: queues_ok_def decode_at_def)
  next
    case False
    then show ?thesis using assms(1,3) that by (simp only: queues_ok_def if_False chain_append) blast
  qed
  show "change_RIP (s_xports s) \<and> new_RIP (s_xports s) = position C rs s \<and> lands C (position C rs s)" if "clear_out (s_xports s)"
    using assms(1) that by (auto simp: queues_ok_def split: if_splits)
qed

lemma follows_isa_decode:
  assumes "simple_program (c_prog C)" and "follows_isa C rs s" and "distinct_adj (map address (dd_uop_queue (s_glob s)) @ as)"
  shows "follows_isa C rs (s\<lparr>s_dec := d, s_glob := (s_glob s)\<lparr>dd_uop_queue := dd_uop_queue (s_glob s) @ map (c_prog C) as, RIP_jump := b\<rparr>\<rparr>)"
proof -
  let ?us = "map (c_prog C) as"
  have own: "\<forall>u \<in> set ?us. u = c_prog C (address u)" and addrs: "map address ?us = as"
    using assms(1) by (simp_all add: o_def)
  have dist: "distinct_adj (map address (dd_uop_queue (s_glob s) @ ?us))" using assms(3) addrs by (metis map_append)
  obtain ds where "fed (c_prog C) (pipe_of s ds rs)" using assms(2) by (auto simp: follows_isa_def)
  from fed_decode [OF this own, of b] dist isa_inv_decode [OF _ own dist, of "c_entry C" rs "s_ex s" b] assms(2)
  show ?thesis by (auto simp: follows_isa_def pipe_of_def)
qed

lemma decode_stage:
  assumes "code_image (e_disasm e) (e_junk e) C" and "simple_program (c_prog C)"
    and "queues_ok C rs s" and "decode_at C rs s t" and "\<not> clear_out (s_xports old)"
    and "f_out_ready (s_fports old) \<longrightarrow> line_at (c_mem C) (s_fports old) t \<and> (\<forall>i < 16. line_of t + word_of_nat i \<in> c_region C)"
    and "stage_work e k False old At_decode s = Some (Inr s')"
  shows "queues_ok C rs s' \<and> decode_at C rs s' (if f_out_ready (s_fports old) then line_of t + 16 else t) \<and>
    s_xports s' = s_xports s \<and> (restarting s' \<longrightarrow> restarting s) \<and> position C rs s' = position C rs s"
proof (cases "f_out_ready (s_fports old)")
  case False
  then have "s' = s" using assms(7) by (simp add: stage_work_def decoder_work_def decoder_inputs_def)
  then show ?thesis using assms(3,4) False by simp
next
  case True
  let ?P = "c_prog C" and ?g = "s_glob s"
  have line: "line_at (c_mem C) (s_fports old) t" "\<forall>i < 16. line_of t + word_of_nat i \<in> c_region C"
    using assms(6) True by simp_all
  have start: "restarting s \<longrightarrow> lands C t" "\<not> restarting s \<longrightarrow> last_good_addr (s_dec s) \<in> c_starts C"
    using assms(3,4) by (auto simp: queues_ok_def decode_at_def)
  obtain as r b where b: "b = line_of t + 16 - word_of_nat r"
    and d: "decode_opcodes (e_disasm e) (e_junk e) (decoder_inputs False old) (s_dec s, ?g) = Some (Inr
      ((s_dec s)\<lparr>rem_string := hex_text (code_bytes (c_mem C) b r), first_run := False, last_good_addr := b, scratch_q := []\<rparr>,
       ?g\<lparr>dd_uop_queue := dd_uop_queue ?g @ map ?P as, RIP_jump := False\<rparr>))"
    and as: "chain ?P (if restarting s then t else last_good_addr (s_dec s)) as b" "b \<in> c_starts C"
      "\<forall>i < r. b + word_of_nat i \<in> c_region C"
    using decode_line [OF assms(1) line assms(4) start, of False] unfolding Let_def by blast
  have s': "s' = s\<lparr>s_dec := (s_dec s)\<lparr>rem_string := hex_text (code_bytes (c_mem C) b r), first_run := False,
        last_good_addr := b, scratch_q := [], dec_out_ready := True\<rparr>,
      s_glob := ?g\<lparr>dd_uop_queue := dd_uop_queue ?g @ map ?P as, RIP_jump := False\<rparr>\<rparr>"
    using assms(5,7) d True by (simp add: stage_work_def decoder_work_def decoder_inputs_def)
  have addrs: "map address (map ?P as) = as" using assms(2) by (simp add: o_def)
  have pos: "position C rs s' = position C rs s" by (simp add: position_def s')
  note cont = decoded_continues [OF assms(3,4) as(1)]
  have "distinct_adj (map address (dd_uop_queue ?g) @ as)" using cont(1) chain_distinct by metis
  then have "follows_isa C rs s'"
    using follows_isa_decode [OF assms(2)] assms(3) unfolding s' queues_ok_def by blast
  moreover have "\<not> restarting s'" by (simp add: restarting_def s')
  moreover have "(line_of t + 16) mod 16 = 0" by (rule mod_16_line)
  ultimately show ?thesis
    unfolding queues_ok_def decode_at_def pos using True cont as(2,3) addrs b
    by (simp add: s' if_not_P) (metis add.commute diff_add_cancel)
qed

subsection \<open>Dispatch, writeback and fetch\<close>

lemma fetch_stage_follows:
  assumes "follows_isa C rs s" and "stage_work e k False old At_fetch s = Some (Inr s')"
  shows "follows_isa C rs s' \<and> position C rs s' = position C rs s \<and> s_dec s' = s_dec s \<and> s_xports s' = s_xports s \<and>
    s_mem s' = s_mem s \<and> dd_uop_queue (s_glob s') = dd_uop_queue (s_glob s) \<and> de_uop_queue (s_glob s') = de_uop_queue (s_glob s) \<and>
    fetch_work (fetch_inputs False old) (s_fetch s, s_fports s, s_glob s) = (s_fetch s', s_fports s', s_glob s')"
proof -
  obtain f p g where w: "fetch_work (fetch_inputs False old) (s_fetch s, s_fports s, s_glob s) = (f, p, g)"
    by (metis prod_cases3)
  then have s': "s' = s\<lparr>s_fetch := f, s_fports := p, s_glob := g\<rparr>" using assms(2) by (simp add: stage_work_def)
  obtain v b where g: "g = (s_glob s)\<lparr>regfile := (regfile (s_glob s))\<lparr>rsp := v\<rparr>, RIP_jump := b\<rparr>"
    using fetch_work_frame [OF w] by blast
  obtain ds where "fed (c_prog C) (pipe_of s ds rs)" using assms(1) by (auto simp: follows_isa_def)
  from fed_fetch [OF this, of b v] have "fed (c_prog C) (pipe_of s' ds rs)" by (simp add: pipe_of_def s' g)
  moreover have "isa_inv (c_prog C) (c_entry C) rs (s_ex s') (s_glob s')"
    using isa_inv_fetch assms(1) by (simp add: follows_isa_def s' g)
  ultimately show ?thesis using assms(1) w by (auto simp: follows_isa_def s' position_def g)
qed

lemma dispatch_stage_follows:
  assumes "follows_isa C rs s" and "stage_work e k False old At_dispatch s = Some (Inr s')"
  shows "follows_isa C rs s' \<and> position C rs s' = position C rs s \<and> s_dec s' = s_dec s \<and> s_xports s' = s_xports s \<and>
    s_fetch s' = s_fetch s \<and> s_fports s' = s_fports s \<and> s_mem s' = s_mem s \<and> RIP_jump (s_glob s') = RIP_jump (s_glob s) \<and>
    (if clear_out (s_xports old) then dd_uop_queue (s_glob s') = [] \<and> de_uop_queue (s_glob s') = de_uop_queue (s_glob s)
     else map address (de_uop_queue (s_glob s') @ dd_uop_queue (s_glob s')) = map address (de_uop_queue (s_glob s) @ dd_uop_queue (s_glob s)) \<and>
       (dd_uop_queue (s_glob s') = dd_uop_queue (s_glob s) \<or> dd_uop_queue (s_glob s') = tl (dd_uop_queue (s_glob s))))"
proof -
  let ?g = "s_glob s" and ?clr = "clear_out (s_xports old)" and ?rdy = "dec_out_ready (s_dec old)"
  obtain d g where w: "dispatch_work False ?clr ?rdy (s_disp s) ?g = (d, g)" by (metis surj_pair)
  then have s': "s' = s\<lparr>s_disp := d, s_glob := g\<rparr>" using assms(2) by (simp add: stage_work_def)
  obtain ds where "fed (c_prog C) (pipe_of s ds rs)" using assms(1) by (auto simp: follows_isa_def)
  from fed_dispatch [OF this, of ?clr ?rdy d g] w have "fed (c_prog C) (pipe_of s' ds rs)" by (simp add: pipe_of_def s')
  moreover have inv: "isa_inv (c_prog C) (c_entry C) rs (s_ex s) ?g" using assms(1) by (simp add: follows_isa_def)
  from isa_inv_dispatch [OF this w] have "isa_inv (c_prog C) (c_entry C) rs (s_ex s') (s_glob s')" by (simp add: s')
  ultimately have f: "follows_isa C rs s'" using assms(1) by (auto simp: follows_isa_def s')
  have "ew_uop_queue g = ew_uop_queue ?g \<and> RIP_jump g = RIP_jump ?g \<and>
    (if ?clr then dd_uop_queue g = [] \<and> de_uop_queue g = de_uop_queue ?g
     else map address (de_uop_queue g @ dd_uop_queue g) = map address (de_uop_queue ?g @ dd_uop_queue ?g) \<and>
       (dd_uop_queue g = dd_uop_queue ?g \<or> dd_uop_queue g = tl (dd_uop_queue ?g)))"
  proof (cases "\<not> ?clr \<and> ?rdy \<and> dd_uop_queue ?g \<noteq> [] \<and> de_uop_queue ?g = []")
    case True
    then obtain u us where q: "dd_uop_queue ?g = u # us" by (cases "dd_uop_queue ?g") auto
    have "dispatch_batch (u # us) = 1" using inv q by (intro one_instruction) (simp add: isa_inv_def Let_def)
    then show ?thesis using w True q dispatch_loop_batch [of ?g] by (auto simp: dispatch_work_def Let_def)
  next
    case False
    then show ?thesis using w by (auto simp: dispatch_work_def Let_def split: if_splits)
  qed
  then show ?thesis using f by (simp add: s' position_def del: map_append)
qed

text \<open>The addresses of the micro-operations that a handler retires.\<close>

definition retired_by :: "stage \<Rightarrow> system \<Rightarrow> system \<Rightarrow> addr list" where
  "retired_by st s s' = (if st = At_writeback
     then map address (take (length (ew_uop_queue (s_glob s)) - length (ew_uop_queue (s_glob s'))) (ew_uop_queue (s_glob s)))
     else [])"

lemma retired_by_other [simp]: "st \<noteq> At_writeback \<Longrightarrow> retired_by st s s' = []"
  by (simp add: retired_by_def)

lemma writeback_stage_follows:
  fixes rs s s'
  defines "rs' \<equiv> rs @ retired_by At_writeback s s'"
  assumes "follows_isa C rs s" and "stage_work e k False old At_writeback s = Some (Inr s')"
  shows "follows_isa C rs' s' \<and> position C rs' s' = position C rs s \<and> s_dec s' = s_dec s \<and> s_xports s' = s_xports s \<and>
    s_fetch s' = s_fetch s \<and> s_fports s' = s_fports s \<and> s_mem s' = s_mem s \<and> RIP_jump (s_glob s') = RIP_jump (s_glob s) \<and>
    dd_uop_queue (s_glob s') = dd_uop_queue (s_glob s) \<and> de_uop_queue (s_glob s') = de_uop_queue (s_glob s)"
proof -
  let ?g = "s_glob s" and ?rdy = "out_ready (s_xports old)"
  obtain w g where w: "writeback_work False ?rdy (s_wb s) ?g = (w, g)" by (metis surj_pair)
  then have s': "s' = s\<lparr>s_wb := w, s_glob := g\<rparr>" using assms(3) by (simp add: stage_work_def)
  have rs': "rs' = rs @ map address (take (length (ew_uop_queue ?g) - length (ew_uop_queue g)) (ew_uop_queue ?g))"
    by (simp add: rs'_def retired_by_def s')
  obtain ds where "fed (c_prog C) (pipe_of s ds rs)" using assms(2) by (auto simp: follows_isa_def)
  from fed_writeback [OF this, of ?rdy w g] w have "fed (c_prog C) (pipe_of s' ds rs')" by (simp add: pipe_of_def s' rs')
  moreover have "isa_inv (c_prog C) (c_entry C) rs (s_ex s) ?g" using assms(2) by (simp add: follows_isa_def)
  from isa_inv_writeback [OF this w] have "isa_inv (c_prog C) (c_entry C) rs' (s_ex s') (s_glob s')" by (simp add: s' rs')
  ultimately have f: "follows_isa C rs' s'" using assms(2) by (auto simp: follows_isa_def s')
  have g: "dd_uop_queue g = dd_uop_queue ?g" "de_uop_queue g = de_uop_queue ?g" "RIP_jump g = RIP_jump ?g"
    "length (ew_uop_queue g) \<le> length (ew_uop_queue ?g)"
    using w by (auto simp: writeback_work_def Let_def split: if_splits list.splits)
  then have "position C rs' s' = position C rs s" by (simp add: position_def s' rs')
  then show ?thesis using f g by (simp add: s')
qed

subsection \<open>Execute\<close>

lemma executes_position:
  assumes "isa_inv P pc rs x g"
  shows "ex_state x = STATE_NORMAL" and "length (de_uop_queue g) \<le> 1"
    and "firstrun x \<or> expected_addr x = i_pc (isa_at P pc (length rs + length (ew_uop_queue g)))"
  using assms by (auto simp: isa_inv_def Let_def executed_def)

lemma execute_stage_follows:
  assumes "simple_program (c_prog C)" and "follows_isa C rs s" and "stage_work e k False old At_execute s = Some (Inr s')"
    and "s_xports s = s_xports old"
    and "\<not> clear_out (s_xports old) \<longrightarrow> (\<forall>u \<in> set (de_uop_queue (s_glob s)). address u = position C rs s)"
  shows "follows_isa C rs s' \<and> s_dec s' = s_dec s \<and> s_fetch s' = s_fetch s \<and> s_fports s' = s_fports s \<and>
    s_mem s' = s_mem s \<and> RIP_jump (s_glob s') = RIP_jump (s_glob s) \<and> dd_uop_queue (s_glob s') = dd_uop_queue (s_glob s) \<and>
    (position C rs s' = position C rs s \<and> \<not> clear_out (s_xports s') \<and>
       de_uop_queue (s_glob s') = (if clear_out (s_xports old) then [] else de_uop_queue (s_glob s)) \<or>
     \<not> clear_out (s_xports old) \<and> (\<exists>u. de_uop_queue (s_glob s) = [u]) \<and> de_uop_queue (s_glob s') = [] \<and>
       out_ready (s_xports s') \<and> (\<exists>v. ew_uop_queue (s_glob s') = ew_uop_queue (s_glob s) @ [v]) \<and>
       (if clear_out (s_xports s')
        then change_RIP (s_xports s') \<and> new_RIP (s_xports s') = position C rs s' \<and>
          is_jump (opcode (c_prog C (position C rs s))) \<and>
          position C rs s' = i_pc (isa_at (c_prog C) (c_entry C) (Suc (length rs + length (ew_uop_queue (s_glob s)))))
        else position C rs s' = next_addr (c_prog C (position C rs s))))"
proof -
  let ?P = "c_prog C" and ?x = "s_ex s" and ?p = "s_xports s" and ?g = "s_glob s" and ?i = "exec_inputs False old"
  let ?h = "(e_host e)\<lparr>now := word_of_nat k\<rparr>"
  obtain x p g bytes where w: "exec_work ?h ?i (?x, ?p, ?g) = Inr (x, p, g)"
    and eff: "sys_effects (drop (length (sys_log ?g)) (sys_log g)) (mem (s_mem s)) = Inr bytes"
    and s1: "s' = s\<lparr>s_ex := x, s_xports := p, s_glob := g, s_mem := (s_mem s)\<lparr>mem := bytes\<rparr>\<rparr>"
    using assms(3) by (auto simp: stage_work_def execute_stage_def split: sum.splits)
  have inv: "isa_inv ?P (c_entry C) rs ?x ?g" using assms(2) by (simp add: follows_isa_def)
  note ex = executes_position [OF inv]
  have i: "\<not> in_reset ?i" "in_clear ?i = clear_out ?p" using assms(4) by (simp_all add: exec_inputs_def)
  have here: "\<not> in_clear ?i \<longrightarrow> (\<forall>u \<in> set (de_uop_queue ?g). firstrun ?x \<or> address u = expected_addr ?x)"
    using assms(4,5) ex(3) i(2) by (auto simp: position_def)
  have guard: "\<not> in_clear ?i \<longrightarrow> (\<forall>u \<in> set (de_uop_queue ?g). address u = prev_addr ?x \<longrightarrow> firstrun ?x \<or> address u = expected_addr ?x)"
    using here by blast
  obtain ds where "fed ?P (pipe_of s ds rs)" using assms(2) by (auto simp: follows_isa_def)
  from fed_execute [OF this i(1), of ?h x p g] i(2) w guard
  have fd: "fed ?P ((pipe_of s ds rs)\<lparr>p_ex := x, p_ports := p, p_glob := g\<rparr>)" by (simp add: pipe_of_def)
  have keep: "follows_isa C rs s'" if "isa_inv ?P (c_entry C) rs x g" "d_op p = d_op ?p"
    using that fd assms(2) by (auto simp: follows_isa_def pipe_of_def s1)
  show ?thesis
  proof (cases "exec_accepts ?i ?x ?g")
    case False
    note ports = exec_rests_ports [OF w i(1) ex(1,2) False]
    have g: "g = (if clear_out ?p then ?g\<lparr>de_uop_queue := []\<rparr> else ?g)" using ports here i(2) by (auto split: if_splits)
    have "isa_inv ?P (c_entry C) rs ?x g" using inv isa_inv_clear(2) g by simp
    then have "isa_inv ?P (c_entry C) rs x g"
      using exec_work_rests [OF w i(1) ex(1,2) False] executed_rest [of ?x x] by (simp add: isa_inv_def Let_def)
    moreover have "bytes = mem (s_mem s)" using eff g by (simp split: if_splits)
    ultimately show ?thesis using keep ports i(2) assms(4) g by (auto simp: s1 position_def split: if_splits)
  next
    case True
    then obtain u where u: "de_uop_queue ?g = [u]" using ex(2) by (cases "de_uop_queue ?g") (auto simp: exec_accepts_def)
    have clr: "\<not> clear_out ?p" using True i(2) by (simp add: exec_accepts_def)
    have at: "address u = i_pc (isa_at ?P (c_entry C) (length rs + length (ew_uop_queue ?g)))"
      using assms(4,5) clr u by (simp add: position_def)
    from isa_inv_accepts [OF assms(1) inv True u at w]
    obtain v where v: "isa_inv ?P (c_entry C) rs x g" "g = ?g\<lparr>de_uop_queue := [], ew_uop_queue := ew_uop_queue ?g @ [v]\<rparr>"
      "follows ?p p (i_pc (isa_at ?P (c_entry C) (Suc (length rs + length (ew_uop_queue ?g))))) (?P (address u))" by blast
    have "bytes = mem (s_mem s)" using eff by (simp add: v(2))
    then show ?thesis using keep v u at clr assms(4)
      by (auto simp: s1 position_def follows_def split: if_splits)
  qed
qed

text \<open>An edge of the execute stage cannot fail.\<close>

lemma exec_rests_total:
  assumes "\<not> in_reset i" and "ex_state x = STATE_NORMAL" and "length (de_uop_queue g) \<le> 1" and "\<not> exec_accepts i x g"
  shows "\<exists>r. exec_work h i (x, p, g) = Inr r"
proof (cases "\<not> in_clear i \<and> in_ready i \<and> length (ew_uop_queue g) \<le> 1 \<and> de_uop_queue g \<noteq> []")
  case False
  then show ?thesis using assms(1,2) by (auto simp: exec_work_def exec_issue_def Let_def split: list.split)
next
  case True
  then obtain u where q: "de_uop_queue g = [u]" using assms(3) by (cases "de_uop_queue g") auto
  have u: "address u \<notin> {expected_addr x, prev_addr x}" "\<not> firstrun x"
    using assms(1,2,4) True q by (auto simp: exec_accepts_def)
  have "exec_work h i (x, p, g) =
      Inr (x\<lparr>cyclecount := cyclecount x + 1, Op := u\<rparr>, p\<lparr>out_ready := False, change_RIP := False\<rparr>,
        g\<lparr>de_uop_queue := fwd_queue x (address u) []\<rparr>)"
    by (rule exec_work_squash) (use assms(1,2) True q u in auto)
  then show ?thesis by blast
qed

lemma isa_inv_executes:
  assumes "simple_program P" and "isa_inv P pc rs x g" and "\<not> in_reset i"
    and "\<not> in_clear i \<longrightarrow> (\<forall>u \<in> set (de_uop_queue g). address u = i_pc (isa_at P pc (length rs + length (ew_uop_queue g))))"
  shows "\<exists>x' p' g'. exec_work h i (x, p, g) = Inr (x', p', g') \<and> sys_log g' = sys_log g"
proof (cases "exec_accepts i x g")
  case False
  note ex = executes_position [OF assms(2)]
  obtain x' p' g' where w: "exec_work h i (x, p, g) = Inr (x', p', g')"
    using exec_rests_total [OF assms(3) ex(1,2) False] by (metis prod_cases3)
  then show ?thesis using exec_work_rests [OF w assms(3) ex(1,2) False] by auto
next
  case True
  define k where "k = length rs + length (ew_uop_queue g)"
  obtain w0 where q: "de_uop_queue g = [w0]" using executes_position(2) [OF assms(2)] True
    by (cases "de_uop_queue g") (auto simp: exec_accepts_def)
  have "\<not> in_clear i" using True by (simp add: exec_accepts_def)
  then have at: "address w0 = i_pc (isa_at P pc k)" using assms(4) q by (simp add: k_def)
  have "executed (isa_at P pc) k x" using assms(2) by (simp add: isa_inv_def Let_def k_def)
  moreover obtain m f where w0: "m \<le> k" "k \<le> m + 2" "agree f (i_regs (isa_at P pc m))" "w0 = dispatch_uop f (P (i_pc (isa_at P pc k)))"
    using assms(2) q at by (auto simp: isa_inv_def Let_def k_def)
  ultimately show ?thesis using executes_next [OF assms(1) _ True q w0(4,1,2,3), of h p] by fastforce
qed

subsection \<open>The memory\<close>

lemma answer_lines:
  assumes "tie_break pick" and "lines_only m"
  shows "\<exists>m'. mem_i_answer pick k m = Inr m' \<and> lines_only m' \<and> mem m' = mem m"
proof (cases "bucket_get pick k (i_resp m)")
  case (Pair r q)
  show ?thesis
  proof (cases r)
    case None
    then show ?thesis using assms(2) Pair by (simp add: mem_i_answer_def lines_only_def)
  next
    case (Some x)
    obtain tag a where x: "x = (tag, a)" by (cases x)
    from tie_break.get_Some [OF assms(1)] Pair Some obtain t where "mset (i_resp m) = add_mset (t, x) (mset q)" by blast
    then have q: "set (i_resp m) = insert (t, x) (set q)" by (metis set_mset_add_mset_insert set_mset_mset)
    then have a: "line_of a = a" using assms(2) x by (simp add: lines_only_def)
    then have "\<not> a mod 16 \<noteq> 0" by (simp only: line_of_aligned simp_thms)
    then obtain v where "mem_i_read (mem m) a = Inr v" unfolding mem_i_read_def by (simp only: if_False)
    then show ?thesis using assms(2) Pair Some x q a
      by (auto simp: mem_i_answer_def lines_only_def set_release split: option.splits)
  qed
qed

lemma request_lines:
  assumes "mem_i_request k i m = Inr m'" and "lines_only m" and "mi_op i \<noteq> NONE \<longrightarrow> line_of (mi_addr i) = mi_addr i"
  shows "lines_only m' \<and> mem m' = mem m"
proof -
  obtain l c1 c2 where lat: "i_latency (mi_addr i) m = (l, m\<lparr>L1i := c1, L2 := c2\<rparr>)"
    using latency_frame(1) [of "mi_addr i" m] by (metis prod.collapse)
  then show ?thesis using assms
    by (auto simp: mem_i_request_def lines_only_def split: if_splits option.splits)
qed

lemma mem_work_lines:
  assumes "tie_break pick" and "lines_only m" and "md_op i = NONE" and "mi_op i \<noteq> NONE \<longrightarrow> line_of (mi_addr i) = mi_addr i"
  shows "mem_work pick k i m = Inr m' \<Longrightarrow> lines_only m' \<and> mem m' = mem m"
    and "mi_op i \<in> {NONE, READ} \<Longrightarrow> mi_op i \<noteq> NONE \<longrightarrow> 0xffff < mi_addr i \<and> mi_addr i < mem_size \<Longrightarrow>
      \<exists>m'. mem_work pick k i m = Inr m'"
proof -
  obtain m1 where m1: "mem_i_answer pick k m = Inr m1" "lines_only m1" "mem m1 = mem m"
    using answer_lines [OF assms(1,2)] by blast
  have m2: "mem_d_answer pick k m1 = Inr (m1\<lparr>md_ready := False\<rparr>)" "lines_only (m1\<lparr>md_ready := False\<rparr>)"
    using m1(2) by (simp_all add: mem_d_answer_def bucket_get_def lines_only_def)
  have m3: "mem_work pick k i m = (if mm_reset i then Inr m else mem_i_request k i (m1\<lparr>md_ready := False\<rparr>))"
    using m1(1) m2(1) assms(3) by (auto simp: mem_work_def mem_d_request_def and_then_def split: sum.split)
  show "lines_only m' \<and> mem m' = mem m" if "mem_work pick k i m = Inr m'"
    using that m3 request_lines [OF _ m2(2) assms(4), of k m'] assms(2) m1(3) by (auto split: if_splits)
  show "\<exists>m'. mem_work pick k i m = Inr m'"
    if "mi_op i \<in> {NONE, READ}" "mi_op i \<noteq> NONE \<longrightarrow> 0xffff < mi_addr i \<and> mi_addr i < mem_size"
  proof (cases "mi_op i = NONE")
    case True
    then show ?thesis using m3 by (auto simp: mem_i_request_def)
  next
    case False
    then show ?thesis using that m3 line_request_total [of i k "m1\<lparr>md_ready := False\<rparr>"] by auto
  qed
qed

lemma memory_stage:
  assumes "stage_work e k False old At_memory s = Some (Inr s')" and "tie_break (e_pick e)" and "bus_inv s"
    and "mem_ok M (s_mem s)" and "d_op (s_xports old) = NONE"
    and "i_op (s_fports old) \<noteq> NONE \<longrightarrow> line_of (i_addr (s_fports old)) = i_addr (s_fports old)"
  shows "mem_ok M (s_mem s') \<and> s' = s\<lparr>s_mem := s_mem s'\<rparr>"
proof -
  obtain m where m: "mem_work (e_pick e) k (memory_inputs False old) (s_mem s) = Inr m" "s' = s\<lparr>s_mem := m\<rparr>"
    using assms(1) by (auto simp: stage_work_def split: sum.splits)
  have l: "lines_only (s_mem s)" "mem (s_mem s) = M" using assms(4) by (simp_all add: mem_ok_def)
  have t: "tagged (\<lambda>a. i_mshr (s_mem s) a \<noteq> None) (i_out (s_mem s))" using assms(3) by (simp add: bus_inv_def)
  have "lines_only m \<and> mem m = M"
    using mem_work_lines(1) [OF assms(2) l(1) _ _ m(1)] assms(5,6) l(2) by (simp add: memory_inputs_def)
  moreover have "mem_i_read M (signed (mi_tagout m)) = Inr (mi_data m)" if "mi_ready m"
    using tagged_port.answer_is_word [OF i_port_laws [OF assms(2)] _ m(1) t, of "mi_tagout m"] that l(2)
    by (simp add: memory_inputs_def)
  ultimately show ?thesis using m(2) by (simp add: mem_ok_def)
qed

subsection \<open>An edge without a clear\<close>

text \<open>Fetch before its first edge, or at \<open>t\<close>.\<close>

definition front_start :: "code \<Rightarrow> system \<Rightarrow> addr \<Rightarrow> bool" where
  "front_start C s t \<longleftrightarrow> (if firstRunFlag (s_fetch s)
     then \<not> mi_ready (s_mem s) \<and> RIP (s_fetch s) = t \<and> \<not> f_out_ready (s_fports s) \<and> first_run (s_dec s) \<and>
       i_op (s_fports s) = NONE
     else front_at (c_mem C) (s_fetch s) (s_fports s) t)"

lemma front_start_lines:
  assumes "front_start C s t"
  shows "i_op (s_fports s) \<in> {NONE, READ}" and "i_op (s_fports s) \<noteq> NONE \<longrightarrow> line_of (i_addr (s_fports s)) = i_addr (s_fports s)"
proof -
  have "i_op (s_fports s) = NONE \<or> i_op (s_fports s) = READ \<and> i_addr (s_fports s) = line_of (RIP (s_fetch s))"
    using assms by (auto simp: front_start_def front_at_def split: if_splits)
  then show "i_op (s_fports s) \<in> {NONE, READ}" "i_op (s_fports s) \<noteq> NONE \<longrightarrow> line_of (i_addr (s_fports s)) = i_addr (s_fports s)"
    by auto
qed

text \<open>Between two edges, with fetch at \<open>t\<close>.\<close>

definition code_inv :: "code \<Rightarrow> addr list \<Rightarrow> addr \<Rightarrow> system \<Rightarrow> bool" where
  "code_inv C rs t s \<longleftrightarrow> queues_ok C rs s \<and> bus_inv s \<and> mem_ok (c_mem C) (s_mem s) \<and>
     decode_at C rs s t \<and> front_start C s t"

definition after_line :: "system \<Rightarrow> addr \<Rightarrow> addr" where
  "after_line old t = (if f_out_ready (s_fports old) then line_of t + 16 else t)"

text \<open>In the middle of an edge, with the handlers \<open>sts\<close> still to run.\<close>

definition plain_mid :: "code \<Rightarrow> system \<Rightarrow> addr \<Rightarrow> stage list \<Rightarrow> addr list \<Rightarrow> system \<Rightarrow> bool" where
  "plain_mid C old t sts rs s \<longleftrightarrow> queues_ok C rs s \<and> bus_inv s \<and>
     decode_at C rs s (if At_decode \<in> set sts then t else after_line old t) \<and>
     (if At_fetch \<in> set sts then s_fetch s = s_fetch old \<and> s_fports s = s_fports old
      else front_at (c_mem C) (s_fetch s) (s_fports s) (after_line old t)) \<and>
     (if At_memory \<in> set sts then s_mem s = s_mem old else mem_ok (c_mem C) (s_mem s)) \<and>
     (At_execute \<in> set sts \<longrightarrow> s_xports s = s_xports old)"

lemma queues_ok_cong:
  assumes "queues_ok C rs s" and "follows_isa C rs' s'" and "restarting s' = restarting s" and "position C rs' s' = position C rs s"
    and "last_good_addr (s_dec s') = last_good_addr (s_dec s)" and "s_xports s' = s_xports s \<or> \<not> clear_out (s_xports s) \<and> \<not> clear_out (s_xports s')"
    and "map address (de_uop_queue (s_glob s') @ dd_uop_queue (s_glob s')) = map address (de_uop_queue (s_glob s) @ dd_uop_queue (s_glob s))"
    and "dd_uop_queue (s_glob s') = dd_uop_queue (s_glob s) \<or> dd_uop_queue (s_glob s') = tl (dd_uop_queue (s_glob s))"
  shows "queues_ok C rs' s'"
proof (cases "restarting s")
  case True
  then show ?thesis using assms by (auto simp: queues_ok_def)
next
  case False
  have "\<exists>a. chain (c_prog C) a (map address (dd_uop_queue (s_glob s'))) (last_good_addr (s_dec s))"
  proof -
    obtain a where "chain (c_prog C) a (map address (dd_uop_queue (s_glob s))) (last_good_addr (s_dec s))"
      using assms(1) False by (auto simp: queues_ok_def)
    then show ?thesis using assms(8) by (cases "dd_uop_queue (s_glob s)") auto
  qed
  then show ?thesis
    using assms(1,6) False unfolding queues_ok_def assms(3-5,7) if_not_P [OF False]
    by (auto simp: assms(2) simp del: map_append)
qed

lemma front_of_chain:
  assumes "chain P a (map address (us @ vs)) b" and "length us \<le> 1"
  shows "\<forall>u \<in> set us. address u = a"
  using assms by (cases us) auto

lemma queued_at_position:
  assumes "queues_ok C rs s" and "\<not> clear_out (s_xports s)"
  shows "\<forall>u \<in> set (de_uop_queue (s_glob s)). address u = position C rs s"
proof (cases "restarting s")
  case True
  then show ?thesis using assms(1) by (simp add: queues_ok_def)
next
  case False
  have "length (de_uop_queue (s_glob s)) \<le> 1"
    using assms(1) executes_position(2) by (auto simp: queues_ok_def follows_isa_def)
  moreover have "chain (c_prog C) (position C rs s) (map address (de_uop_queue (s_glob s) @ dd_uop_queue (s_glob s)))
      (last_good_addr (s_dec s))"
    using assms False by (simp add: queues_ok_def del: map_append)
  ultimately show ?thesis by (metis front_of_chain)
qed

text \<open>What a plain edge starts from.\<close>

definition plain_start :: "env \<Rightarrow> code \<Rightarrow> system \<Rightarrow> addr \<Rightarrow> bool" where
  "plain_start e C old t \<longleftrightarrow> code_image (e_disasm e) (e_junk e) C \<and> simple_program (c_prog C) \<and> stays_in_code C \<and>
     tie_break (e_pick e) \<and> bus_inv old \<and> mem_ok (c_mem C) (s_mem old) \<and> d_op (s_xports old) = NONE \<and>
     front_start C old t \<and> \<not> clear_out (s_xports old) \<and>
     (f_out_ready (s_fports old) \<longrightarrow> (\<forall>i < 16. line_of t + word_of_nat i \<in> c_region C))"

lemma plain_fetch_front:
  assumes "plain_start e C old t" and "plain_mid C old t (At_fetch # sts) rs s"
    and "stage_work e k False old At_fetch s = Some (Inr s')"
  shows "front_at (c_mem C) (s_fetch s') (s_fports s') (after_line old t) \<and> RIP_jump (s_glob s') = RIP_jump (s_glob s)"
proof -
  have st: "bus_inv old" "mem_ok (c_mem C) (s_mem old)" "front_start C old t" "\<not> clear_out (s_xports old)"
    using assms(1) by (simp_all add: plain_start_def)
  then have red: "\<not> change_RIP (s_xports old)" by (auto simp: bus_inv_def port_ok_def)
  have mid: "queues_ok C rs s" "s_fetch s = s_fetch old" "s_fports s = s_fports old"
    using assms(2) by (simp_all add: plain_mid_def)
  then have f: "follows_isa C rs s" by (simp add: queues_ok_def)
  note w = fetch_stage_follows [OF f assms(3)]
  have i: "\<not> f_reset (fetch_inputs False old)" "\<not> f_clear (fetch_inputs False old)" "\<not> f_change_RIP (fetch_inputs False old)"
    using st(4) red by (simp_all add: fetch_inputs_def)
  show ?thesis
  proof (cases "firstRunFlag (s_fetch old)")
    case True
    then have "\<not> f_i_ready (fetch_inputs False old)" "RIP (s_fetch s) = t" "after_line old t = t"
      using st(3) mid(2) by (simp_all add: front_start_def fetch_inputs_def after_line_def)
    then show ?thesis using fetch_starts [of "fetch_inputs False old" "s_fetch s" "s_fports s" "s_glob s", OF _ i] w True mid(2) by simp
  next
    case False
    then have at: "front_at (c_mem C) (s_fetch s) (s_fports s) t" using st(3) mid(2,3) by (simp add: front_start_def)
    have data: "f_i_ready (fetch_inputs False old) \<longrightarrow> mem_i_read (c_mem C) (signed (f_i_tagout (fetch_inputs False old))) =
        Inr (f_i_data (fetch_inputs False old))"
      using st(2) by (simp add: mem_ok_def fetch_inputs_def)
    have fw: "fetch_work (fetch_inputs False old) (s_fetch s, s_fports s, s_glob s) = (s_fetch s', s_fports s', s_glob s')"
      using w by blast
    from fetch_stays [OF fw i data at] mid(3) show ?thesis by (simp add: after_line_def)
  qed
qed

lemma plain_fetch:
  assumes "plain_start e C old t" and "plain_mid C old t (At_fetch # sts) rs s" and "At_fetch \<notin> set sts"
    and "stage_work e k False old At_fetch s = Some (Inr s')"
  shows "plain_mid C old t sts rs s'"
proof -
  have st: "bus_inv old" "tie_break (e_pick e)" using assms(1) by (simp_all add: plain_start_def)
  have mid: "queues_ok C rs s" "bus_inv s" using assms(2) by (simp_all add: plain_mid_def)
  then have f: "follows_isa C rs s" by (simp add: queues_ok_def)
  note w = fetch_stage_follows [OF f assms(4)]
  have front: "front_at (c_mem C) (s_fetch s') (s_fports s') (after_line old t)" "RIP_jump (s_glob s') = RIP_jump (s_glob s)"
    using plain_fetch_front [OF assms(1,2,4)] by simp_all
  then have wait: "restarting s' = restarting s" using w by (simp add: restarting_def)
  have "queues_ok C rs s'" by (rule queues_ok_cong [OF mid(1)]) (use w wait in simp_all)
  moreover have "bus_inv s'" by (rule stage_bus_inv [OF assms(4) st(2) mid(2) st(1)])
  moreover have "decode_at C rs s' (if At_decode \<in> set sts then t else after_line old t)"
    by (rule decode_at_cong [of _ rs s]) (use assms(2) w front(2) in \<open>simp_all add: plain_mid_def\<close>)
  ultimately show ?thesis using assms(2,3) w front(1) by (simp add: plain_mid_def)
qed

lemma plain_decode:
  assumes "plain_start e C old t" and "plain_mid C old t (At_decode # sts) rs s" and "At_decode \<notin> set sts"
    and "stage_work e k False old At_decode s = Some (Inr s')"
  shows "plain_mid C old t sts rs s'"
proof -
  have st: "code_image (e_disasm e) (e_junk e) C" "simple_program (c_prog C)" "bus_inv old" "tie_break (e_pick e)" "\<not> clear_out (s_xports old)"
    using assms(1) by (simp_all add: plain_start_def)
  have mid: "queues_ok C rs s" "bus_inv s" "decode_at C rs s t" using assms(2) by (simp_all add: plain_mid_def)
  have line: "f_out_ready (s_fports old) \<longrightarrow> line_at (c_mem C) (s_fports old) t \<and> (\<forall>i < 16. line_of t + word_of_nat i \<in> c_region C)"
    using assms(1) by (auto simp: plain_start_def front_start_def front_at_def split: if_splits)
  note d = decode_stage [OF st(1,2) mid(1,3) st(5) line assms(4)]
  have "s_fetch s' = s_fetch s" "s_fports s' = s_fports s" "s_mem s' = s_mem s"
    using assms(4) by (auto simp: stage_work_def split: option.splits sum.splits)
  then show ?thesis
    using assms(2,3) d stage_bus_inv [OF assms(4) st(4) mid(2) st(3)] by (auto simp: plain_mid_def after_line_def)
qed

lemma plain_dispatch:
  assumes "plain_start e C old t" and "plain_mid C old t (At_dispatch # sts) rs s"
    and "stage_work e k False old At_dispatch s = Some (Inr s')"
  shows "plain_mid C old t sts rs s'"
proof -
  have st: "bus_inv old" "tie_break (e_pick e)" "\<not> clear_out (s_xports old)" using assms(1) by (simp_all add: plain_start_def)
  have mid: "queues_ok C rs s" "bus_inv s" using assms(2) by (simp_all add: plain_mid_def)
  then have f: "follows_isa C rs s" by (simp add: queues_ok_def)
  note w = dispatch_stage_follows [OF f assms(3), unfolded if_not_P [OF st(3)]]
  have wait: "restarting s' = restarting s" using w by (simp only: restarting_def)
  have "queues_ok C rs s'" by (rule queues_ok_cong [OF mid(1)]) (use w wait in \<open>simp_all del: map_append\<close>)
  moreover have "bus_inv s'" by (rule stage_bus_inv [OF assms(3) st(2) mid(2) st(1)])
  moreover have "decode_at C rs s' (if At_decode \<in> set sts then t else after_line old t)"
    by (rule decode_at_cong [of _ rs s]) (use assms(2) w in \<open>simp_all add: plain_mid_def del: map_append\<close>)
  ultimately show ?thesis using assms(2) w by (simp add: plain_mid_def del: map_append)
qed

lemma plain_writeback:
  assumes "plain_start e C old t" and "plain_mid C old t (At_writeback # sts) rs s"
    and "stage_work e k False old At_writeback s = Some (Inr s')"
  shows "plain_mid C old t sts (rs @ retired_by At_writeback s s') s'" (is "plain_mid C old t sts ?rs s'")
proof -
  have st: "bus_inv old" "tie_break (e_pick e)" using assms(1) by (simp_all add: plain_start_def)
  have mid: "queues_ok C rs s" "bus_inv s" using assms(2) by (simp_all add: plain_mid_def)
  then have f: "follows_isa C rs s" by (simp add: queues_ok_def)
  note w = writeback_stage_follows [OF f assms(3)]
  have wait: "restarting s' = restarting s" using w by (simp only: restarting_def)
  have "queues_ok C ?rs s'" by (rule queues_ok_cong [OF mid(1)]) (use w wait in simp_all)
  moreover have "bus_inv s'" by (rule stage_bus_inv [OF assms(3) st(2) mid(2) st(1)])
  moreover have "decode_at C ?rs s' (if At_decode \<in> set sts then t else after_line old t)"
    by (rule decode_at_cong [of _ rs s]) (use assms(2) w in \<open>simp_all add: plain_mid_def\<close>)
  ultimately show ?thesis using assms(2) w by (simp add: plain_mid_def)
qed

lemma plain_memory:
  assumes "plain_start e C old t" and "plain_mid C old t (At_memory # sts) rs s" and "At_memory \<notin> set sts"
    and "stage_work e k False old At_memory s = Some (Inr s')"
  shows "plain_mid C old t sts rs s'"
proof -
  have st: "bus_inv old" "tie_break (e_pick e)" "d_op (s_xports old) = NONE" "mem_ok (c_mem C) (s_mem old)"
    "front_start C old t"
    using assms(1) by (simp_all add: plain_start_def)
  have mid: "queues_ok C rs s" "bus_inv s" "s_mem s = s_mem old" using assms(2) by (simp_all add: plain_mid_def)
  have m: "mem_ok (c_mem C) (s_mem s') \<and> s' = s\<lparr>s_mem := s_mem s'\<rparr>"
    by (rule memory_stage [OF assms(4) st(2) mid(2) _ st(3) front_start_lines(2) [OF st(5)]]) (simp add: mid(3) st(4))
  then obtain m' where s': "s' = s\<lparr>s_mem := m'\<rparr>" by blast
  have f: "follows_isa C rs s'" using mid(1) by (simp add: queues_ok_def follows_isa_def s' pipe_of_def)
  have "queues_ok C rs s'" by (rule queues_ok_cong [OF mid(1) f]) (simp_all add: s' restarting_def position_def)
  moreover have "bus_inv s'" by (rule stage_bus_inv [OF assms(4) st(2) mid(2) st(1)])
  moreover have "decode_at C rs s' (if At_decode \<in> set sts then t else after_line old t)"
    by (rule decode_at_cong [of _ rs s]) (use assms(2) in \<open>simp_all add: plain_mid_def s' position_def\<close>)
  ultimately show ?thesis using assms(2,3) m by (simp add: plain_mid_def s')
qed

lemma plain_execute:
  assumes "plain_start e C old t" and "plain_mid C old t (At_execute # sts) rs s" and "At_execute \<notin> set sts"
    and "stage_work e k False old At_execute s = Some (Inr s')"
  shows "plain_mid C old t sts rs s'"
proof -
  let ?P = "c_prog C"
  have st: "bus_inv old" "tie_break (e_pick e)" "simple_program ?P" "stays_in_code C" "\<not> clear_out (s_xports old)"
    using assms(1) by (simp_all add: plain_start_def)
  have mid: "queues_ok C rs s" "bus_inv s" "s_xports s = s_xports old" using assms(2) by (simp_all add: plain_mid_def)
  then have f: "follows_isa C rs s" by (simp add: queues_ok_def)
  have here: "\<forall>u \<in> set (de_uop_queue (s_glob s)). address u = position C rs s"
    using queued_at_position [OF mid(1)] mid(3) st(5) by simp
  have hyp: "\<not> clear_out (s_xports old) \<longrightarrow> (\<forall>u \<in> set (de_uop_queue (s_glob s)). address u = position C rs s)"
    using here by blast
  note step = execute_stage_follows [OF st(3) f assms(4) mid(3) hyp, unfolded if_not_P [OF st(5)]]
  have w: "follows_isa C rs s'" "s_dec s' = s_dec s" "s_fetch s' = s_fetch s" "s_fports s' = s_fports s"
      "s_mem s' = s_mem s" "RIP_jump (s_glob s') = RIP_jump (s_glob s)" "dd_uop_queue (s_glob s') = dd_uop_queue (s_glob s)"
    and ex: "position C rs s' = position C rs s \<and> \<not> clear_out (s_xports s') \<and>
       de_uop_queue (s_glob s') = de_uop_queue (s_glob s) \<or>
     (\<exists>u. de_uop_queue (s_glob s) = [u]) \<and> de_uop_queue (s_glob s') = [] \<and>
       out_ready (s_xports s') \<and> (\<exists>v. ew_uop_queue (s_glob s') = ew_uop_queue (s_glob s) @ [v]) \<and>
       (if clear_out (s_xports s')
        then change_RIP (s_xports s') \<and> new_RIP (s_xports s') = position C rs s' \<and>
          is_jump (opcode (?P (position C rs s))) \<and>
          position C rs s' = i_pc (isa_at ?P (c_entry C) (Suc (length rs + length (ew_uop_queue (s_glob s)))))
        else position C rs s' = next_addr (?P (position C rs s)))"
    using step by blast+
  have wait: "restarting s' = restarting s" using w by (simp only: restarting_def)
  have q: "queues_ok C rs s'" and pos: "restarting s \<longrightarrow> position C rs s' = position C rs s"
    using ex
  proof (atomize (full), elim disjE, goal_cases)
    case 1
    moreover from this have "queues_ok C rs s'" by (intro queues_ok_cong [OF mid(1) w(1) wait]) (use w mid st(5) in simp_all)
    ultimately show ?case by blast
  next
    case 2
    then obtain u where u: "de_uop_queue (s_glob s) = [u]" by blast
    have nw: "\<not> restarting s" using u mid(1) by (auto simp: queues_ok_def)
    have old: "last_good_addr (s_dec s) \<in> c_starts C"
      "\<exists>a. chain ?P a (map address (dd_uop_queue (s_glob s))) (last_good_addr (s_dec s))"
      "chain ?P (next_addr (?P (position C rs s))) (map address (dd_uop_queue (s_glob s))) (last_good_addr (s_dec s))"
      using mid(1,3) st(5) nw u by (auto simp: queues_ok_def)
    have "clear_out (s_xports s') \<longrightarrow> lands C (position C rs s')"
      using 2 st(4) by (auto simp: stays_in_code_def position_def)
    then show ?case using 2 w nw wait old by (auto simp: queues_ok_def)
  qed
  moreover have "bus_inv s'" by (rule stage_bus_inv [OF assms(4) st(2) mid(2) st(1)])
  moreover have "decode_at C rs s' (if At_decode \<in> set sts then t else after_line old t)"
    by (rule decode_at_cong [of _ rs s]) (use assms(2) w pos in \<open>simp_all add: plain_mid_def\<close>)
  ultimately show ?thesis using assms(2,3) w by (simp add: plain_mid_def)
qed

lemma plain_stage:
  assumes "plain_start e C old t" and "plain_mid C old t (st # sts) rs s" and "st \<notin> set sts"
    and "stage_work e k False old st s = Some (Inr s')"
  shows "plain_mid C old t sts (rs @ retired_by st s s') s'"
  using assms plain_fetch [OF assms(1), of sts rs s k s'] plain_decode [OF assms(1), of sts rs s k s']
    plain_dispatch [OF assms(1), of sts rs s k s'] plain_execute [OF assms(1), of sts rs s k s']
    plain_memory [OF assms(1), of sts rs s k s'] plain_writeback [OF assms(1), of sts rs s k s']
  by (cases st) simp_all

lemma plain_stages:
  assumes "plain_start e C old t" and "plain_mid C old t sts rs s" and "distinct sts"
    and "run_stages e k False old sts s = Some (Inr s')"
  shows "\<exists>rs'. prefix rs rs' \<and> plain_mid C old t [] rs' s'"
  using assms(2-4)
proof (induction sts arbitrary: rs s)
  case (Cons st sts)
  obtain s1 where s1: "stage_work e k False old st s = Some (Inr s1)" "run_stages e k False old sts s1 = Some (Inr s')"
    using Cons.prems(3) by (rule run_stages_cons)
  have n: "st \<notin> set sts" "distinct sts" using Cons.prems(2) by simp_all
  from Cons.IH [OF plain_stage [OF assms(1) Cons.prems(1) n(1) s1(1)] n(2) s1(2)]
  show ?case by (blast dest: append_prefixD)
qed auto

text \<open>The lines that are handed to decode are lines of the code.\<close>

definition in_region :: "code \<Rightarrow> system \<Rightarrow> bool" where
  "in_region C s \<longleftrightarrow> (\<not> clear_out (s_xports s) \<and> f_out_ready (s_fports s) \<longrightarrow>
     (\<forall>i < 16. out_addr (s_fports s) + word_of_nat i \<in> c_region C))"

lemma plain_startI:
  assumes "code_image (e_disasm e) (e_junk e) C" and "simple_program (c_prog C)" and "stays_in_code C"
    and "tie_break (e_pick e)" and "code_inv C rs t s" and "\<not> clear_out (s_xports s)" and "in_region C s"
  shows "plain_start e C s t"
proof -
  have inv: "queues_ok C rs s" "bus_inv s" "mem_ok (c_mem C) (s_mem s)" "front_start C s t"
    using assms(5) by (simp_all add: code_inv_def)
  have "f_out_ready (s_fports s) \<longrightarrow> out_addr (s_fports s) = line_of t"
    using inv(4) by (auto simp: front_start_def front_at_def line_at_def split: if_splits)
  moreover have "d_op (s_xports s) = NONE" using inv(1) by (simp add: queues_ok_def follows_isa_def)
  ultimately show ?thesis using assms inv by (auto simp: plain_start_def in_region_def)
qed

lemma plain_midI:
  assumes "code_inv C rs t s" and "set order = set all_stages"
  shows "plain_mid C s t order rs s"
  using assms by (simp add: plain_mid_def code_inv_def all_stages_def)

lemma plain_end:
  assumes "plain_mid C s t [] rs s'"
  shows "code_inv C rs (after_line s t) s'"
proof -
  have "front_start C s' (after_line s t)" using assms by (simp add: plain_mid_def front_start_def front_at_def)
  then show ?thesis using assms by (simp add: plain_mid_def code_inv_def)
qed

lemma plain_edge:
  assumes "plain_start e C s t" and "code_inv C rs t s"
    and "distinct order" and "set order = set all_stages" and "system_edge e order k False s = Some (Inr s')"
  shows "\<exists>rs'. prefix rs rs' \<and> code_inv C rs' (after_line s t) s'"
proof -
  obtain rs' where rs': "prefix rs rs'" "plain_mid C s t [] rs' s'"
    using plain_stages [OF assms(1) plain_midI [OF assms(2,4)] assms(3)] assms(5) by (auto simp: system_edge_def)
  then show ?thesis using plain_end by blast
qed

text \<open>No handler fails, as long as fetch asks for lines within the memory.\<close>

definition asks_in_memory :: "system \<Rightarrow> bool" where
  "asks_in_memory s \<longleftrightarrow> (i_op (s_fports s) \<noteq> NONE \<longrightarrow> 0xffff < i_addr (s_fports s) \<and> i_addr (s_fports s) < mem_size)"

lemma stage_total:
  assumes "tie_break (e_pick e)" and "follows_isa C rs s" and "simple_program (c_prog C)"
  shows "st \<in> {At_fetch, At_dispatch, At_writeback} \<Longrightarrow> \<exists>s'. stage_work e k False old st s = Some (Inr s')"
    and "s_xports s = s_xports old \<Longrightarrow>
      \<not> clear_out (s_xports old) \<longrightarrow> (\<forall>u \<in> set (de_uop_queue (s_glob s)). address u = position C rs s) \<Longrightarrow>
      \<exists>s'. stage_work e k False old At_execute s = Some (Inr s')"
    and "mem_ok M (s_mem s) \<Longrightarrow> front_start C old t \<Longrightarrow> d_op (s_xports old) = NONE \<Longrightarrow> asks_in_memory old \<Longrightarrow>
      \<exists>s'. stage_work e k False old At_memory s = Some (Inr s')"
proof -
  show "\<exists>s'. stage_work e k False old st s = Some (Inr s')" if "st \<in> {At_fetch, At_dispatch, At_writeback}"
    using that by (auto simp: stage_work_def split: prod.split)
  show "\<exists>s'. stage_work e k False old At_execute s = Some (Inr s')" if "s_xports s = s_xports old"
    "\<not> clear_out (s_xports old) \<longrightarrow> (\<forall>u \<in> set (de_uop_queue (s_glob s)). address u = position C rs s)"
  proof -
    let ?h = "(e_host e)\<lparr>now := word_of_nat k\<rparr>" and ?i = "exec_inputs False old"
    have inv: "isa_inv (c_prog C) (c_entry C) rs (s_ex s) (s_glob s)" using assms(2) by (simp add: follows_isa_def)
    have i: "\<not> in_reset ?i" "in_clear ?i = clear_out (s_xports old)" by (simp_all add: exec_inputs_def)
    have here: "\<not> in_clear ?i \<longrightarrow> (\<forall>u \<in> set (de_uop_queue (s_glob s)).
        address u = i_pc (isa_at (c_prog C) (c_entry C) (length rs + length (ew_uop_queue (s_glob s)))))"
      using that(2) i(2) by (simp add: position_def)
    obtain x p g where "exec_work ?h ?i (s_ex s, s_xports s, s_glob s) = Inr (x, p, g)" "sys_log g = sys_log (s_glob s)"
      using isa_inv_executes [OF assms(3) inv i(1) here, of ?h "s_xports s"] by blast
    then show ?thesis by (simp add: stage_work_def execute_stage_def)
  qed
  show "\<exists>s'. stage_work e k False old At_memory s = Some (Inr s')"
    if "mem_ok M (s_mem s)" "front_start C old t" "d_op (s_xports old) = NONE" "asks_in_memory old"
  proof -
    have "\<exists>m. mem_work (e_pick e) k (memory_inputs False old) (s_mem s) = Inr m"
      by (rule mem_work_lines(2) [OF assms(1)])
        (use that front_start_lines [OF that(2)] in \<open>auto simp: mem_ok_def memory_inputs_def asks_in_memory_def\<close>)
    then show ?thesis by (auto simp: stage_work_def)
  qed
qed

lemma plain_total:
  assumes "plain_start e C old t" and "plain_mid C old t (st # sts) rs s" and "asks_in_memory old"
  shows "\<exists>s'. stage_work e k False old st s = Some (Inr s')"
proof -
  have st: "code_image (e_disasm e) (e_junk e) C" "tie_break (e_pick e)" "simple_program (c_prog C)" "front_start C old t"
    "mem_ok (c_mem C) (s_mem old)" "d_op (s_xports old) = NONE" "\<not> clear_out (s_xports old)"
    "f_out_ready (s_fports old) \<longrightarrow> line_at (c_mem C) (s_fports old) t \<and> (\<forall>i < 16. line_of t + word_of_nat i \<in> c_region C)"
    using assms(1) by (auto simp: plain_start_def front_start_def front_at_def split: if_splits)
  have mid: "queues_ok C rs s" using assms(2) by (simp add: plain_mid_def)
  then have f: "follows_isa C rs s" by (simp add: queues_ok_def)
  note total = stage_total [OF st(2) f st(3)]
  show ?thesis
  proof (cases st)
    case At_decode
    show ?thesis
    proof (cases "f_out_ready (s_fports old)")
      case True
      have at: "decode_at C rs s t" using assms(2) At_decode by (simp add: plain_mid_def)
      have start: "restarting s \<longrightarrow> lands C t" "\<not> restarting s \<longrightarrow> last_good_addr (s_dec s) \<in> c_starts C"
        using mid at by (auto simp: queues_ok_def decode_at_def)
      from st(8) True have "line_at (c_mem C) (s_fports old) t" "\<forall>i < 16. line_of t + word_of_nat i \<in> c_region C" by simp_all
      from decode_line [OF st(1) this at start, of False] obtain d g where
        "decode_opcodes (e_disasm e) (e_junk e) (decoder_inputs False old) (s_dec s, s_glob s) = Some (Inr (d, g))"
        unfolding Let_def by blast
      then show ?thesis using st(7) True At_decode by (simp add: stage_work_def decoder_work_def decoder_inputs_def)
    qed (simp add: At_decode stage_work_def decoder_work_def decoder_inputs_def)
  next
    case At_execute
    have x: "s_xports s = s_xports old" using assms(2) At_execute by (simp add: plain_mid_def)
    show ?thesis unfolding At_execute
      by (rule total(2) [OF x]) (use queued_at_position [OF mid] x st(7) in simp)
  next
    case At_memory
    have "mem_ok (c_mem C) (s_mem s)" using assms(2) At_memory st(5) by (simp add: plain_mid_def)
    from total(3) [OF this st(4,6) assms(3)] show ?thesis by (simp add: At_memory)
  qed (use total(1) in simp_all)
qed

lemma plain_run_total:
  assumes "plain_start e C old t" and "plain_mid C old t sts rs s" and "distinct sts" and "asks_in_memory old"
  shows "\<exists>s'. run_stages e k False old sts s = Some (Inr s')"
  using assms(2,3)
proof (induction sts arbitrary: rs s)
  case (Cons st sts)
  obtain s1 where s1: "stage_work e k False old st s = Some (Inr s1)"
    using plain_total [OF assms(1) Cons.prems(1) assms(4)] by blast
  have n: "st \<notin> set sts" "distinct sts" using Cons.prems(2) by simp_all
  from Cons.IH [OF plain_stage [OF assms(1) Cons.prems(1) n(1) s1] n(2)] s1 show ?case by auto
qed simp

subsection \<open>An edge with a clear\<close>

text \<open>In the middle of an edge on which the modules see the clear of a taken jump.\<close>

definition clear_mid :: "code \<Rightarrow> system \<Rightarrow> stage list \<Rightarrow> addr list \<Rightarrow> system \<Rightarrow> bool" where
  "clear_mid C old sts rs s \<longleftrightarrow> follows_isa C rs s \<and> bus_inv s \<and> position C rs s = new_RIP (s_xports old) \<and>
     s_dec s = s_dec old \<and>
     (if At_fetch \<in> set sts then s_fetch s = s_fetch old
      else front_at (c_mem C) (s_fetch s) (s_fports s) (new_RIP (s_xports old)) \<and> RIP_jump (s_glob s)) \<and>
     (At_dispatch \<in> set sts \<or> dd_uop_queue (s_glob s) = []) \<and>
     (if At_execute \<in> set sts then s_xports s = s_xports old
      else de_uop_queue (s_glob s) = [] \<and> \<not> clear_out (s_xports s)) \<and>
     (if At_memory \<in> set sts then s_mem s = s_mem old else mem_ok (c_mem C) (s_mem s))"

definition clear_start :: "env \<Rightarrow> code \<Rightarrow> system \<Rightarrow> bool" where
  "clear_start e C old \<longleftrightarrow> simple_program (c_prog C) \<and> tie_break (e_pick e) \<and> bus_inv old \<and> mem_ok (c_mem C) (s_mem old) \<and>
     d_op (s_xports old) = NONE \<and> clear_out (s_xports old) \<and> change_RIP (s_xports old) \<and>
     (\<exists>t. front_start C old t) \<and> \<not> firstRunFlag (s_fetch old)"

lemma clear_stage:
  assumes "clear_start e C old" and "clear_mid C old (st # sts) rs s" and "st \<notin> set sts"
    and "stage_work e k False old st s = Some (Inr s')"
  shows "clear_mid C old sts (rs @ retired_by st s s') s'"
proof -
  have st: "simple_program (c_prog C)" "tie_break (e_pick e)" "bus_inv old" "d_op (s_xports old) = NONE"
    "clear_out (s_xports old)" "change_RIP (s_xports old)" "\<not> firstRunFlag (s_fetch old)" "mem_ok (c_mem C) (s_mem old)"
    "i_op (s_fports old) \<noteq> NONE \<longrightarrow> line_of (i_addr (s_fports old)) = i_addr (s_fports old)"
    using assms(1) front_start_lines(2) by (auto simp: clear_start_def)
  have f: "follows_isa C rs s" and bus: "bus_inv s" using assms(2) by (simp_all add: clear_mid_def)
  note bus' = stage_bus_inv [OF assms(4) st(2) bus st(3)]
  show ?thesis
  proof (cases st)
    case At_fetch
    note w = fetch_stage_follows [OF f assms(4) [unfolded At_fetch]]
    have fw: "fetch_work (fetch_inputs False old) (s_fetch s, s_fports s, s_glob s) = (s_fetch s', s_fports s', s_glob s')"
      using w by blast
    have "front_at (c_mem C) (s_fetch s') (s_fports s') (f_new_RIP (fetch_inputs False old)) \<and> RIP_jump (s_glob s')"
      by (rule fetch_restarts [OF fw]) (use st assms(2) At_fetch in \<open>simp_all add: fetch_inputs_def clear_mid_def\<close>)
    then show ?thesis
      using assms(2,3) w bus' At_fetch by (auto simp: clear_mid_def fetch_inputs_def)
  next
    case At_decode
    have "dec_clear (decoder_inputs False old)" using st(5) by (simp add: decoder_inputs_def)
    then have "decoder_work (e_disasm e) (e_junk e) (decoder_inputs False old) q = Some (Inr q)" for q
      by (simp add: decoder_work_def)
    then have "s' = s" using assms(4) At_decode by (simp add: stage_work_def)
    then show ?thesis using assms(2) At_decode by (auto simp: clear_mid_def)
  next
    case At_dispatch
    note w = dispatch_stage_follows [OF f assms(4) [unfolded At_dispatch], unfolded if_P [OF st(5)]]
    show ?thesis using assms(2) w bus' At_dispatch by (simp add: clear_mid_def)
  next
    case At_execute
    have x: "s_xports s = s_xports old" using assms(2) At_execute by (simp add: clear_mid_def)
    have hyp: "\<not> clear_out (s_xports old) \<longrightarrow> (\<forall>u \<in> set (de_uop_queue (s_glob s)). address u = position C rs s)"
      using st(5) by simp
    note w = execute_stage_follows [OF st(1) f assms(4) [unfolded At_execute] x hyp]
    show ?thesis using assms(2,3) w bus' st(5) At_execute by (simp add: clear_mid_def)
  next
    case At_writeback
    note w = writeback_stage_follows [OF f assms(4) [unfolded At_writeback]]
    show ?thesis using assms(2) w bus' At_writeback by (simp add: clear_mid_def)
  next
    case At_memory
    have m: "mem_ok (c_mem C) (s_mem s') \<and> s' = s\<lparr>s_mem := s_mem s'\<rparr>"
      by (rule memory_stage [OF assms(4) [unfolded At_memory] st(2) bus _ st(4) st(9)])
        (use assms(2) At_memory st(8) in \<open>simp add: clear_mid_def\<close>)
    then obtain m' where s': "s' = s\<lparr>s_mem := m'\<rparr>" by blast
    have "follows_isa C rs s'" using f by (simp add: follows_isa_def s' pipe_of_def)
    moreover have "position C rs s' = position C rs s" by (simp add: s' position_def)
    ultimately show ?thesis using assms(2,3) m bus' At_memory by (simp add: clear_mid_def s')
  qed
qed

lemma clear_stages:
  assumes "clear_start e C old" and "clear_mid C old sts rs s" and "distinct sts"
    and "run_stages e k False old sts s = Some (Inr s')"
  shows "\<exists>rs'. prefix rs rs' \<and> clear_mid C old [] rs' s'"
  using assms(2-4)
proof (induction sts arbitrary: rs s)
  case (Cons st sts)
  obtain s1 where s1: "stage_work e k False old st s = Some (Inr s1)" "run_stages e k False old sts s1 = Some (Inr s')"
    using Cons.prems(3) by (rule run_stages_cons)
  have n: "st \<notin> set sts" "distinct sts" using Cons.prems(2) by simp_all
  from Cons.IH [OF clear_stage [OF assms(1) Cons.prems(1) n(1) s1(1)] n(2) s1(2)]
  show ?case by (blast dest: append_prefixD)
qed auto

lemma clear_startI:
  assumes "simple_program (c_prog C)" and "tie_break (e_pick e)" and "code_inv C rs t s" and "clear_out (s_xports s)"
  shows "clear_start e C s" and "new_RIP (s_xports s) = position C rs s" and "lands C (position C rs s)"
    and "\<not> first_run (s_dec s)" and "follows_isa C rs s"
proof -
  have inv: "queues_ok C rs s" "bus_inv s" "mem_ok (c_mem C) (s_mem s)" "front_start C s t"
    using assms(3) by (simp_all add: code_inv_def)
  have nw: "\<not> restarting s" using inv(1) assms(4) by (auto simp: queues_ok_def)
  then have jump: "change_RIP (s_xports s)" "new_RIP (s_xports s) = position C rs s" "lands C (position C rs s)"
    and f: "follows_isa C rs s"
    using inv(1) assms(4) by (simp_all add: queues_ok_def)
  have first: "\<not> firstRunFlag (s_fetch s)" "\<not> first_run (s_dec s)"
    using inv(4) nw by (auto simp: front_start_def restarting_def split: if_splits)
  show "clear_start e C s" using assms(1,2,4) inv f jump first by (auto simp: clear_start_def follows_isa_def)
  show "new_RIP (s_xports s) = position C rs s" "lands C (position C rs s)" "\<not> first_run (s_dec s)" "follows_isa C rs s"
    by (fact jump first f)+
qed

lemma clear_midI:
  fixes e :: env
  assumes "simple_program (c_prog C)" and "tie_break (e_pick e)" and "code_inv C rs t s" and "clear_out (s_xports s)"
    and "set order = set all_stages"
  shows "clear_mid C s order rs s"
  using clear_startI [OF assms(1-4)] assms(3,5) by (simp add: clear_mid_def code_inv_def all_stages_def)

lemma clear_end:
  fixes e :: env
  assumes "simple_program (c_prog C)" and "tie_break (e_pick e)" and "code_inv C rs0 t s" and "clear_out (s_xports s)"
    and "clear_mid C s [] rs s'"
  shows "code_inv C rs (new_RIP (s_xports s)) s'"
proof -
  note st = clear_startI [OF assms(1-4)]
  have "queues_ok C rs s'" using assms(5) st(2,3) by (simp add: clear_mid_def queues_ok_def restarting_def)
  moreover have "decode_at C rs s' (new_RIP (s_xports s))"
    using assms(3,5) st(4) by (simp add: clear_mid_def decode_at_def restarting_def code_inv_def)
  moreover have "front_start C s' (new_RIP (s_xports s))"
    using assms(5) by (simp add: clear_mid_def front_start_def front_at_def)
  ultimately show ?thesis using assms(5) by (simp add: clear_mid_def code_inv_def)
qed

lemma clear_edge:
  assumes "simple_program (c_prog C)" and "tie_break (e_pick e)" and "code_inv C rs t s" and "clear_out (s_xports s)"
    and "distinct order" and "set order = set all_stages" and "system_edge e order k False s = Some (Inr s')"
  shows "\<exists>rs'. prefix rs rs' \<and> code_inv C rs' (new_RIP (s_xports s)) s'"
proof -
  note st = clear_startI [OF assms(1-4)]
  obtain rs' where rs': "prefix rs rs'" "clear_mid C s [] rs' s'"
    using clear_stages [OF st(1) clear_midI [OF assms(1-4,6)] assms(5)] assms(7) by (auto simp: system_edge_def)
  then show ?thesis using clear_end [OF assms(1-4)] by blast
qed

lemma clear_total:
  assumes "clear_start e C old" and "clear_mid C old (st # sts) rs s" and "asks_in_memory old"
  shows "\<exists>s'. stage_work e k False old st s = Some (Inr s')"
proof -
  have st: "simple_program (c_prog C)" "tie_break (e_pick e)" "d_op (s_xports old) = NONE" "clear_out (s_xports old)"
    "mem_ok (c_mem C) (s_mem old)"
    using assms(1) by (simp_all add: clear_start_def)
  obtain t where t: "front_start C old t" using assms(1) by (auto simp: clear_start_def)
  have f: "follows_isa C rs s" using assms(2) by (simp add: clear_mid_def)
  note total = stage_total [OF st(2) f st(1)]
  show ?thesis
  proof (cases st)
    case At_decode
    have "dec_clear (decoder_inputs False old)" using st(4) by (simp add: decoder_inputs_def)
    then have "decoder_work (e_disasm e) (e_junk e) (decoder_inputs False old) q = Some (Inr q)" for q
      by (simp add: decoder_work_def)
    then show ?thesis by (simp add: At_decode stage_work_def)
  next
    case At_execute
    show ?thesis unfolding At_execute
      by (rule total(2)) (use assms(2) At_execute st(4) in \<open>simp_all add: clear_mid_def\<close>)
  next
    case At_memory
    have "mem_ok (c_mem C) (s_mem s)" using assms(2) At_memory st(5) by (simp add: clear_mid_def)
    from total(3) [OF this t st(3) assms(3)] show ?thesis by (simp add: At_memory)
  qed (use total(1) in simp_all)
qed

lemma clear_run_total:
  assumes "clear_start e C old" and "clear_mid C old sts rs s" and "distinct sts" and "asks_in_memory old"
  shows "\<exists>s'. run_stages e k False old sts s = Some (Inr s')"
  using assms(2,3)
proof (induction sts arbitrary: rs s)
  case (Cons st sts)
  obtain s1 where s1: "stage_work e k False old st s = Some (Inr s1)"
    using clear_total [OF assms(1) Cons.prems(1) assms(4)] by blast
  have n: "st \<notin> set sts" "distinct sts" using Cons.prems(2) by simp_all
  from Cons.IH [OF clear_stage [OF assms(1) Cons.prems(1) n(1) s1] n(2)] s1 show ?case by auto
qed simp

subsection \<open>Runs of the simulator\<close>

text \<open>A program on a simulator: its image and its disassembler.\<close>

definition runs_program :: "env \<Rightarrow> code \<Rightarrow> bool" where
  "runs_program e C \<longleftrightarrow> code_image (e_disasm e) (e_junk e) C \<and> simple_program (c_prog C) \<and> stays_in_code C \<and>
     tie_break (e_pick e)"

text \<open>The states that the simulator reaches from the start with the entry point and the memory of the program, as
  long as fetch hands only lines of the code's region to decode.\<close>

inductive code_run :: "env \<Rightarrow> code \<Rightarrow> nat \<Rightarrow> system \<Rightarrow> bool" for e C where
  code_start: "code_run e C 0 (system_start (c_entry C) brk (c_mem C) pt lga False sp u)"
| code_edge: "code_run e C k s \<Longrightarrow> in_region C s \<Longrightarrow> distinct order \<Longrightarrow> set order = set all_stages \<Longrightarrow>
    system_edge e order k False s = Some (Inr s') \<Longrightarrow> code_run e C (k + 500) s'"

lemma code_run_system: "code_run e C k s \<Longrightarrow> system_at e k s"
  by (induction rule: code_run.induct) (auto intro: system_at.intros)

lemma code_inv_start:
  assumes "lands C (c_entry C)"
  shows "code_inv C [] (c_entry C) (system_start (c_entry C) brk (c_mem C) pt lga False sp u)" (is "code_inv C [] _ ?s")
proof -
  have "pipe_of ?s [] [] = pipe_init brk False sp u" by (simp add: pipe_of_def system_start_def pipe_init_def)
  then have fd: "fed (c_prog C) (pipe_of ?s [] [])" using fed_init by simp
  have "isa_inv (c_prog C) (c_entry C) [] (s_ex ?s) (s_glob ?s)" using isa_inv_init by (simp add: system_start_def)
  moreover have "d_op (s_xports ?s) = NONE" by (simp add: system_start_def exec_ports_init_def)
  ultimately have f: "follows_isa C [] ?s" unfolding follows_isa_def using fd by blast
  have pos: "position C [] ?s = c_entry C" by (simp add: position_def system_start_def globals_init_def isa_start_def)
  have "queues_ok C [] ?s" unfolding queues_ok_def pos using f assms
    by (simp add: restarting_def) (simp add: system_start_def globals_init_def exec_ports_init_def)
  moreover have "bus_inv ?s" using system_start_ok by (simp add: system_ok_def)
  moreover have "mem_ok (c_mem C) (s_mem ?s)" by (simp add: mem_ok_def lines_only_def system_start_def memory_new_def)
  moreover have "decode_at C [] ?s (c_entry C)" unfolding decode_at_def pos
    by (simp add: restarting_def) (simp add: system_start_def globals_init_def)
  moreover have "front_start C ?s (c_entry C)" by (simp add: front_start_def system_start_def memory_new_def core_do_reset_def)
  ultimately show ?thesis unfolding code_inv_def by blast
qed

lemma code_edge_inv:
  assumes "runs_program e C" and "code_inv C rs t s" and "in_region C s"
    and "distinct order" and "set order = set all_stages" and "system_edge e order k False s = Some (Inr s')"
  shows "\<exists>rs'. prefix rs rs' \<and>
    code_inv C rs' (if clear_out (s_xports s) then new_RIP (s_xports s) else after_line s t) s'"
proof -
  have p: "code_image (e_disasm e) (e_junk e) C" "simple_program (c_prog C)" "stays_in_code C" "tie_break (e_pick e)"
    using assms(1) by (simp_all add: runs_program_def)
  show ?thesis
  proof (cases "clear_out (s_xports s)")
    case True
    then show ?thesis using clear_edge [OF p(2,4) assms(2) True assms(4-6)] by simp
  next
    case False
    then show ?thesis using plain_edge [OF plain_startI [OF p assms(2) False assms(3)] assms(2,4-6)] by simp
  qed
qed

lemma code_edge_total:
  assumes "runs_program e C" and "code_inv C rs t s" and "in_region C s" and "asks_in_memory s"
    and "distinct order" and "set order = set all_stages"
  shows "\<exists>s'. system_edge e order k False s = Some (Inr s')"
proof -
  have p: "code_image (e_disasm e) (e_junk e) C" "simple_program (c_prog C)" "stays_in_code C" "tie_break (e_pick e)"
    using assms(1) by (simp_all add: runs_program_def)
  show ?thesis unfolding system_edge_def
  proof (cases "clear_out (s_xports s)")
    case True
    show "\<exists>s'. run_stages e k False s order s = Some (Inr s')"
      by (rule clear_run_total [OF clear_startI(1) [OF p(2,4) assms(2) True] clear_midI [OF p(2,4) assms(2) True assms(6)] assms(5,4)])
  next
    case False
    show "\<exists>s'. run_stages e k False s order s = Some (Inr s')"
      by (rule plain_run_total [OF plain_startI [OF p assms(2) False assms(3)] plain_midI [OF assms(2,6)] assms(5,4)])
  qed
qed

lemma code_run_inv:
  assumes "code_run e C k s" and "runs_program e C"
  shows "\<exists>rs t. code_inv C rs t s"
  using assms(1)
proof (induction rule: code_run.induct)
  case (code_start brk pt lga sp u)
  have "lands C (c_entry C)" using assms(2) by (simp add: runs_program_def stays_in_code_def)
  from code_inv_start [OF this] show ?case by blast
next
  case (code_edge k s order s')
  then show ?case using code_edge_inv [OF assms(2)] by blast
qed

text \<open>What the invariant says of the machine.\<close>

lemma code_inv_machine:
  assumes "code_inv C rs t s" and "simple_program (c_prog C)"
  shows "let P = c_prog C; n = length rs; m = n + length (ew_uop_queue (s_glob s)) in
    (\<exists>t. isa_run P n (isa_start (c_entry C)) = Inr t \<and>
       (\<forall>r. is_gpr r \<and> r \<noteq> UD_R_RSP \<longrightarrow> arf_get (regfile (s_glob s)) r = arf_get (i_regs t) r)) \<and>
    (\<exists>t. isa_run P m (isa_start (c_entry C)) = Inr t \<and> eflags (s_ex s) = i_flags t \<and>
       (\<not> clear_out (s_xports s) \<longrightarrow> (\<forall>u us. de_uop_queue (s_glob s) @ dd_uop_queue (s_glob s) = u # us \<longrightarrow> address u = i_pc t))) \<and>
    (\<forall>j < n. \<exists>t. isa_run P j (isa_start (c_entry C)) = Inr t \<and> rs ! j = i_pc t) \<and>
    (\<exists>ds. fed P (pipe_of s ds rs)) \<and> mem (s_mem s) = c_mem C"
proof -
  let ?P = "c_prog C" and ?pc = "c_entry C"
  define n where "n = length rs"
  define m where "m = n + length (ew_uop_queue (s_glob s))"
  have q: "queues_ok C rs s" and mem: "mem (s_mem s) = c_mem C" using assms(1) by (simp_all add: code_inv_def mem_ok_def)
  then have inv: "isa_inv ?P ?pc rs (s_ex s) (s_glob s)" and fd: "\<exists>ds. fed ?P (pipe_of s ds rs)"
    by (simp_all add: queues_ok_def follows_isa_def)
  have rs: "rs = map (\<lambda>j. i_pc (isa_at ?P ?pc j)) [0..<n]" and ag: "agree (regfile (s_glob s)) (i_regs (isa_at ?P ?pc n))"
    and ex: "executed (isa_at ?P ?pc) m (s_ex s)"
    using inv unfolding isa_inv_def Let_def m_def n_def by blast+
  have "rs ! j = i_pc (isa_at ?P ?pc j)" if "j < n" for j
    by (subst rs) (use that in simp)
  moreover have "is_gpr r \<and> r \<noteq> UD_R_RSP \<Longrightarrow> arf_get (regfile (s_glob s)) r = arf_get (i_regs (isa_at ?P ?pc n)) r" for r
    using ag unfolding agree_def operand_reg_def by blast
  moreover have "eflags (s_ex s) = i_flags (isa_at ?P ?pc m)" using ex by (simp add: executed_def)
  moreover have "address u = i_pc (isa_at ?P ?pc m)"
    if "\<not> clear_out (s_xports s)" "de_uop_queue (s_glob s) @ dd_uop_queue (s_glob s) = u # us" for u us
  proof (cases "restarting s")
    case True
    then show ?thesis using q that(2) by (simp add: queues_ok_def)
  next
    case False
    then have "chain ?P (position C rs s) (map address (u # us)) (last_good_addr (s_dec s))"
      using q that by (simp add: queues_ok_def del: map_append)
    then show ?thesis by (simp add: position_def m_def n_def)
  qed
  ultimately show ?thesis using isa_run_at [OF assms(2)] fd mem unfolding Let_def n_def [symmetric] m_def [symmetric] by blast
qed

end
