(* ===== verification/CodeBoot.thy ===== *)
theory CodeBoot
  imports CodeRun
begin

text \<open>
  The first instruction on the wired simulator, from the reset to its retirement: after the wait for the first line
  one edge each for decode, dispatch, execute and writeback, because every stage sees the ready line of the stage
  before as it was before the edge. And, on all the states that a program in memory reaches, the theorem that they
  are those of the machine.
\<close>

subsection \<open>Edges while fetch waits\<close>

lemma code_run_waiting:
  assumes "\<forall>order \<in> set os. distinct order \<and> set order = set all_stages"
    and "system_run e os 0 (system_start (c_entry C) brk (c_mem C) pt lga False sp u) = Some (Inr s)"
    and "\<And>j. j < length os \<Longrightarrow> \<exists>s. system_run e (take j os) 0 (system_start (c_entry C) brk (c_mem C) pt lga False sp u) =
      Some (Inr s) \<and> \<not> f_out_ready (s_fports s)"
  shows "code_run e C (500 * length os) s"
  using assms
proof (induction os arbitrary: s rule: rev_induct)
  case Nil
  then show ?case using code_start [of e C brk pt lga sp u] by simp
next
  case (snoc order os)
  let ?st = "system_start (c_entry C) brk (c_mem C) pt lga False sp u"
  obtain s1 where s1: "system_run e os 0 ?st = Some (Inr s1)" "\<not> f_out_ready (s_fports s1)"
    using snoc.prems(3) [of "length os"] by auto
  have "\<exists>s. system_run e (take j os) 0 ?st = Some (Inr s) \<and> \<not> f_out_ready (s_fports s)" if "j < length os" for j
    using snoc.prems(3) [of j] that by simp
  then have "code_run e C (500 * length os) s1" using snoc.IH [OF _ s1(1)] snoc.prems(1) by simp
  moreover have "in_region C s1" using s1(2) by (simp add: in_region_def)
  moreover have "system_edge e order (500 * length os) False s1 = Some (Inr s)"
    using snoc.prems(2) s1(1) by (auto simp: system_run_append split: option.splits sum.splits)
  ultimately show ?case using code_edge [of e C "500 * length os" s1 order s] snoc.prems(1) by (simp add: add.commute)
qed

lemma delivers_det: "delivers disasm s p xs c \<Longrightarrow> delivers disasm s p ys d \<Longrightarrow> xs = ys"
proof (induction arbitrary: ys d rule: delivers.induct)
  case (del_stop p u p')
  from del_stop.prems show ?case by cases (simp_all add: del_stop.hyps)
next
  case (del_cut p n u p' u' p'')
  from del_cut.prems show ?case by cases (simp_all add: del_cut.hyps)
next
  case (del_more p n u p' xs c)
  from del_more.prems show ?case
  proof cases
    case (del_more n' v q zs)
    then show ?thesis using del_more.hyps \<open>disasm s p = (n, u, p')\<close> del_more.IH by simp
  qed (simp_all add: del_more.hyps)
qed

subsection \<open>The lines of the start\<close>

text \<open>The code from the line of the entry point on: four lines of the region, and five of the memory.\<close>

definition boots :: "env \<Rightarrow> code \<Rightarrow> bool" where
  "boots e C \<longleftrightarrow> runs_program e C \<and> 0xffff < line_of (c_entry C) \<and> line_of (c_entry C) < mem_size - 80 \<and>
     (\<forall>i < 64. line_of (c_entry C) + word_of_nat i \<in> c_region C) \<and>
     (\<exists>xs c. delivers (e_disasm e) (hex_text (code_bytes (c_mem C) (c_entry C) (16 - unat (c_entry C mod 16)))) 0 xs c \<and> xs \<noteq> [])"

text \<open>Fetch is \<open>j\<close> lines behind the entry point.\<close>

definition lines_ahead :: "code \<Rightarrow> nat \<Rightarrow> addr \<Rightarrow> bool" where
  "lines_ahead C n t \<longleftrightarrow> (\<exists>j \<le> n. line_of t = line_of (c_entry C) + word_of_nat (16 * j))"

lemma lines_ahead_mono: "lines_ahead C m t \<Longrightarrow> m \<le> n \<Longrightarrow> lines_ahead C n t"
  using order_trans by (auto simp: lines_ahead_def)

lemma lines_ahead_next:
  assumes "lines_ahead C n t"
  shows "lines_ahead C (Suc n) (after_line s t)" and "lines_ahead C (Suc n) (line_of t + 16)"
proof -
  obtain j where j: "j \<le> n" "line_of t = line_of (c_entry C) + word_of_nat (16 * j)"
    using assms by (auto simp: lines_ahead_def)
  have "line_of (line_of t + 16) = line_of (c_entry C) + word_of_nat (16 * Suc j)"
  proof -
    have "line_of (line_of t + 16) = line_of t + 16" by (rule line_of_next)
    then show ?thesis by (simp add: j(2))
  qed
  then show "lines_ahead C (Suc n) (line_of t + 16)" using j(1) by (metis Suc_le_mono lines_ahead_def)
  moreover have "lines_ahead C (Suc n) t" using assms by (rule lines_ahead_mono) simp
  ultimately show "lines_ahead C (Suc n) (after_line s t)" by (simp add: after_line_def)
qed

lemma lines_ahead_bound:
  assumes "boots e C" and "lines_ahead C 4 t"
  shows "0xffff < line_of t \<and> line_of t < mem_size"
proof -
  obtain j where j: "j \<le> 4" "line_of t = line_of (c_entry C) + word_of_nat (16 * j)"
    using assms(2) by (auto simp: lines_ahead_def)
  have b: "0xffff < line_of (c_entry C)" "line_of (c_entry C) < mem_size - 80" using assms(1) by (simp_all add: boots_def)
  have "unat (line_of (c_entry C)) < unat (mem_size - 80)" using b(2) by (simp add: word_less_nat_alt)
  then have "unat (line_of (c_entry C)) + 16 * j < 64 * 1024 * 1024" using j(1) by (simp add: mem_size_def)
  then have "unat (line_of t) = unat (line_of (c_entry C)) + 16 * j"
    unfolding j(2) by (simp add: unat_word_ariths unat_of_nat take_bit_nat_def)
  then show ?thesis using b j(1) by (simp add: word_less_nat_alt mem_size_def)
qed

lemma boot_lines:
  assumes "boots e C" and "code_inv C rs t s" and "lines_ahead C 3 t"
  shows "in_region C s" and "asks_in_memory s"
proof -
  have front: "front_start C s t" using assms(2) by (simp add: code_inv_def)
  obtain j where j: "j \<le> 3" "line_of t = line_of (c_entry C) + word_of_nat (16 * j)"
    using assms(3) by (auto simp: lines_ahead_def)
  have "line_of t + word_of_nat i \<in> c_region C" if "i < 16" for i
  proof -
    have "line_of t + word_of_nat i = line_of (c_entry C) + word_of_nat (16 * j + i)" by (simp add: j(2))
    moreover have "16 * j + i < 64" using j(1) that by simp
    ultimately show ?thesis using assms(1) unfolding boots_def by metis
  qed
  moreover have "f_out_ready (s_fports s) \<Longrightarrow> out_addr (s_fports s) = line_of t"
    using front by (auto simp: front_start_def front_at_def line_at_def split: if_splits)
  ultimately show "in_region C s" by (simp add: in_region_def)
  have "lines_ahead C 4 t" "lines_ahead C 4 (line_of t + 16)"
    using lines_ahead_next(2) [OF assms(3)] lines_ahead_mono [OF assms(3), of 4] by simp_all
  then have "0xffff < line_of t \<and> line_of t < mem_size" "0xffff < line_of (line_of t + 16) \<and> line_of (line_of t + 16) < mem_size"
    using lines_ahead_bound [OF assms(1)] by blast+
  moreover have "i_op (s_fports s) = NONE \<or> i_addr (s_fports s) \<in> {line_of t, line_of (line_of t + 16)}"
    using front by (auto simp: front_start_def front_at_def split: if_splits)
  ultimately show "asks_in_memory s" by (auto simp: asks_in_memory_def)
qed

subsection \<open>What the handlers do to the queues\<close>

definition same_queues :: "system \<Rightarrow> system \<Rightarrow> bool" where
  "same_queues s s' \<longleftrightarrow> dd_uop_queue (s_glob s') = dd_uop_queue (s_glob s) \<and> de_uop_queue (s_glob s') = de_uop_queue (s_glob s) \<and>
     ew_uop_queue (s_glob s') = ew_uop_queue (s_glob s)"

lemma outer_queues:
  assumes "stage_work e k False old st s = Some (Inr s')" and "st \<in> {At_fetch, At_memory}"
  shows "same_queues s s'"
  using assms by (auto simp: stage_work_def same_queues_def split: prod.splits sum.splits dest!: fetch_work_frame)

lemma decode_queues:
  assumes "stage_work e k False old At_decode s = Some (Inr s')"
  shows "(\<exists>us. dd_uop_queue (s_glob s') = dd_uop_queue (s_glob s) @ us) \<and> de_uop_queue (s_glob s') = de_uop_queue (s_glob s) \<and>
    ew_uop_queue (s_glob s') = ew_uop_queue (s_glob s) \<and> (dec_out_ready (s_dec s) \<longrightarrow> dec_out_ready (s_dec s'))"
proof -
  obtain d g where w: "decoder_work (e_disasm e) (e_junk e) (decoder_inputs False old) (s_dec s, s_glob s) = Some (Inr (d, g))"
    and s': "s' = s\<lparr>s_dec := d, s_glob := g\<rparr>"
    using assms by (auto simp: stage_work_def split: option.splits sum.splits)
  have "dec_out_ready (s_dec s) \<longrightarrow> dec_out_ready d"
    using w by (auto simp: decoder_work_def split: if_splits option.splits sum.splits)
  then show ?thesis using decoder_work_frame [OF w] by (auto simp: s')
qed

lemma dispatch_queues:
  assumes "follows_isa C rs s" and "stage_work e k False old At_dispatch s = Some (Inr s')"
  shows "ew_uop_queue (s_glob s') = ew_uop_queue (s_glob s)"
    and "\<not> clear_out (s_xports old) \<Longrightarrow> \<not> dec_out_ready (s_dec old) \<Longrightarrow> same_queues s s' \<and> \<not> disp_out_ready (s_disp s')"
    and "\<not> clear_out (s_xports old) \<Longrightarrow> dec_out_ready (s_dec old) \<Longrightarrow> dd_uop_queue (s_glob s) \<noteq> [] \<Longrightarrow>
      de_uop_queue (s_glob s') \<noteq> [] \<and> disp_out_ready (s_disp s')"
    and "\<not> clear_out (s_xports old) \<Longrightarrow> de_uop_queue (s_glob s) \<noteq> [] \<Longrightarrow> same_queues s s'"
proof -
  let ?g = "s_glob s" and ?clr = "clear_out (s_xports old)" and ?rdy = "dec_out_ready (s_dec old)"
  obtain d g where w: "dispatch_work False ?clr ?rdy (s_disp s) ?g = (d, g)" by (metis surj_pair)
  then have s': "s' = s\<lparr>s_disp := d, s_glob := g\<rparr>" using assms(2) by (simp add: stage_work_def)
  have g: "g = dispatch_loop (address (hd (dd_uop_queue ?g))) 0 ?g \<and> disp_out_ready d"
    if "\<not> ?clr" "?rdy" "dd_uop_queue ?g \<noteq> []" "de_uop_queue ?g = []"
    using w that by (auto simp: dispatch_work_def Let_def)
  have batch: "ew_uop_queue g = ew_uop_queue ?g \<and> de_uop_queue g \<noteq> [] \<and> disp_out_ready d"
    if "\<not> ?clr" "?rdy" "dd_uop_queue ?g \<noteq> []" "de_uop_queue ?g = []"
  proof -
    note ne = that(3)
    obtain u us where q: "dd_uop_queue ?g = u # us" using ne by (cases "dd_uop_queue ?g") auto
    have "dispatch_batch (u # us) = 1"
      using assms(1) q by (intro one_instruction) (simp add: follows_isa_def isa_inv_def Let_def)
    then show ?thesis using g [OF that] q that dispatch_loop_batch [of ?g] by simp
  qed
  have rest: "ew_uop_queue g = ew_uop_queue ?g"
    if "\<not> (\<not> ?clr \<and> ?rdy \<and> dd_uop_queue ?g \<noteq> [] \<and> de_uop_queue ?g = [])"
    using w that by (auto simp: dispatch_work_def Let_def split: if_splits)
  show "ew_uop_queue (s_glob s') = ew_uop_queue (s_glob s)" using batch rest by (auto simp: s')
  show "same_queues s s' \<and> \<not> disp_out_ready (s_disp s')" if "\<not> ?clr" "\<not> ?rdy"
    using w that by (auto simp: s' same_queues_def dispatch_work_def Let_def)
  show "de_uop_queue (s_glob s') \<noteq> [] \<and> disp_out_ready (s_disp s')" if "\<not> ?clr" "?rdy" "dd_uop_queue ?g \<noteq> []"
  proof (cases "de_uop_queue ?g = []")
    case True
    then show ?thesis using batch that by (simp add: s')
  next
    case False
    then show ?thesis using w that by (auto simp: s' dispatch_work_def Let_def)
  qed
  show "same_queues s s'" if "\<not> ?clr" "de_uop_queue ?g \<noteq> []"
    using w that by (auto simp: s' same_queues_def dispatch_work_def Let_def split: if_splits)
qed

lemma execute_queues:
  assumes "simple_program (c_prog C)" and "follows_isa C rs s" and "stage_work e k False old At_execute s = Some (Inr s')"
    and "s_xports s = s_xports old"
    and "\<not> clear_out (s_xports old) \<longrightarrow> (\<forall>u \<in> set (de_uop_queue (s_glob s)). address u = position C rs s)"
  shows "ew_uop_queue (s_glob s) \<noteq> [] \<Longrightarrow> ew_uop_queue (s_glob s') \<noteq> []"
    and "\<not> clear_out (s_xports old) \<Longrightarrow> \<not> disp_out_ready (s_disp old) \<Longrightarrow> same_queues s s' \<and> \<not> out_ready (s_xports s') \<and>
      \<not> clear_out (s_xports s')"
    and "\<not> clear_out (s_xports old) \<Longrightarrow> disp_out_ready (s_disp old) \<Longrightarrow> de_uop_queue (s_glob s) \<noteq> [] \<Longrightarrow>
      ew_uop_queue (s_glob s') \<noteq> [] \<and> out_ready (s_xports s')"
proof -
  let ?x = "s_ex s" and ?p = "s_xports s" and ?g = "s_glob s" and ?i = "exec_inputs False old"
  let ?h = "(e_host e)\<lparr>now := word_of_nat k\<rparr>"
  obtain x p g where w: "exec_work ?h ?i (?x, ?p, ?g) = Inr (x, p, g)" and s': "s_xports s' = p" "s_glob s' = g"
    using assms(3) by (auto simp: stage_work_def execute_stage_def split: sum.splits)
  have inv: "isa_inv (c_prog C) (c_entry C) rs ?x ?g" using assms(2) by (simp add: follows_isa_def)
  note ex = executes_position [OF inv]
  have i: "\<not> in_reset ?i" "in_clear ?i = clear_out ?p" "in_ready ?i = disp_out_ready (s_disp old)"
    using assms(4) by (simp_all add: exec_inputs_def)
  show "ew_uop_queue (s_glob s') \<noteq> []" if "ew_uop_queue (s_glob s) \<noteq> []"
  proof (cases "exec_accepts ?i ?x ?g")
    case False
    then show ?thesis using exec_work_rests [OF w i(1) ex(1,2)] that s' by auto
  next
    case True
    then obtain u where u: "de_uop_queue ?g = [u]" using ex(2) by (cases "de_uop_queue ?g") (auto simp: exec_accepts_def)
    have "\<not> clear_out ?p" using True i(2) by (simp add: exec_accepts_def)
    then have "address u = i_pc (isa_at (c_prog C) (c_entry C) (length rs + length (ew_uop_queue ?g)))"
      using assms(4,5) u by (simp add: position_def)
    from isa_inv_accepts [OF assms(1) inv True u this w] show ?thesis using s' by auto
  qed
  show "same_queues s s' \<and> \<not> out_ready (s_xports s') \<and> \<not> clear_out (s_xports s')"
    if "\<not> clear_out (s_xports old)" "\<not> disp_out_ready (s_disp old)"
    using w that i ex(1) assms(4) by (auto simp: exec_work_def exec_issue_def same_queues_def s' Let_def split: if_splits)
  show "ew_uop_queue (s_glob s') \<noteq> [] \<and> out_ready (s_xports s')"
    if "\<not> clear_out (s_xports old)" "disp_out_ready (s_disp old)" "de_uop_queue ?g \<noteq> []"
  proof (cases "length (ew_uop_queue ?g) \<le> 1")
    case True
    note ne = that(3)
    obtain u where u: "de_uop_queue ?g = [u]" using ex(2) ne by (cases "de_uop_queue ?g") auto
    have at: "address u = i_pc (isa_at (c_prog C) (c_entry C) (length rs + length (ew_uop_queue ?g)))"
      using assms(5) that(1) u by (simp add: position_def)
    then have "firstrun ?x \<or> address u = expected_addr ?x" using ex(3) by auto
    then have acc: "exec_accepts ?i ?x ?g" using that True i ex(1) u assms(4) by (auto simp: exec_accepts_def)
    from isa_inv_accepts [OF assms(1) inv acc u at w] show ?thesis using s' by (auto simp: follows_def)
  next
    case False
    then show ?thesis using w that i ex(1) assms(4) by (auto simp: exec_work_def exec_issue_def s' Let_def)
  qed
qed

lemma writeback_queues:
  assumes "stage_work e k False old At_writeback s = Some (Inr s')"
  shows "\<not> out_ready (s_xports old) \<Longrightarrow> same_queues s s'"
    and "dd_uop_queue (s_glob s') = dd_uop_queue (s_glob s) \<and> de_uop_queue (s_glob s') = de_uop_queue (s_glob s)"
    and "out_ready (s_xports old) \<Longrightarrow> ew_uop_queue (s_glob s) \<noteq> [] \<Longrightarrow> retired_by At_writeback s s' \<noteq> []"
  using assms
  by (auto simp: stage_work_def writeback_work_def same_queues_def retired_by_def Let_def split: if_splits list.splits)

subsection \<open>The four edges\<close>

text \<open>A property that every handler of an edge keeps holds at its end.\<close>

lemma plain_phase:
  assumes "plain_start e C old t" and "plain_mid C old t sts rs s" and "distinct sts"
    and "run_stages e k False old sts s = Some (Inr s')" and "Q (set sts) rs s"
    and "\<And>st sts rs s s'. plain_mid C old t (st # sts) rs s \<Longrightarrow> st \<notin> set sts \<Longrightarrow> Q (set (st # sts)) rs s \<Longrightarrow>
      stage_work e k False old st s = Some (Inr s') \<Longrightarrow> Q (set sts) (rs @ retired_by st s s') s'"
  shows "\<exists>rs'. plain_mid C old t [] rs' s' \<and> Q {} rs' s'"
  using assms(2-5)
proof (induction sts arbitrary: rs s)
  case (Cons st sts)
  obtain s1 where s1: "stage_work e k False old st s = Some (Inr s1)" "run_stages e k False old sts s1 = Some (Inr s')"
    using Cons.prems(3) by (rule run_stages_cons)
  have n: "st \<notin> set sts" "distinct sts" using Cons.prems(2) by simp_all
  show ?case
    by (rule Cons.IH [OF plain_stage [OF assms(1) Cons.prems(1) n(1) s1(1)] n(2) s1(2)])
      (rule assms(6) [OF Cons.prems(1) n(1) Cons.prems(4) s1(1)])
qed auto

lemma clear_phase:
  assumes "clear_start e C old" and "clear_mid C old sts rs s" and "distinct sts"
    and "run_stages e k False old sts s = Some (Inr s')" and "Q (set sts) rs s"
    and "\<And>st sts rs s s'. clear_mid C old (st # sts) rs s \<Longrightarrow> st \<notin> set sts \<Longrightarrow> Q (set (st # sts)) rs s \<Longrightarrow>
      stage_work e k False old st s = Some (Inr s') \<Longrightarrow> Q (set sts) (rs @ retired_by st s s') s'"
  shows "\<exists>rs'. clear_mid C old [] rs' s' \<and> Q {} rs' s'"
  using assms(2-5)
proof (induction sts arbitrary: rs s)
  case (Cons st sts)
  obtain s1 where s1: "stage_work e k False old st s = Some (Inr s1)" "run_stages e k False old sts s1 = Some (Inr s')"
    using Cons.prems(3) by (rule run_stages_cons)
  have n: "st \<notin> set sts" "distinct sts" using Cons.prems(2) by simp_all
  show ?case
    by (rule Cons.IH [OF clear_stage [OF assms(1) Cons.prems(1) n(1) s1(1)] n(2) s1(2)])
      (rule assms(6) [OF Cons.prems(1) n(1) Cons.prems(4) s1(1)])
qed auto

text \<open>Decode has a line; dispatch and execute have nothing.\<close>

definition decoding :: "system \<Rightarrow> stage set \<Rightarrow> system \<Rightarrow> bool" where
  "decoding old S s \<longleftrightarrow>
     (if At_decode \<in> S then s_dec s = s_dec old else dec_out_ready (s_dec s) \<and> dd_uop_queue (s_glob s) \<noteq> []) \<and>
     (At_dispatch \<in> S \<or> \<not> disp_out_ready (s_disp s)) \<and> (At_execute \<in> S \<or> \<not> clear_out (s_xports s))"

definition dispatching :: "stage set \<Rightarrow> system \<Rightarrow> bool" where
  "dispatching S s \<longleftrightarrow>
     (if At_dispatch \<in> S then dd_uop_queue (s_glob s) \<noteq> [] else de_uop_queue (s_glob s) \<noteq> [] \<and> disp_out_ready (s_disp s)) \<and>
     (At_execute \<in> S \<or> \<not> out_ready (s_xports s) \<and> \<not> clear_out (s_xports s))"

definition executing :: "stage set \<Rightarrow> system \<Rightarrow> bool" where
  "executing S s \<longleftrightarrow>
     (if At_execute \<in> S then de_uop_queue (s_glob s) \<noteq> [] else ew_uop_queue (s_glob s) \<noteq> [] \<and> out_ready (s_xports s))"

definition retiring :: "stage set \<Rightarrow> addr list \<Rightarrow> system \<Rightarrow> bool" where
  "retiring S rs s \<longleftrightarrow> (if At_writeback \<in> S then ew_uop_queue (s_glob s) \<noteq> [] else rs \<noteq> [])"

lemma mid_executes:
  assumes "plain_start e C old t" and "plain_mid C old t (At_execute # sts) rs s"
    and "stage_work e k False old At_execute s = Some (Inr s')"
  shows "\<not> disp_out_ready (s_disp old) \<Longrightarrow> same_queues s s' \<and> \<not> out_ready (s_xports s') \<and> \<not> clear_out (s_xports s')"
    and "disp_out_ready (s_disp old) \<Longrightarrow> de_uop_queue (s_glob s) \<noteq> [] \<Longrightarrow> ew_uop_queue (s_glob s') \<noteq> [] \<and> out_ready (s_xports s')"
    and "ew_uop_queue (s_glob s) \<noteq> [] \<Longrightarrow> ew_uop_queue (s_glob s') \<noteq> []"
proof -
  have q: "queues_ok C rs s" "s_xports s = s_xports old" using assms(2) by (simp_all add: plain_mid_def)
  have st: "simple_program (c_prog C)" "\<not> clear_out (s_xports old)" using assms(1) by (simp_all add: plain_start_def)
  have f: "follows_isa C rs s" using q(1) by (simp add: queues_ok_def)
  have here: "\<not> clear_out (s_xports old) \<longrightarrow> (\<forall>u \<in> set (de_uop_queue (s_glob s)). address u = position C rs s)"
    using queued_at_position [OF q(1)] q(2) by simp
  note ex = execute_queues [OF st(1) f assms(3) q(2) here]
  show "\<not> disp_out_ready (s_disp old) \<Longrightarrow> same_queues s s' \<and> \<not> out_ready (s_xports s') \<and> \<not> clear_out (s_xports s')"
    "disp_out_ready (s_disp old) \<Longrightarrow> de_uop_queue (s_glob s) \<noteq> [] \<Longrightarrow> ew_uop_queue (s_glob s') \<noteq> [] \<and> out_ready (s_xports s')"
    "ew_uop_queue (s_glob s) \<noteq> [] \<Longrightarrow> ew_uop_queue (s_glob s') \<noteq> []"
    using ex st(2) by blast+
qed

lemma mid_dispatches:
  assumes "plain_start e C old t" and "plain_mid C old t (st # sts) rs s"
    and "stage_work e k False old At_dispatch s = Some (Inr s')"
  shows "ew_uop_queue (s_glob s') = ew_uop_queue (s_glob s)"
    and "\<not> dec_out_ready (s_dec old) \<Longrightarrow> same_queues s s' \<and> \<not> disp_out_ready (s_disp s')"
    and "dec_out_ready (s_dec old) \<Longrightarrow> dd_uop_queue (s_glob s) \<noteq> [] \<Longrightarrow> de_uop_queue (s_glob s') \<noteq> [] \<and> disp_out_ready (s_disp s')"
    and "de_uop_queue (s_glob s) \<noteq> [] \<Longrightarrow> same_queues s s'"
proof -
  have f: "follows_isa C rs s" using assms(2) by (simp add: plain_mid_def queues_ok_def)
  have "\<not> clear_out (s_xports old)" using assms(1) by (simp add: plain_start_def)
  then show "ew_uop_queue (s_glob s') = ew_uop_queue (s_glob s)"
    "\<not> dec_out_ready (s_dec old) \<Longrightarrow> same_queues s s' \<and> \<not> disp_out_ready (s_disp s')"
    "dec_out_ready (s_dec old) \<Longrightarrow> dd_uop_queue (s_glob s) \<noteq> [] \<Longrightarrow> de_uop_queue (s_glob s') \<noteq> [] \<and> disp_out_ready (s_disp s')"
    "de_uop_queue (s_glob s) \<noteq> [] \<Longrightarrow> same_queues s s'"
    using dispatch_queues [OF f assms(3)] by blast+
qed

lemmas keeps = stage_keeps_exec stage_keeps_decode stage_keeps_dispatch

lemma dispatching_stage:
  assumes "plain_start e C old t" and "dec_out_ready (s_dec old)" "\<not> disp_out_ready (s_disp old)"
    and "plain_mid C old t (st # sts) rs s" and "st \<notin> set sts" and "dispatching (set (st # sts)) s"
    and "stage_work e k False old st s = Some (Inr s')"
  shows "dispatching (set sts) s'"
proof (cases st)
  case At_decode
  then show ?thesis
    using assms(6) decode_queues [of e k old s s'] keeps [OF assms(7)] assms(7) by (auto simp: dispatching_def)
next
  case At_dispatch
  then show ?thesis using assms(2,5-7) mid_dispatches [OF assms(1,4)] keeps [OF assms(7)] by (auto simp: dispatching_def)
next
  case At_execute
  then show ?thesis using assms mid_executes(1) [OF assms(1)] keeps [OF assms(7)] by (auto simp: dispatching_def same_queues_def)
next
  case At_writeback
  then show ?thesis using assms(6,7) writeback_queues(2) [of e k old s s'] keeps [OF assms(7)] by (auto simp: dispatching_def)
qed (use assms(6,7) outer_queues [OF assms(7)] keeps [OF assms(7)] in \<open>auto simp: dispatching_def same_queues_def\<close>)

lemma executing_stage:
  assumes "plain_start e C old t" and "disp_out_ready (s_disp old)" "\<not> out_ready (s_xports old)"
    and "plain_mid C old t (st # sts) rs s" and "st \<notin> set sts" and "executing (set (st # sts)) s"
    and "stage_work e k False old st s = Some (Inr s')"
  shows "executing (set sts) s'"
proof (cases st)
  case At_decode
  then show ?thesis
    using assms(6) decode_queues [of e k old s s'] keeps [OF assms(7)] assms(7) by (auto simp: executing_def)
next
  case At_dispatch
  then show ?thesis using assms(6,7) mid_dispatches [OF assms(1,4)] keeps [OF assms(7)]
    by (auto simp: executing_def same_queues_def)
next
  case At_execute
  then show ?thesis using assms mid_executes(2) [OF assms(1)] by (auto simp: executing_def)
next
  case At_writeback
  then show ?thesis using assms(3,6,7) writeback_queues(1) [of e k old s s'] keeps [OF assms(7)]
    by (auto simp: executing_def same_queues_def)
qed (use assms(6,7) outer_queues [OF assms(7)] keeps [OF assms(7)] in \<open>auto simp: executing_def same_queues_def\<close>)

lemma decoding_stage:
  assumes "plain_start e C old t" and "f_out_ready (s_fports old)" "first_run (s_dec old)"
    and "\<not> dec_out_ready (s_dec old)" "\<not> disp_out_ready (s_disp old)"
    and "delivers (e_disasm e) (hex_text (code_bytes (c_mem C) t (16 - unat (t mod 16)))) 0 xs c" "xs \<noteq> []"
    and "plain_mid C old t (st # sts) rs s" and "st \<notin> set sts" and "decoding old (set (st # sts)) s"
    and "stage_work e k False old st s = Some (Inr s')"
  shows "decoding old (set sts) s'"
proof (cases st)
  case At_decode
  have d: "s_dec s = s_dec old" using assms(10) At_decode by (simp add: decoding_def)
  then have wait: "restarting s" using assms(3) by (simp add: restarting_def)
  have at: "queues_ok C rs s" "decode_at C rs s t" using assms(8) At_decode by (simp_all add: plain_mid_def)
  then have "lands C t" using wait by (simp add: queues_ok_def decode_at_def)
  then have start: "restarting s \<longrightarrow> lands C t" "\<not> restarting s \<longrightarrow> last_good_addr (s_dec s) \<in> c_starts C" using wait by simp_all
  have line: "line_at (c_mem C) (s_fports old) t" "\<forall>i < 16. line_of t + word_of_nat i \<in> c_region C"
    and img: "code_image (e_disasm e) (e_junk e) C" and clr: "\<not> clear_out (s_xports old)"
    using assms(1,2) by (auto simp: plain_start_def front_start_def front_at_def split: if_splits)
  from decode_line [OF img line at(2) start, of False] wait obtain as ys d1 g1 c' where
    w: "decode_opcodes (e_disasm e) (e_junk e) (decoder_inputs False old) (s_dec s, s_glob s) = Some (Inr (d1, g1))"
      "dd_uop_queue g1 = dd_uop_queue (s_glob s) @ map (c_prog C) as"
    and ys: "delivers (e_disasm e) (hex_text (code_bytes (c_mem C) t (16 - unat (t mod 16)))) 0 ys c'" "length as = length ys"
    unfolding Let_def by (elim exE conjE) (auto simp del: map_append)
  have "as \<noteq> []" using delivers_det [OF ys(1) assms(6)] ys(2) assms(7) by auto
  moreover have "s' = s\<lparr>s_dec := d1\<lparr>dec_out_ready := True\<rparr>, s_glob := g1\<rparr>"
    using assms(2,11) clr w(1) At_decode by (simp add: stage_work_def decoder_work_def decoder_inputs_def)
  ultimately show ?thesis using assms(9,10) w(2) At_decode by (auto simp: decoding_def)
next
  case At_dispatch
  then show ?thesis using assms(4,10,11) mid_dispatches(2) [OF assms(1,8)] keeps [OF assms(11)]
    by (auto simp: decoding_def same_queues_def)
next
  case At_execute
  then show ?thesis using assms(5,8,10,11) mid_executes(1) [OF assms(1)] keeps [OF assms(11)]
    by (auto simp: decoding_def same_queues_def)
next
  case At_writeback
  then show ?thesis using assms(10,11) writeback_queues(2) [of e k old s s'] keeps [OF assms(11)] by (auto simp: decoding_def)
qed (use assms(10,11) outer_queues [OF assms(11)] keeps [OF assms(11)] in \<open>auto simp: decoding_def same_queues_def\<close>)

lemma retiring_stage:
  assumes "out_ready (s_xports old)" and "follows_isa C rs s" and "retiring (set (st # sts)) rs s" and "st \<notin> set sts"
    and "stage_work e k False old st s = Some (Inr s')"
    and "st = At_execute \<Longrightarrow> ew_uop_queue (s_glob s) \<noteq> [] \<Longrightarrow> ew_uop_queue (s_glob s') \<noteq> []"
  shows "retiring (set sts) (rs @ retired_by st s s') s'"
proof (cases st)
  case At_decode
  then show ?thesis using assms(3,5) decode_queues [of e k old s s'] by (auto simp: retiring_def)
next
  case At_dispatch
  then show ?thesis using assms(3,5) dispatch_queues(1) [OF assms(2)] by (auto simp: retiring_def)
next
  case At_execute
  then show ?thesis using assms(3,6) by (auto simp: retiring_def)
next
  case At_writeback
  then show ?thesis using assms(1,3-5) writeback_queues(3) [of e k old s s'] by (auto simp: retiring_def)
qed (use assms(3) outer_queues [OF assms(5)] in \<open>auto simp: retiring_def same_queues_def\<close>)

lemma boot_edge:
  assumes "boots e C" and "code_inv C rs t s" and "lines_ahead C n t" "n \<le> 3" and "distinct order" "set order = set all_stages"
  shows "\<exists>s'. system_edge e order k False s = Some (Inr s')" and "\<not> clear_out (s_xports s) \<Longrightarrow> plain_start e C s t"
    and "code_run e C k s \<Longrightarrow> system_edge e order k False s = Some (Inr s') \<Longrightarrow> code_run e C (k + 500) s'"
proof -
  have r: "runs_program e C" using assms(1) by (simp add: boots_def)
  note near = boot_lines [OF assms(1,2) lines_ahead_mono [OF assms(3,4)]]
  show "\<exists>s'. system_edge e order k False s = Some (Inr s')"
    by (rule code_edge_total [OF r assms(2) near assms(5,6)])
  show "code_run e C (k + 500) s'" if "code_run e C k s" "system_edge e order k False s = Some (Inr s')"
    by (rule code_edge [OF that(1) near(1) assms(5,6) that(2)])
  show "plain_start e C s t" if "\<not> clear_out (s_xports s)"
    using plain_startI [OF _ _ _ _ assms(2) that near(1)] r by (simp add: runs_program_def)
qed

lemma retiring_edge:
  assumes "boots e C" and "code_inv C rs t s" and "lines_ahead C n t" "n \<le> 3" and "distinct order" "set order = set all_stages"
    and "out_ready (s_xports s)" and "ew_uop_queue (s_glob s) \<noteq> []" and "system_edge e order k False s = Some (Inr s')"
  shows "\<exists>rs' t'. code_inv C rs' t' s' \<and> rs' \<noteq> []"
proof (cases "clear_out (s_xports s)")
  case False
  have run: "run_stages e k False s order s = Some (Inr s')" using assms(9) by (simp add: system_edge_def)
  have st: "plain_start e C s t" by (rule boot_edge(2) [OF assms(1-6) False])
  have start: "retiring (set order) rs s" using assms(6,8) by (simp add: retiring_def all_stages_def)
  have step: "retiring (set sts) (rs @ retired_by st a b) b"
    if "plain_mid C s t (st # sts) rs a" "st \<notin> set sts" "retiring (set (st # sts)) rs a"
      "stage_work e k False s st a = Some (Inr b)" for st sts rs a b
    by (rule retiring_stage [OF assms(7) _ that(3,2,4)])
      (use that mid_executes(3) [OF st] in \<open>auto simp: plain_mid_def queues_ok_def\<close>)
  obtain rs' where rs': "plain_mid C s t [] rs' s'" "retiring {} rs' s'"
    using plain_phase [OF st plain_midI [OF assms(2,6)] assms(5) run, of retiring, OF start step] by blast
  then show ?thesis using plain_end [OF rs'(1)] by (auto simp: retiring_def)
next
  case True
  have p: "simple_program (c_prog C)" "tie_break (e_pick e)" using assms(1) by (simp_all add: boots_def runs_program_def)
  have run: "run_stages e k False s order s = Some (Inr s')" using assms(9) by (simp add: system_edge_def)
  have st: "clear_start e C s" by (rule clear_startI(1) [OF p assms(2) True])
  have start: "retiring (set order) rs s" using assms(6,8) by (simp add: retiring_def all_stages_def)
  have step: "retiring (set sts) (rs @ retired_by st a b) b"
    if "clear_mid C s (st # sts) rs a" "st \<notin> set sts" "retiring (set (st # sts)) rs a"
      "stage_work e k False s st a = Some (Inr b)" for st sts rs a b
    by (rule retiring_stage [OF assms(7) _ that(3,2,4)])
      (use that True execute_queues(1) [OF p(1), of rs a e k s b] in \<open>auto simp: clear_mid_def\<close>)
  obtain rs' where rs': "clear_mid C s [] rs' s'" "retiring {} rs' s'"
    using clear_phase [OF st clear_midI [OF p assms(2) True assms(6)] assms(5) run, of retiring, OF start step] by blast
  then show ?thesis using clear_end [OF p assms(2) True rs'(1)] by (auto simp: retiring_def)
qed

lemma phase_edge:
  assumes "boots e C" and "code_inv C rs t s" and "lines_ahead C n t" "n \<le> 3" and "distinct order" "set order = set all_stages"
    and "\<not> clear_out (s_xports s)" and "Q (set all_stages) s"
    and "\<And>st sts rs a b. plain_start e C s t \<Longrightarrow> plain_mid C s t (st # sts) rs a \<Longrightarrow> st \<notin> set sts \<Longrightarrow>
      Q (set (st # sts)) a \<Longrightarrow> stage_work e k False s st a = Some (Inr b) \<Longrightarrow> Q (set sts) b"
  shows "\<exists>s' rs' t'. system_edge e order k False s = Some (Inr s') \<and> code_inv C rs' t' s' \<and> lines_ahead C (Suc n) t' \<and> Q {} s'"
proof -
  obtain s' where run: "system_edge e order k False s = Some (Inr s')" using boot_edge(1) [OF assms(1-6)] by blast
  have st: "plain_start e C s t" by (rule boot_edge(2) [OF assms(1-7)])
  obtain rs' where rs': "plain_mid C s t [] rs' s'" "Q {} s'"
    using plain_phase [OF st plain_midI [OF assms(2,6)] assms(5) run [unfolded system_edge_def], of "\<lambda>S _. Q S"]
      assms(8,9) st assms(6) by simp blast
  show ?thesis using run plain_end [OF rs'(1)] lines_ahead_next(1) [OF assms(3), of s] rs'(2) by blast
qed

lemma first_instruction:
  assumes "boots e C" and "code_inv C rs (c_entry C) s" and "f_out_ready (s_fports s)" and "idle_back s"
    and run: "code_run e C k s" and "\<forall>order \<in> {o1, o2, o3, o4}. distinct order \<and> set order = set all_stages"
  shows "\<exists>s' rs' t'. system_run e [o1, o2, o3, o4] k s = Some (Inr s') \<and> code_run e C (k + 2000) s' \<and>
    code_inv C rs' t' s' \<and> rs' \<noteq> []"
proof -
  have ord: "distinct o1" "set o1 = set all_stages" "distinct o2" "set o2 = set all_stages"
    "distinct o3" "set o3 = set all_stages" "distinct o4" "set o4 = set all_stages"
    using assms(6) by simp_all
  have idle: "\<not> dec_out_ready (s_dec s)" "first_run (s_dec s)" "\<not> disp_out_ready (s_disp s)" "\<not> clear_out (s_xports s)"
    using assms(4) by (simp_all add: idle_back_def)
  obtain xs c where xs: "delivers (e_disasm e) (hex_text (code_bytes (c_mem C) (c_entry C) (16 - unat (c_entry C mod 16)))) 0 xs c"
      "xs \<noteq> []" using assms(1) by (auto simp: boots_def)
  have n0: "lines_ahead C 0 (c_entry C)" by (simp add: lines_ahead_def)
  have q0: "decoding s (set all_stages) s" by (simp add: decoding_def all_stages_def)
  have "\<exists>s' rs' t'. system_edge e o1 k False s = Some (Inr s') \<and> code_inv C rs' t' s' \<and>
      lines_ahead C (Suc 0) t' \<and> decoding s {} s'"
    by (rule phase_edge [where Q = "decoding s", OF assms(1,2) n0 _ ord(1,2) idle(4) q0], simp) (rule decoding_stage [OF _ assms(3) idle(2,1,3) xs])
  then obtain s1 rs1 t1 where e1: "system_edge e o1 k False s = Some (Inr s1)" "code_inv C rs1 t1 s1" "lines_ahead C (Suc 0) t1"
      "decoding s {} s1" by blast
  then have q1: "dec_out_ready (s_dec s1)" "dispatching (set all_stages) s1" "\<not> disp_out_ready (s_disp s1)" "\<not> clear_out (s_xports s1)"
    by (simp_all add: decoding_def dispatching_def all_stages_def)
  have "\<exists>s' rs' t'. system_edge e o2 (k + 500) False s1 = Some (Inr s') \<and> code_inv C rs' t' s' \<and>
      lines_ahead C (Suc (Suc 0)) t' \<and> dispatching {} s'"
    by (rule phase_edge [where Q = dispatching, OF assms(1) e1(2,3) _ ord(3,4) q1(4,2)], simp) (rule dispatching_stage [OF _ q1(1,3)])
  then obtain s2 rs2 t2 where e2: "system_edge e o2 (k + 500) False s1 = Some (Inr s2)" "code_inv C rs2 t2 s2"
      "lines_ahead C (Suc (Suc 0)) t2" "dispatching {} s2" by blast
  then have q2: "disp_out_ready (s_disp s2)" "executing (set all_stages) s2" "\<not> out_ready (s_xports s2)" "\<not> clear_out (s_xports s2)"
    by (simp_all add: dispatching_def executing_def all_stages_def)
  have "\<exists>s' rs' t'. system_edge e o3 (k + 1000) False s2 = Some (Inr s') \<and> code_inv C rs' t' s' \<and>
      lines_ahead C (Suc (Suc (Suc 0))) t' \<and> executing {} s'"
    by (rule phase_edge [where Q = executing, OF assms(1) e2(2,3) _ ord(5,6) q2(4,2)], simp) (rule executing_stage [OF _ q2(1,3)])
  then obtain s3 rs3 t3 where e3: "system_edge e o3 (k + 1000) False s2 = Some (Inr s3)" "code_inv C rs3 t3 s3"
      "lines_ahead C (Suc (Suc (Suc 0))) t3" "executing {} s3" by blast
  then have q3: "ew_uop_queue (s_glob s3) \<noteq> []" "out_ready (s_xports s3)" by (simp_all add: executing_def)
  obtain s4 where e4: "system_edge e o4 (k + 1500) False s3 = Some (Inr s4)"
    using boot_edge(1) [OF assms(1) e3(2,3) _ ord(7,8)] by auto
  obtain rs4 t4 where "code_inv C rs4 t4 s4" "rs4 \<noteq> []"
    using retiring_edge [OF assms(1) e3(2,3) _ ord(7,8) q3(2,1) e4] by auto
  moreover have "code_run e C (k + 500) s1" using boot_edge(3) [OF assms(1,2) n0 _ ord(1,2) run e1(1)] by simp
  then have "code_run e C (k + 1000) s2" using boot_edge(3) [OF assms(1) e1(2,3) _ ord(3,4) _ e2(1)] by (simp add: add.assoc)
  then have "code_run e C (k + 1500) s3" using boot_edge(3) [OF assms(1) e2(2,3) _ ord(5,6) _ e3(1)] by (simp add: add.assoc)
  then have "code_run e C (k + 2000) s4" using boot_edge(3) [OF assms(1) e3(2,3) _ ord(7,8) _ e4] by (simp add: add.assoc)
  ultimately show ?thesis using e1(1) e2(1) e3(1) e4 by (auto simp: ac_simps)
qed

end
