(* ===== verification/CodeProgram.thy ===== *)
theory CodeProgram
  imports CodeBoot
begin

text \<open>
  The theorems on programs in the memory of the wired simulator, and a program they are applied to: a run of
  \<^verbatim>\<open>inc %rax\<close>, three bytes each, so that the lines cut instructions.
\<close>

subsection \<open>A program\<close>

definition inc_insn :: insn where
  "inc_insn = \<lparr>mnem = UD_Iinc, operand0 = sample_operand\<lparr>otype := UD_OP_REG, op_base := UD_R_RAX\<rparr>,
     operand1 = sample_operand, operand2 = sample_operand\<rparr>"

definition cut_insn :: insn where
  "cut_insn = nop_insn\<lparr>mnem := UD_Iinvalid\<rparr>"

text \<open>A disassembler that knows one instruction, \<^verbatim>\<open>48 ff c0\<close>.\<close>

definition inc_disasm :: disassembler where
  "inc_disasm s p = (case input_hook s p of
     (None, p1) \<Rightarrow> (0, nop_insn, p1)
   | (Some a, p1) \<Rightarrow> (case input_hook s p1 of
       (None, p2) \<Rightarrow> (1, cut_insn, p2)
     | (Some b, p2) \<Rightarrow> (case input_hook s p2 of
         (None, p3) \<Rightarrow> (2, cut_insn, p3)
       | (Some c, p3) \<Rightarrow> (3, if [a, b, c] = [0x48, 0xff, 0xc0] then inc_insn else cut_insn, p3))))"

definition inc_env :: env where
  "inc_env = \<lparr>e_host = sample_host, e_pick = pick_first, e_disasm = inc_disasm, e_junk = uop_empty\<rparr>"

definition incs :: code where
  "incs = \<lparr>c_prog = (\<lambda>a. uop_empty\<lparr>opcode := UD_Iinc, reg1 := UD_R_RAX, src := REG, opsize := 3, address := a\<rparr>),
     c_mem = (\<lambda>a. [0x48, 0xff, 0xc0] ! (unat a mod 3)),
     c_starts = {a. unat a mod 3 = 0 \<and> unat a \<le> 0x30000}, c_region = {a. unat a < 0x30000}, c_entry = 0x10005\<rparr>"

lemma incs_byte:
  assumes "unat a + n \<le> 0x30000" and "k < n"
  shows "code_bytes (c_mem incs) a n ! k = [0x48, 0xff, 0xc0] ! ((unat a + k) mod 3)"
proof -
  have "unat (a + word_of_nat k) = unat a + k"
    using assms by (simp add: unat_word_ariths unat_of_nat take_bit_nat_def)
  moreover have "unat ([0x48, 0xff, 0xc0] ! j :: byte) = [0x48, 0xff, 0xc0] ! j" if "j < 3" for j
    using that by (auto simp: numeral_3_eq_3 less_Suc_eq)
  ultimately show ?thesis using assms(2) by (simp add: code_bytes_def incs_def)
qed

lemma incs_hook:
  assumes "unat a + n \<le> 0x30000" and "unat a mod 3 = 0" and "s = hex_text (code_bytes (c_mem incs) a n)"
  shows "k < n \<Longrightarrow> input_hook s (3 * k) = (Some ([0x48, 0xff, 0xc0] ! (k mod 3)), 3 * Suc k)"
    and "input_hook s (3 * n) = (None, 3 * n)"
proof -
  let ?bs = "code_bytes (c_mem incs) a n"
  have small: "\<forall>b \<in> set ?bs. b < 256" by (auto dest: code_bytes_small)
  have "(unat a + k) mod 3 = k mod 3" using assms(2) by presburger
  then show "input_hook s (3 * k) = (Some ([0x48, 0xff, 0xc0] ! (k mod 3)), 3 * Suc k)" if "k < n"
    using input_hook_bytes(1) [OF small, of k] incs_byte [OF assms(1) that] that
    by (simp only: assms(3) hex_text_def length_code_bytes)
  have "fst (input_hook s (3 * n)) = None"
    using input_hook_bytes(2) [OF small] by (simp only: assms(3) hex_text_def length_code_bytes)
  then show "input_hook s (3 * n) = (None, 3 * n)" by (simp add: input_hook_def split: if_splits)
qed

lemma incs_deliver:
  assumes "unat a + n \<le> 0x30000" and "unat a mod 3 = 0" and "3 * q \<le> n"
  shows "delivers inc_disasm (hex_text (code_bytes (c_mem incs) a n)) (3 * (3 * (n div 3 - q))) (replicate q (3, inc_insn)) (n mod 3 \<noteq> 0)"
  using assms(3)
proof (induction q)
  case 0
  let ?s = "hex_text (code_bytes (c_mem incs) a n)" and ?k = "3 * (n div 3)"
  note hook = incs_hook [OF assms(1,2) refl]
  have stop: "inc_disasm ?s (3 * n) = (0, nop_insn, 3 * n)" by (simp add: inc_disasm_def hook(2))
  have d: "?k + n mod 3 = n" by simp
  consider "n mod 3 = 0" | "n mod 3 = 1" | "n mod 3 = 2" by fastforce
  then show ?case
  proof cases
    case 1
    then have "3 * ?k = 3 * n" using d by simp
    then show ?thesis using 1 del_stop [of inc_disasm ?s "3 * n"] stop by simp
  next
    case 2
    then have "n = Suc ?k" using d by simp
    then have "inc_disasm ?s (3 * ?k) = (1, cut_insn, 3 * n)"
      using hook(1) [of ?k] hook(2) by (simp add: inc_disasm_def)
    then show ?thesis
      using del_cut [of inc_disasm ?s "3 * ?k" 1 cut_insn "3 * n" nop_insn "3 * n"] stop 2 by (simp add: cut_insn_def)
  next
    case 3
    then have "n = Suc (Suc ?k)" using d by simp
    then have "inc_disasm ?s (3 * ?k) = (2, cut_insn, 3 * n)"
      using hook(1) [of ?k] hook(1) [of "Suc ?k"] hook(2) by (simp add: inc_disasm_def)
    then show ?thesis
      using del_cut [of inc_disasm ?s "3 * ?k" 2 cut_insn "3 * n" nop_insn "3 * n"] stop 3 by (simp add: cut_insn_def)
  qed
next
  case (Suc q)
  let ?s = "hex_text (code_bytes (c_mem incs) a n)" and ?k = "3 * (n div 3 - Suc q)"
  note hook = incs_hook(1) [OF assms(1,2) refl]
  have "Suc q \<le> n div 3" using Suc.prems by (simp add: less_eq_div_iff_mult_less_eq mult.commute)
  then obtain d where "n div 3 = Suc q + d" by (metis le_iff_add)
  moreover from this have "3 * Suc d \<le> 3 * (n div 3)" by simp
  then have "3 * Suc d \<le> n" using order_trans [of _ "3 * (n div 3)" n] by simp
  ultimately have d: "n div 3 - Suc q = d" "n div 3 - q = Suc d" "3 * Suc d \<le> n" by simp_all
  have k: "Suc (Suc ?k) < n" "Suc (Suc (Suc ?k)) = 3 * (n div 3 - q)" unfolding d(1,2) using d(3) by simp_all
  have "3 * m mod 3 = 0" "Suc (3 * m) mod 3 = 1" "Suc (Suc (3 * m)) mod 3 = 2" for m :: nat by (simp_all add: mod_Suc)
  then have "inc_disasm ?s (3 * ?k) = (3, inc_insn, 3 * Suc (Suc (Suc ?k)))"
    using k(1) hook [of ?k] hook [of "Suc ?k"] hook [of "Suc (Suc ?k)"] by (simp add: inc_disasm_def)
  moreover have "delivers inc_disasm ?s (3 * Suc (Suc (Suc ?k))) (replicate q (3, inc_insn)) (n mod 3 \<noteq> 0)"
    unfolding k(2) by (rule Suc.IH) (use Suc.prems in simp)
  ultimately show ?case using del_more [of inc_disasm ?s "3 * ?k" 3 inc_insn] by (simp add: inc_insn_def)
qed

lemma incs_fits:
  assumes "a \<in> c_starts incs" and "\<forall>i < n. a + word_of_nat i \<in> c_region incs"
  shows "unat a + n \<le> 0x30000"
proof (rule ccontr)
  have start: "unat a \<le> 0x30000" using assms(1) by (simp add: incs_def)
  assume "\<not> unat a + n \<le> 0x30000"
  then have i: "0x30000 - unat a < n" using start by linarith
  have "unat (a + word_of_nat (0x30000 - unat a)) = 0x30000"
    using start by (simp add: unat_word_ariths unat_of_nat take_bit_nat_def)
  then show False using assms(2) i by (auto simp: incs_def)
qed

lemma incs_image: "code_image inc_disasm uop_empty incs"
  unfolding code_image_def Let_def
proof (intro ballI allI impI)
  fix a n assume a: "a \<in> c_starts incs" and n: "\<forall>i < n. a + word_of_nat i \<in> c_region incs"
  let ?xs = "replicate (n div 3) (3 :: nat, inc_insn)"
  have start: "unat a mod 3 = 0" "unat a \<le> 0x30000" using a by (simp_all add: incs_def)
  have fits: "unat a + n \<le> 0x30000" by (rule incs_fits [OF a n])
  have len: "sum_list (map fst ?xs) = 3 * (n div 3)" by (simp add: sum_list_replicate)
  have "unat (a + word_of_nat (3 * (n div 3))) = unat a + 3 * (n div 3)"
    using fits by (simp add: unat_word_ariths unat_of_nat take_bit_nat_def)
  then have last: "a + word_of_nat (3 * (n div 3)) \<in> c_starts incs"
    using start fits by (simp add: incs_def mod_add_eq [symmetric])
  have each: "m < 16 \<and> crack_pops u \<and> map (push2q uop_empty (word_of_nat m) ad) (crack_insn u) = [c_prog incs ad]"
    if "((m, u), ad) \<in> set (zip ?xs ys)" for m u ad ys
  proof -
    have "m = 3" "u = inc_insn" using set_zip_leftD [OF that] by auto
    then show ?thesis
      by (simp add: inc_insn_def sample_operand_def crack_pops_def crack_insn_def push2q_def incs_def uop_empty_def)
  qed
  have mod3: "n mod 3 = 0 \<longrightarrow> 3 * (n div 3) = n" by presburger
  have "delivers inc_disasm (hex_text (code_bytes (c_mem incs) a n)) 0 ?xs (n mod 3 \<noteq> 0)"
    using incs_deliver [OF fits start(1), of "n div 3"] by simp
  then show "\<exists>xs c. delivers inc_disasm (hex_text (code_bytes (c_mem incs) a n)) 0 xs c \<and>
      sum_list (map fst xs) \<le> n \<and> (c \<or> sum_list (map fst xs) = n) \<and>
      a + word_of_nat (sum_list (map fst xs)) \<in> c_starts incs \<and>
      (\<forall>((m, u), ad) \<in> set (zip xs (layout a (map fst xs))). m < 16 \<and> crack_pops u \<and>
         map (push2q uop_empty (word_of_nat m) ad) (crack_insn u) = [c_prog incs ad])"
    using each last len mod3 by (intro exI [of _ ?xs] exI [of _ "n mod 3 \<noteq> 0"]) auto
qed

lemma incs_simple: "simple_program (c_prog incs)"
  by (simp add: simple_program_def simple_uop_def incs_def uop_empty_def)

lemma incs_runs: "runs_program inc_env incs"
proof -
  have "stays_in_code incs"
    by (simp add: stays_in_code_def lands_def incs_def is_jump_def uop_empty_def)
  then show ?thesis using incs_image incs_simple by (simp add: runs_program_def inc_env_def)
qed

lemma incs_boots: "boots inc_env incs"
proof -
  have l: "line_of 0x10005 = 0x10000" by (simp add: line_of_def)
  have "unat (0x10000 + word_of_nat i :: addr) < 0x30000" if "i < 64" for i
    using that by (simp add: unat_word_ariths unat_of_nat take_bit_nat_def)
  moreover have "\<exists>xs c. delivers inc_disasm (hex_text (code_bytes (c_mem incs) 0x10005 11)) 0 xs c \<and> xs \<noteq> []"
    using incs_deliver [of "0x10005" 11 3] by (intro exI [of _ "replicate 3 (3, inc_insn)"] exI [of _ True]) simp
  ultimately show ?thesis using incs_runs l by (simp add: boots_def) (simp add: incs_def inc_env_def mem_size_def)
qed

lemma incs_step: "isa_step (c_prog incs) t =
    Inr \<lparr>i_pc = i_pc t + 3, i_regs = (i_regs t)\<lparr>rip := i_pc t + 3, rax := rax (i_regs t) + 1\<rparr>, i_flags = i_flags t\<rparr>"
  by (simp add: isa_step_def incs_def uop_empty_def dispatch_uop_def dispatch_implicit_def dispatch_operand1_def
      dispatch_operand2_def dispatch_operand3_def is_jump_def retire_def retire_reg2_def retire_implicit_def
      next_addr_def operand_value_def Let_def)

lemma incs_run: "isa_run (c_prog incs) n (isa_start pc) = Inr t \<Longrightarrow> rax (i_regs t) = word_of_nat n \<and> i_pc t = pc + 3 * word_of_nat n"
  by (induction n arbitrary: t) (auto simp: isa_start_def ARF_zero_def incs_step algebra_simps split: sum.splits)

subsection \<open>The run up to the first retirement\<close>

lemma stages_distinct: "distinct all_stages"
  by (simp add: all_stages_def)

lemma four_elements: "length xs = 4 \<Longrightarrow> \<exists>a b c d. xs = [a, b, c, d]"
  by (auto simp: numeral_eq_Suc length_Suc_conv)

lemma first_retires:
  fixes C brk pt lga sp u
  defines "st \<equiv> system_start (c_entry C) brk (c_mem C) pt lga False sp u"
  assumes "boots e C" and "length os = 229" and "\<forall>order \<in> set os. distinct order \<and> set order = set all_stages"
  shows "\<exists>s rs t. system_run e os 0 st = Some (Inr s) \<and> code_run e C 114500 s \<and> code_inv C rs t s \<and> rs \<noteq> []"
    and "\<exists>s. code_run e C 112500 s \<and> f_out_ready (s_fports s) \<and> in_region C s \<and> asks_in_memory s"
proof -
  let ?ent = "c_entry C" and ?os = "take 225 os"
  have p: "tie_break (e_pick e)" "0xffff < line_of ?ent" "line_of ?ent < mem_size" "runs_program e C"
    using assms(2) by (auto simp: boots_def runs_program_def mem_size_def elim: less_trans)
  have os: "length ?os = 225" "\<forall>order \<in> set ?os. distinct order \<and> set order = set all_stages"
    using assms(3,4) by (auto dest: in_set_takeD)
  obtain s where s: "system_run e ?os 0 st = Some (Inr s)" "f_out_ready (s_fports s)" "out_addr (s_fports s) = line_of ?ent"
      "out_alignedaddr (s_fports s) = ?ent - line_of ?ent" "idle_back s"
    using first_line_idle(1) [OF p(1-3) os, where bytes = "c_mem C" and brk = brk and pt = pt and lga = lga and rc = False
        and sp = sp and u = u] unfolding st_def by blast
  have "code_run e C (500 * length ?os) s"
    by (rule code_run_waiting [OF os(2) s(1) [unfolded st_def]])
      (use first_line_idle(2) [OF p(1-3) os] os(1) in \<open>simp add: min_def\<close>)
  then have run: "code_run e C 112500 s" using os(1) by simp
  then obtain rs t where inv: "code_inv C rs t s" using code_run_inv [OF _ p(4)] by blast
  then have "line_at (c_mem C) (s_fports s) t"
    using s(2) by (auto simp: code_inv_def front_start_def front_at_def split: if_splits)
  then have "out_addr (s_fports s) = line_of t" "out_alignedaddr (s_fports s) = t mod 16"
    by (simp_all only: line_at_def)
  then have l: "line_of t = line_of ?ent" "t mod 16 = ?ent - line_of ?ent" using s(3,4) by metis+
  have "t - line_of t = ?ent - line_of ?ent" using l(2) line_of_offset [of t] by metis
  then have t: "t = ?ent" by (simp add: l(1))
  then have near: "lines_ahead C 3 t" by (auto simp: lines_ahead_def)
  show "\<exists>s. code_run e C 112500 s \<and> f_out_ready (s_fports s) \<and> in_region C s \<and> asks_in_memory s"
    using run s(2) boot_lines [OF assms(2) inv near] by blast
  have "length (drop 225 os) = 4" using assms(3) by simp
  then obtain o1 o2 o3 o4 where o: "drop 225 os = [o1, o2, o3, o4]" using four_elements by blast
  have "\<forall>order \<in> {o1, o2, o3, o4}. distinct order \<and> set order = set all_stages"
    using assms(4) o by (metis in_set_dropD insert_iff list.set(1,2))
  then have "\<exists>s' rs' t'. system_run e [o1, o2, o3, o4] 112500 s = Some (Inr s') \<and> code_run e C (112500 + 2000) s' \<and>
      code_inv C rs' t' s' \<and> rs' \<noteq> []"
    by (rule first_instruction [OF assms(2) inv [unfolded t] s(2,5) run])
  then obtain s' rs' t' where "system_run e [o1, o2, o3, o4] 112500 s = Some (Inr s')" "code_run e C 114500 s'"
      "code_inv C rs' t' s'" "rs' \<noteq> []" by auto
  moreover from this have "system_run e (?os @ [o1, o2, o3, o4]) 0 st = Some (Inr s')"
    using s(1) os(1) by (simp only: system_run_append option.case sum.case) simp
  then have "system_run e os 0 st = Some (Inr s')" by (metis append_take_drop_id o)
  ultimately show "\<exists>s rs t. system_run e os 0 st = Some (Inr s) \<and> code_run e C 114500 s \<and> code_inv C rs t s \<and> rs \<noteq> []" by blast
qed

subsection \<open>Properties\<close>

text \<open>C1: the simulator runs the program: whatever the order of the handlers, in every state reached from the
  start with a program of register instructions in memory, as long as fetch hands over lines of the code only, the
  addresses of the retired micro-operations are those the sequential machine executes from the entry point on, the
  register file holds the machine's registers after as many steps, the flags and the next micro-operation in the
  queues are the machine's after those that wait for writeback, and the bytes in memory are unchanged.\<close>

theorem system_runs_program:
  assumes "code_run e C k s" and "code_image (e_disasm e) (e_junk e) C" and "simple_program (c_prog C)"
    and "stays_in_code C" and "tie_break (e_pick e)"
  shows "\<exists>rs ds. let P = c_prog C; n = length rs; m = n + length (ew_uop_queue (s_glob s)) in
    fed P (pipe_of s ds rs) \<and>
    (\<forall>j < n. \<exists>t. isa_run P j (isa_start (c_entry C)) = Inr t \<and> rs ! j = i_pc t) \<and>
    (\<exists>t. isa_run P n (isa_start (c_entry C)) = Inr t \<and>
       (\<forall>r. is_gpr r \<and> r \<noteq> UD_R_RSP \<longrightarrow> arf_get (regfile (s_glob s)) r = arf_get (i_regs t) r)) \<and>
    (\<exists>t. isa_run P m (isa_start (c_entry C)) = Inr t \<and> eflags (s_ex s) = i_flags t \<and>
       (\<not> clear_out (s_xports s) \<longrightarrow>
          (\<forall>u us. de_uop_queue (s_glob s) @ dd_uop_queue (s_glob s) = u # us \<longrightarrow> address u = i_pc t))) \<and>
    mem (s_mem s) = c_mem C"
proof -
  have "runs_program e C" using assms(2-5) by (simp add: runs_program_def)
  then obtain rs t where "code_inv C rs t s" using code_run_inv [OF assms(1)] by blast
  from code_inv_machine [OF this assms(3)] show ?thesis unfolding Let_def by blast
qed

theorem system_runs_program_witness:
  "\<exists>s rs ds. code_run inc_env incs 114500 s \<and> fed (c_prog incs) (pipe_of s ds rs) \<and>
     rax (regfile (s_glob s)) = word_of_nat (length rs) \<and> mem (s_mem s) = c_mem incs"
proof -
  have p: "code_image (e_disasm inc_env) (e_junk inc_env) incs" "simple_program (c_prog incs)" "stays_in_code incs"
      "tie_break (e_pick inc_env)"
    using incs_runs by (simp_all add: runs_program_def)
  have "length (replicate 229 all_stages) = 229" "\<forall>order \<in> set (replicate 229 all_stages). distinct order \<and> set order = set all_stages"
    using stages_distinct by simp_all
  from first_retires(1) [OF incs_boots this] obtain s where s: "code_run inc_env incs 114500 s" by blast
  from system_runs_program [OF s p] obtain rs ds t where f: "fed (c_prog incs) (pipe_of s ds rs)"
    and r: "isa_run (c_prog incs) (length rs) (isa_start (c_entry incs)) = Inr t"
    "\<And>r. is_gpr r \<and> r \<noteq> UD_R_RSP \<Longrightarrow> arf_get (regfile (s_glob s)) r = arf_get (i_regs t) r" "mem (s_mem s) = c_mem incs"
    unfolding Let_def by blast
  have "rax (regfile (s_glob s)) = word_of_nat (length rs)" using incs_run [OF r(1)] r(2) [of UD_R_RAX] by simp
  then show ?thesis using s f r(3) by blast
qed

text \<open>C6: no fault stops the program: in every such state, while fetch asks for lines within the memory, the next
  clock edge completes in every order of the handlers: no assertion fails, no queue is popped empty and decode
  returns.\<close>

theorem program_never_faults:
  assumes "code_run e C k s" and "code_image (e_disasm e) (e_junk e) C" and "simple_program (c_prog C)"
    and "stays_in_code C" and "tie_break (e_pick e)" and "in_region C s" and "asks_in_memory s"
    and "distinct order" and "set order = set all_stages"
  shows "\<exists>s'. system_edge e order k False s = Some (Inr s')"
proof -
  have r: "runs_program e C" using assms(2-5) by (simp add: runs_program_def)
  then obtain rs t where "code_inv C rs t s" using code_run_inv [OF assms(1)] by blast
  from code_edge_total [OF r this assms(6-9)] show ?thesis .
qed


theorem program_never_faults_witness:
  "\<exists>s s'. code_run inc_env incs 112500 s \<and> f_out_ready (s_fports s) \<and>
     system_edge inc_env (rev all_stages) 112500 False s = Some (Inr s')"
proof -
  have p: "code_image (e_disasm inc_env) (e_junk inc_env) incs" "simple_program (c_prog incs)" "stays_in_code incs"
      "tie_break (e_pick inc_env)"
    using incs_runs by (simp_all add: runs_program_def)
  have o: "length (replicate 229 all_stages) = 229" "\<forall>order \<in> set (replicate 229 all_stages). distinct order \<and> set order = set all_stages"
    and r: "distinct (rev all_stages)" "set (rev all_stages) = set all_stages"
    using stages_distinct by simp_all
  from first_retires(2) [OF incs_boots o] obtain s where s: "code_run inc_env incs 112500 s" "f_out_ready (s_fports s)"
      "in_region incs s" "asks_in_memory s" by blast
  from program_never_faults [OF s(1) p s(3,4) r] show ?thesis using s(1,2) by blast
qed

text \<open>The first instruction retires 229 clock edges after the reset, whatever the order of the handlers: the wait
  for the line, and one edge each for decode, dispatch, execute and writeback. What has retired is then what the
  machine executes from the entry point on, and the register file holds the machine's registers.\<close>

lemma first_instruction_retires:
  assumes "code_image (e_disasm e) (e_junk e) C" and "simple_program (c_prog C)" and "stays_in_code C" and "tie_break (e_pick e)"
    and "0xffff < line_of (c_entry C)" and "line_of (c_entry C) < mem_size - 80"
    and "\<forall>i < 64. line_of (c_entry C) + word_of_nat i \<in> c_region C"
    and "delivers (e_disasm e) (hex_text (code_bytes (c_mem C) (c_entry C) (16 - unat (c_entry C mod 16)))) 0 xs c" and "xs \<noteq> []"
    and "length os = 229" and "\<forall>order \<in> set os. distinct order \<and> set order = set all_stages"
  shows "\<exists>s ds rs t. system_run e os 0 (system_start (c_entry C) brk (c_mem C) pt lga False sp u) = Some (Inr s) \<and>
    fed (c_prog C) (pipe_of s ds rs) \<and> rs \<noteq> [] \<and> hd rs = c_entry C \<and>
    isa_run (c_prog C) (length rs) (isa_start (c_entry C)) = Inr t \<and>
    (\<forall>r. is_gpr r \<and> r \<noteq> UD_R_RSP \<longrightarrow> arf_get (regfile (s_glob s)) r = arf_get (i_regs t) r)"
proof -
  have "boots e C" unfolding boots_def runs_program_def using assms(1-9) by blast
  from first_retires(1) [OF this assms(10,11), of brk pt lga sp u] obtain s rs t where
    s: "system_run e os 0 (system_start (c_entry C) brk (c_mem C) pt lga False sp u) = Some (Inr s)"
      "code_inv C rs t s" "rs \<noteq> []" by blast
  from code_inv_machine [OF s(2) assms(2)] have m:
    "\<forall>j < length rs. \<exists>t. isa_run (c_prog C) j (isa_start (c_entry C)) = Inr t \<and> rs ! j = i_pc t"
    "\<exists>ds. fed (c_prog C) (pipe_of s ds rs)"
    "\<exists>t. isa_run (c_prog C) (length rs) (isa_start (c_entry C)) = Inr t \<and>
       (\<forall>r. is_gpr r \<and> r \<noteq> UD_R_RSP \<longrightarrow> arf_get (regfile (s_glob s)) r = arf_get (i_regs t) r)"
    unfolding Let_def by blast+
  have "rs ! 0 = c_entry C" using m(1) [rule_format, of 0] s(3) by (auto simp: isa_start_def)
  then have "hd rs = c_entry C" using s(3) by (simp add: hd_conv_nth)
  then show ?thesis using s(1,3) m(2,3) by blast
qed

end
