(* ===== verification/Simulator.thy ===== *)
theory Simulator
  imports CodeProgram
begin

text \<open>
  The program that users start (\<^verbatim>\<open>core-project/main.cc\<close>): it loads the file it is given, puts the remaining
  arguments on the stack, resets the core and lets the clock run until the guest program exits, for 400 million
  cycles at most. The theorem puts loader, constructor, wiring and pipeline together.
\<close>

subsection \<open>A run of the simulator\<close>

text \<open>The file with the fields of its header that the loader reads.\<close>

record elf =
  elf_bytes :: "byte list"
  elf_entry :: addr
  elf_phoff :: quad
  elf_phnum :: nat
  elf_phdrs :: "phdr list"

text \<open>What the constructors leave uninitialised.\<close>

record uninit =
  u_prev_tag :: addr
  u_last_good :: addr
  u_rip_changed :: bool
  u_stackpointer :: quad
  u_op :: uop

text \<open>\<^verbatim>\<open>sc_stop\<close>, which the system call \<^verbatim>\<open>exit\<close> calls, lets the handlers of the edge finish and
  ends the simulation.\<close>

fun sim_edges :: "env \<Rightarrow> stage list list \<Rightarrow> nat \<Rightarrow> system \<Rightarrow> (fault + system) option" where
  "sim_edges e [] t s = Some (Inr s)"
| "sim_edges e (order # os) t s =
     (if Sim_stop \<in> set (sys_log (s_glob s)) then Some (Inr s)
      else case system_edge e order t False s of
        None \<Rightarrow> None
      | Some (Inl f) \<Rightarrow> Some (Inl f)
      | Some (Inr s') \<Rightarrow> sim_edges e os (t + 500) s')"

text \<open>The first \<open>n\<close> cycles: \<open>argv\<close> are the arguments of the simulator, whose name comes first,
  \<open>order j\<close> the order in which SystemC runs the handlers of cycle \<open>j\<close>.\<close>

definition simulate ::
  "env \<Rightarrow> uninit \<Rightarrow> elf \<Rightarrow> byte list list \<Rightarrow> (nat \<Rightarrow> stage list) \<Rightarrow> nat \<Rightarrow> load_fault + (fault + system) option" where
  "simulate e u f argv order n =
     (if \<not> length argv \<ge> 2 then Inl Load_assert
      else case mem_construct (elf_bytes f) (elf_entry f) (elf_phoff f) (elf_phnum f) (elf_phdrs f) (tl argv) of
        Inl l \<Rightarrow> Inl l
      | Inr (m, ent, brk) \<Rightarrow> Inr (sim_edges e (map order [0..<n]) 0
          (system_start ent brk (mem m) (u_prev_tag u) (u_last_good u) (u_rip_changed u) (u_stackpointer u) (u_op u))))"

definition sc_main ::
  "env \<Rightarrow> uninit \<Rightarrow> elf \<Rightarrow> byte list list \<Rightarrow> (nat \<Rightarrow> stage list) \<Rightarrow> load_fault + (fault + system) option" where
  "sc_main e u f argv order = simulate e u f argv order 400000000"

subsection \<open>Programs that make no system call\<close>

lemma sim_edges_run:
  assumes "system_run e os t s = Some (Inr s')" and "Sim_stop \<notin> set (sys_log (s_glob s'))"
  shows "sim_edges e os t s = Some (Inr s')"
  using assms
proof (induction os arbitrary: t s)
  case (Cons order os)
  obtain s1 where s1: "system_edge e order t False s = Some (Inr s1)" "system_run e os (t + 500) s1 = Some (Inr s')"
    using Cons.prems(1) by (auto split: option.splits sum.splits)
  have "prefix (sys_log (s_glob a)) (sys_log (s_glob b))" if "system_run e os t a = Some (Inr b)" for os t a b
    using that
  proof (induction os arbitrary: t a)
    case (Cons order os)
    then obtain c where "system_edge e order t False a = Some (Inr c)" "system_run e os (t + 500) c = Some (Inr b)"
      by (auto split: option.splits sum.splits)
    then show ?case using Cons.IH run_log [of e t False a order a c] by (auto simp: system_edge_def dest: prefix_order.trans)
  qed simp
  then have "prefix (sys_log (s_glob s)) (sys_log (s_glob s'))" using Cons.prems(1) by blast
  then have "Sim_stop \<notin> set (sys_log (s_glob s))" using Cons.prems(2) set_mono_prefix by blast
  then show ?case using Cons.IH [OF s1(2) Cons.prems(2)] s1(1) by simp
qed simp

lemma sim_edges_stopped: "Sim_stop \<in> set (sys_log (s_glob s)) \<Longrightarrow> sim_edges e os t s = Some (Inr s)"
  by (cases os) simp_all

lemma stage_no_call:
  assumes "simple_program (c_prog C)" and "follows_isa C rs s" and "stage_work e k False old st s = Some (Inr s')"
    and "st = At_execute \<Longrightarrow> s_xports s = s_xports old"
    and "st = At_execute \<Longrightarrow> \<not> clear_out (s_xports old) \<longrightarrow> (\<forall>u \<in> set (de_uop_queue (s_glob s)). address u = position C rs s)"
  shows "sys_log (s_glob s') = sys_log (s_glob s)"
proof (cases st)
  case At_fetch
  then show ?thesis using assms(3) by (auto simp: stage_work_def split: prod.splits dest!: fetch_work_frame)
next
  case At_decode
  then show ?thesis using assms(3) by (auto simp: stage_work_def split: option.splits sum.splits dest!: decoder_work_frame)
next
  case At_dispatch
  have "sys_log (snd (dispatch_work rst c r d g)) = sys_log g" for rst c r d g
    by (simp add: dispatch_work_def dispatch_loop_effect [OF refl] Let_def)
  then show ?thesis using assms(3) At_dispatch by (auto simp: stage_work_def split: prod.splits) (metis snd_conv)
next
  case At_execute
  let ?h = "(e_host e)\<lparr>now := word_of_nat k\<rparr>" and ?i = "exec_inputs False old"
  have inv: "isa_inv (c_prog C) (c_entry C) rs (s_ex s) (s_glob s)" using assms(2) by (simp add: follows_isa_def)
  have here: "\<not> in_clear ?i \<longrightarrow> (\<forall>u \<in> set (de_uop_queue (s_glob s)).
      address u = i_pc (isa_at (c_prog C) (c_entry C) (length rs + length (ew_uop_queue (s_glob s)))))"
    using assms(5) At_execute by (simp add: exec_inputs_def position_def)
  have "\<not> in_reset ?i" by (simp add: exec_inputs_def)
  from isa_inv_executes [OF assms(1) inv this here, of ?h "s_xports s"] show ?thesis
    using assms(3) At_execute by (auto simp: stage_work_def execute_stage_def split: sum.splits)
next
  case At_writeback
  then show ?thesis using assms(3) by (auto simp: stage_work_def writeback_work_def Let_def split: if_splits list.splits)
next
  case At_memory
  then show ?thesis using assms(3) by (auto simp: stage_work_def split: sum.splits)
qed

lemma edge_no_call:
  assumes "runs_program e C" and "code_inv C rs t s" and "in_region C s"
    and "distinct order" and "set order = set all_stages" and "system_edge e order k False s = Some (Inr s')"
  shows "sys_log (s_glob s') = sys_log (s_glob s)"
proof -
  have p: "code_image (e_disasm e) (e_junk e) C" "simple_program (c_prog C)" "stays_in_code C" "tie_break (e_pick e)"
    using assms(1) by (simp_all add: runs_program_def)
  have run: "run_stages e k False s order s = Some (Inr s')" using assms(6) by (simp add: system_edge_def)
  let ?Q = "\<lambda>S rs a. sys_log (s_glob a) = sys_log (s_glob s)"
  show ?thesis
  proof (cases "clear_out (s_xports s)")
    case True
    have step: "?Q (set sts) (rs @ retired_by st a b) b" if "clear_mid C s (st # sts) rs a" "?Q (set (st # sts)) rs a"
        "stage_work e k False s st a = Some (Inr b)" for st sts rs a b
      using stage_no_call [OF p(2) _ that(3), of rs] that True by (auto simp: clear_mid_def)
    show ?thesis
      using clear_phase [OF clear_startI(1) [OF p(2,4) assms(2) True] clear_midI [OF p(2,4) assms(2) True assms(5)] assms(4) run,
          of ?Q] step by blast
  next
    case False
    have st: "plain_start e C s t" by (rule plain_startI [OF p assms(2) False assms(3)])
    have step: "?Q (set sts) (rs @ retired_by st a b) b" if "plain_mid C s t (st # sts) rs a" "?Q (set (st # sts)) rs a"
        "stage_work e k False s st a = Some (Inr b)" for st sts rs a b
      using stage_no_call [OF p(2) _ that(3), of rs] that queued_at_position [of C rs a] False
      by (auto simp: plain_mid_def queues_ok_def)
    show ?thesis using plain_phase [OF st plain_midI [OF assms(2,5)] assms(4) run, of ?Q] step by blast
  qed
qed

lemma code_run_no_call:
  assumes "code_run e C k s" and "runs_program e C"
  shows "sys_log (s_glob s) = []"
  using assms(1)
proof (induction rule: code_run.induct)
  case (code_start brk pt lga sp u)
  show ?case by (simp add: system_start_def globals_init_def)
next
  case (code_edge k s order s')
  obtain rs t where "code_inv C rs t s" using code_run_inv [OF code_edge.hyps(1) assms(2)] by blast
  from edge_no_call [OF assms(2) this code_edge.hyps(2-5)] code_edge.IH show ?case by simp
qed

subsection \<open>Code that the loader put into memory\<close>

definition in_file :: "elf \<Rightarrow> addr \<Rightarrow> byte \<Rightarrow> bool" where
  "in_file f x b \<longleftrightarrow> x < stack_base \<and> (\<exists>p \<in> set (take (elf_phnum f) (elf_phdrs f)). covers p x \<and>
     (\<forall>q \<in> set (take (elf_phnum f) (elf_phdrs f)). covers q x \<longrightarrow> q = p) \<and> b = segment_byte (elf_bytes f) p x)"

lemma constructed_memory:
  assumes "mem_construct (elf_bytes f) (elf_entry f) (elf_phoff f) (elf_phnum f) (elf_phdrs f) argv = Inr (m, ent, brk)"
  shows "ent = elf_entry f" and "m = memory_new (mem m)" and "in_file f x b \<Longrightarrow> mem m x = b"
proof -
  obtain b0 b1 where ld: "load_segments (elf_bytes f) (take (elf_phnum f) (elf_phdrs f)) (\<lambda>_. 0) = Inr b0"
    and st: "set_up_stack argv b0 = Inr b1" and m: "m = memory_new b1" "ent = elf_entry f"
    using assms by (auto simp: mem_construct_def load_elf_def split: if_splits)
  show "ent = elf_entry f" "m = memory_new (mem m)" using m by (simp_all add: memory_new_def)
  show "mem m x = b" if x_in: "in_file f x b"
  proof -
    let ?ps = "take (elf_phnum f) (elf_phdrs f)"
    obtain p where p: "p \<in> set ?ps" "covers p x" "\<forall>q \<in> set ?ps. covers q x \<longrightarrow> q = p" "b = segment_byte (elf_bytes f) p x"
      and x: "x < stack_base"
      using x_in unfolding in_file_def by blast
    obtain q qs where q: "filter (\<lambda>p. covers p x) (rev ?ps) = q # qs"
      using p(1,2) by (cases "filter (\<lambda>p. covers p x) (rev ?ps)") (auto simp: filter_empty_conv)
    then have "q \<in> set (filter (\<lambda>p. covers p x) (rev ?ps))" by simp
    then have "q = p" using p(3) by auto
    then have "b0 x = b" using load_segments_byte [OF ld, of x] q p(4) by simp
    moreover have "b1 x = b0 x" using set_up_stack_args [OF st] x by blast
    ultimately show ?thesis by (simp add: m memory_new_def)
  qed
qed

text \<open>Programs depend on the bytes of their code only.\<close>

definition same_code :: "code \<Rightarrow> (addr \<Rightarrow> byte) \<Rightarrow> bool" where
  "same_code C b \<longleftrightarrow> (\<forall>x \<in> c_starts C \<union> c_region C. b x = c_mem C x)"

lemma same_code_bytes:
  assumes "same_code C b" and "\<forall>i < n. a + word_of_nat i \<in> c_region C"
  shows "code_bytes b a n = code_bytes (c_mem C) a n"
  using assms by (auto simp: code_bytes_def same_code_def)

lemma same_code_image: "same_code C b \<Longrightarrow> code_image d j C \<Longrightarrow> code_image d j (C\<lparr>c_mem := b\<rparr>)"
  unfolding code_image_def by (simp add: same_code_bytes)

lemma same_code_lands: "same_code C b \<Longrightarrow> lands C t \<Longrightarrow> lands (C\<lparr>c_mem := b\<rparr>) t"
  by (simp add: lands_def same_code_def)

lemma same_code_runs: "same_code C b \<Longrightarrow> runs_program e C \<Longrightarrow> runs_program e (C\<lparr>c_mem := b\<rparr>)"
  using same_code_image same_code_lands by (simp add: runs_program_def stays_in_code_def)

lemma line_of_below: "a = line_of a + word_of_nat (unat (a mod 16))" for a :: addr
  using line_of_offset [of a] by (simp add: algebra_simps)

lemma same_code_boots:
  assumes "same_code C b" and "boots e C"
  shows "boots e (C\<lparr>c_mem := b\<rparr>)"
proof -
  let ?a = "c_entry C"
  have "?a + word_of_nat i \<in> c_region C" if "i < 16 - unat (?a mod 16)" for i
  proof -
    have "?a + word_of_nat i = line_of ?a + word_of_nat (unat (?a mod 16) + i)"
      by (subst line_of_below) (simp add: add.assoc)
    moreover have "unat (?a mod 16) + i < 64" using that by simp
    ultimately show ?thesis using assms(2) unfolding boots_def by metis
  qed
  then have "code_bytes b ?a (16 - unat (?a mod 16)) = code_bytes (c_mem C) ?a (16 - unat (?a mod 16))"
    by (intro same_code_bytes [OF assms(1)]) blast
  then show ?thesis using assms same_code_runs by (simp add: boots_def)
qed

subsection \<open>A program in a file\<close>

definition inc_file :: elf where
  "inc_file = \<lparr>elf_bytes = concat (replicate 65537 [0x48, 0xff, 0xc0]), elf_entry = 0x10005, elf_phoff = 0, elf_phnum = 1,
     elf_phdrs = [\<lparr>p_type = PT_LOAD, p_offset = 0, p_vaddr = 0, p_filesz = 0x30003, p_memsz = 0x30003\<rparr>]\<rparr>"

definition inc_uninit :: uninit where
  "inc_uninit = \<lparr>u_prev_tag = 0, u_last_good = 0, u_rip_changed = False, u_stackpointer = 0, u_op = uop_empty\<rparr>"

lemma repeated_bytes:
  "length (concat (replicate n [a, b, c])) = 3 * n"
  "k < 3 * n \<Longrightarrow> concat (replicate n [a, b, c]) ! k = [a, b, c] ! (k mod 3)"
proof -
  show "length (concat (replicate n [a, b, c])) = 3 * n" by (induction n) simp_all
  show "k < 3 * n \<Longrightarrow> concat (replicate n [a, b, c]) ! k = [a, b, c] ! (k mod 3)"
  proof (induction n arbitrary: k)
    case (Suc n)
    show ?case
    proof (cases "k < 3")
      case True
      then have "k = 0 \<or> k = 1 \<or> k = 2" by linarith
      then show ?thesis by auto
    next
      case False
      then obtain j where j: "k = 3 + j" by (metis le_Suc_ex not_less)
      then have "j < 3 * n" using Suc.prems by simp
      note Suc.IH [OF this]
      moreover have "concat (replicate (Suc n) [a, b, c]) ! k = concat (replicate n [a, b, c]) ! j"
        by (simp add: j nth_append)
      moreover have "k mod 3 = j mod 3" by (simp add: j)
      ultimately show ?thesis by (simp only:)
    qed
  qed simp
qed

lemma incs_in_file:
  assumes "x \<in> c_starts incs \<union> c_region incs"
  shows "in_file inc_file x (c_mem incs x)"
proof -
  have x: "unat x \<le> 0x30000" using assms by (auto simp: incs_def)
  have "(elf_bytes inc_file) ! unat x = [0x48, 0xff, 0xc0] ! (unat x mod 3)"
    unfolding inc_file_def elf.simps by (rule repeated_bytes(2)) (use x in simp)
  then show ?thesis using x
    by (simp add: in_file_def inc_file_def incs_def covers_def in_range_def segment_byte_def word_less_nat_alt
        stack_base_def mem_size_def)
qed

lemma inc_file_loads:
  "\<exists>m brk. mem_construct (elf_bytes inc_file) (elf_entry inc_file) (elf_phoff inc_file) (elf_phnum inc_file)
     (elf_phdrs inc_file) [[0x61]] = Inr (m, 0x10005, brk)"
proof -
  have "length (elf_bytes inc_file) = 3 * 65537" by (simp only: inc_file_def elf.simps repeated_bytes(1))
  then have "length (elf_bytes inc_file) = 196611" by simp
  moreover have "elf_phdrs inc_file = [\<lparr>p_type = PT_LOAD, p_offset = 0, p_vaddr = 0, p_filesz = 0x30003, p_memsz = 0x30003\<rparr>]"
    by (simp add: inc_file_def)
  ultimately obtain b where b: "load_elf (elf_bytes inc_file) 0x10005 0 1 (elf_phdrs inc_file) (\<lambda>_. 0) = Inr (b, 0x10005)"
    by (simp add: load_elf_def load_segment_def and_then_def mem_size_def Let_def)
  have "unat (stack_base + 24 :: addr) = 67107864" "unat (stack_base + 26 :: addr) = 67107866"
    by (simp_all add: stack_base_def mem_size_def)
  then obtain b' where "set_up_stack [[0x61]] b = Inr b'"
    by (auto simp: set_up_stack_def and_then_def stack_base_def mem_size_def)
  then show ?thesis using b by (simp add: mem_construct_def inc_file_def)
qed

subsection \<open>Property\<close>

text \<open>C2: from the file to the registers: when the loader accepts the file and its arguments, and the segments of
  the file hold the code of a program of register instructions below the stack, the first 229 cycles of the simulator
  complete without a fault or a system call, whatever the order of the handlers; by then instructions have retired,
  starting with the one at the entry point of the file, in the order in which the sequential machine executes them,
  and the register file holds the machine's registers.\<close>

theorem simulator_executes_file:
  assumes "2 \<le> length argv"
    and "mem_construct (elf_bytes f) (elf_entry f) (elf_phoff f) (elf_phnum f) (elf_phdrs f) (tl argv) = Inr (m, ent, brk)"
    and "c_entry C = elf_entry f" and "\<forall>x \<in> c_starts C \<union> c_region C. in_file f x (c_mem C x)"
    and "code_image (e_disasm e) (e_junk e) C" and "simple_program (c_prog C)" and "stays_in_code C" and "tie_break (e_pick e)"
    and "0xffff < line_of (c_entry C)" and "line_of (c_entry C) < mem_size - 80"
    and "\<forall>i < 64. line_of (c_entry C) + word_of_nat i \<in> c_region C"
    and "delivers (e_disasm e) (hex_text (code_bytes (c_mem C) (c_entry C) (16 - unat (c_entry C mod 16)))) 0 xs c" and "xs \<noteq> []"
    and "\<not> u_rip_changed u" and "\<forall>j < 229. distinct (order j) \<and> set (order j) = set all_stages"
  shows "\<exists>s rs t. simulate e u f argv order 229 = Inr (Some (Inr s)) \<and> sys_log (s_glob s) = [] \<and>
    rs \<noteq> [] \<and> hd rs = elf_entry f \<and>
    (\<forall>j < length rs. \<exists>t. isa_run (c_prog C) j (isa_start (elf_entry f)) = Inr t \<and> rs ! j = i_pc t) \<and>
    isa_run (c_prog C) (length rs) (isa_start (elf_entry f)) = Inr t \<and>
    (\<forall>r. is_gpr r \<and> r \<noteq> UD_R_RSP \<longrightarrow> arf_get (regfile (s_glob s)) r = arf_get (i_regs t) r)"
proof -
  let ?C = "C\<lparr>c_mem := mem m\<rparr>" and ?os = "map order [0..<229]"
  have "same_code C (mem m)" using constructed_memory(3) [OF assms(2)] assms(4) by (simp add: same_code_def)
  moreover have "boots e C" unfolding boots_def runs_program_def using assms(5-13) by blast
  ultimately have boots: "boots e ?C" by (rule same_code_boots)
  then have runs: "runs_program e ?C" by (simp add: boots_def)
  have "length ?os = 229" by (simp only: length_map length_upt diff_zero)
  moreover have "set ?os = order ` {0..<229}" by (simp only: set_map set_upt)
  then have "\<forall>order \<in> set ?os. distinct order \<and> set order = set all_stages" using assms(15) by simp
  ultimately have "\<exists>s rs t. system_run e ?os 0 (system_start (c_entry ?C) brk (c_mem ?C) (u_prev_tag u) (u_last_good u) False
        (u_stackpointer u) (u_op u)) = Some (Inr s) \<and> code_run e ?C 114500 s \<and> code_inv ?C rs t s \<and> rs \<noteq> []"
    by (rule first_retires(1) [OF boots])
  then obtain s rs t where s: "system_run e ?os 0 (system_start (elf_entry f) brk (mem m) (u_prev_tag u) (u_last_good u) False
        (u_stackpointer u) (u_op u)) = Some (Inr s)" "code_run e ?C 114500 s" "code_inv ?C rs t s" "rs \<noteq> []"
    using assms(3) by auto
  have log: "sys_log (s_glob s) = []" by (rule code_run_no_call [OF s(2) runs])
  then have "sim_edges e ?os 0 (system_start (elf_entry f) brk (mem m) (u_prev_tag u) (u_last_good u) False
        (u_stackpointer u) (u_op u)) = Some (Inr s)"
    by (intro sim_edges_run [OF s(1)]) simp
  then have sim: "simulate e u f argv order 229 = Inr (Some (Inr s))"
    using assms(1,2,14) constructed_memory(1) [OF assms(2)] by (simp add: simulate_def del: upt_Suc)
  from code_inv_machine [OF s(3)] assms(3,6) have mach:
    "\<forall>j < length rs. \<exists>t. isa_run (c_prog C) j (isa_start (elf_entry f)) = Inr t \<and> rs ! j = i_pc t"
    "\<exists>t. isa_run (c_prog C) (length rs) (isa_start (elf_entry f)) = Inr t \<and>
       (\<forall>r. is_gpr r \<and> r \<noteq> UD_R_RSP \<longrightarrow> arf_get (regfile (s_glob s)) r = arf_get (i_regs t) r)"
    by (simp_all add: Let_def)
  have "rs ! 0 = elf_entry f" using mach(1) [rule_format, of 0] s(4) by (auto simp: isa_start_def)
  then have "hd rs = elf_entry f" using s(4) by (simp add: hd_conv_nth)
  then show ?thesis using sim log s(4) mach by blast
qed

theorem simulator_executes_file_witness:
  "\<exists>s n. simulate inc_env inc_uninit inc_file [[0x73], [0x61]] (\<lambda>_. rev all_stages) 229 = Inr (Some (Inr s)) \<and>
     0 < n \<and> rax (regfile (s_glob s)) = word_of_nat n"
proof -
  have p: "code_image (e_disasm inc_env) (e_junk inc_env) incs" "simple_program (c_prog incs)" "stays_in_code incs"
      "tie_break (e_pick inc_env)"
    and b: "0xffff < line_of (c_entry incs)" "line_of (c_entry incs) < mem_size - 80"
      "\<forall>i < 64. line_of (c_entry incs) + word_of_nat i \<in> c_region incs"
      "\<exists>xs c. delivers (e_disasm inc_env) (hex_text (code_bytes (c_mem incs) (c_entry incs) (16 - unat (c_entry incs mod 16)))) 0 xs c \<and> xs \<noteq> []"
    using incs_boots unfolding boots_def runs_program_def by blast+
  have e: "c_entry incs = elf_entry inc_file" by (simp add: incs_def inc_file_def)
  obtain m brk where c: "mem_construct (elf_bytes inc_file) (elf_entry inc_file) (elf_phoff inc_file) (elf_phnum inc_file)
      (elf_phdrs inc_file) (tl [[0x73], [0x61]]) = Inr (m, 0x10005, brk)"
    using inc_file_loads by (simp only: list.sel) blast
  obtain xs c where d: "delivers (e_disasm inc_env) (hex_text (code_bytes (c_mem incs) (c_entry incs) (16 - unat (c_entry incs mod 16)))) 0 xs c"
      "xs \<noteq> []" using b(4) by blast
  have h: "2 \<le> length [[0x73], [0x61 :: byte]]" "\<not> u_rip_changed inc_uninit"
    "\<forall>x \<in> c_starts incs \<union> c_region incs. in_file inc_file x (c_mem incs x)"
    "\<forall>j < 229 :: nat. distinct ((\<lambda>_. rev all_stages) j) \<and> set ((\<lambda>_. rev all_stages) j) = set all_stages"
    using incs_in_file stages_distinct by (simp_all add: inc_uninit_def)
  obtain s rs t where
    s: "simulate inc_env inc_uninit inc_file [[0x73], [0x61]] (\<lambda>_. rev all_stages) 229 = Inr (Some (Inr s))"
      "rs \<noteq> ([] :: addr list)" "isa_run (c_prog incs) (length rs) (isa_start (elf_entry inc_file)) = Inr t"
      "\<forall>r. is_gpr r \<and> r \<noteq> UD_R_RSP \<longrightarrow> arf_get (regfile (s_glob s)) r = arf_get (i_regs t) r"
    using simulator_executes_file [OF h(1) c e h(3) p b(1-3) d h(2,4)] by (elim exE conjE) (rule that; assumption)
  have "rax (regfile (s_glob s)) = word_of_nat (length rs)" using incs_run [OF s(3)] s(4) [rule_format, of UD_R_RAX] by simp
  then show ?thesis using s(1,2) by (intro exI [of _ s] exI [of _ "length rs"]) simp
qed

end
