(* ===== verification/CodeLive.thy ===== *)
theory CodeLive
  imports Simulator
begin

text \<open>
  Progress on the wired simulator: a program in memory keeps retiring instructions for as long as fetch stays in its
  code. Each instruction needs at most two lines; a line arrives because the memory answers every request; and a
  micro-operation in one of the queues moves to the next one, because a stage that has worked raises its ready line.
\<close>

subsection \<open>What a run retires\<close>

fun retired_stages :: "env \<Rightarrow> nat \<Rightarrow> system \<Rightarrow> stage list \<Rightarrow> system \<Rightarrow> addr list" where
  "retired_stages e k old [] s = []"
| "retired_stages e k old (st # sts) s = (case stage_work e k False old st s of
     Some (Inr s') \<Rightarrow> retired_by st s s' @ retired_stages e k old sts s'
   | _ \<Rightarrow> [])"

definition retired_edge :: "env \<Rightarrow> stage list \<Rightarrow> nat \<Rightarrow> system \<Rightarrow> addr list" where
  "retired_edge e order k s = retired_stages e k s order s"

fun retired_run :: "env \<Rightarrow> stage list list \<Rightarrow> nat \<Rightarrow> system \<Rightarrow> addr list" where
  "retired_run e [] k s = []"
| "retired_run e (order # os) k s = (case system_edge e order k False s of
     Some (Inr s') \<Rightarrow> retired_edge e order k s @ retired_run e os (k + 500) s'
   | _ \<Rightarrow> [])"

lemma plain_retires:
  assumes "plain_start e C old t" and "plain_mid C old t sts rs s" and "distinct sts"
    and "run_stages e k False old sts s = Some (Inr s')" and "Q (set sts) rs s"
    and "\<And>st sts rs s s'. plain_mid C old t (st # sts) rs s \<Longrightarrow> st \<notin> set sts \<Longrightarrow> Q (set (st # sts)) rs s \<Longrightarrow>
      stage_work e k False old st s = Some (Inr s') \<Longrightarrow> Q (set sts) (rs @ retired_by st s s') s'"
  shows "plain_mid C old t [] (rs @ retired_stages e k old sts s) s' \<and> Q {} (rs @ retired_stages e k old sts s) s'"
  using assms(2-5)
proof (induction sts arbitrary: rs s)
  case (Cons st sts)
  obtain s1 where s1: "stage_work e k False old st s = Some (Inr s1)" "run_stages e k False old sts s1 = Some (Inr s')"
    using Cons.prems(3) by (rule run_stages_cons)
  have n: "st \<notin> set sts" "distinct sts" using Cons.prems(2) by simp_all
  from Cons.IH [OF plain_stage [OF assms(1) Cons.prems(1) n(1) s1(1)] n(2) s1(2) assms(6) [OF Cons.prems(1) n(1) Cons.prems(4) s1(1)]]
  show ?case by (simp add: s1(1))
qed simp

lemma clear_retires:
  assumes "clear_start e C old" and "clear_mid C old sts rs s" and "distinct sts"
    and "run_stages e k False old sts s = Some (Inr s')" and "Q (set sts) rs s"
    and "\<And>st sts rs s s'. clear_mid C old (st # sts) rs s \<Longrightarrow> st \<notin> set sts \<Longrightarrow> Q (set (st # sts)) rs s \<Longrightarrow>
      stage_work e k False old st s = Some (Inr s') \<Longrightarrow> Q (set sts) (rs @ retired_by st s s') s'"
  shows "clear_mid C old [] (rs @ retired_stages e k old sts s) s' \<and> Q {} (rs @ retired_stages e k old sts s) s'"
  using assms(2-5)
proof (induction sts arbitrary: rs s)
  case (Cons st sts)
  obtain s1 where s1: "stage_work e k False old st s = Some (Inr s1)" "run_stages e k False old sts s1 = Some (Inr s')"
    using Cons.prems(3) by (rule run_stages_cons)
  have n: "st \<notin> set sts" "distinct sts" using Cons.prems(2) by simp_all
  from Cons.IH [OF clear_stage [OF assms(1) Cons.prems(1) n(1) s1(1)] n(2) s1(2) assms(6) [OF Cons.prems(1) n(1) Cons.prems(4) s1(1)]]
  show ?case by (simp add: s1(1))
qed simp

subsection \<open>The invariant of a run\<close>

text \<open>\<open>rs\<close> is what has retired, fetch is at \<open>t\<close>; a queued request is behind one on its way, and what decode
  has queued was announced.\<close>

definition announced :: "system \<Rightarrow> bool" where
  "announced s \<longleftrightarrow> (dd_uop_queue (s_glob s) \<noteq> [] \<longrightarrow> dec_out_ready (s_dec s))"

definition live :: "code \<Rightarrow> nat \<Rightarrow> addr list \<Rightarrow> addr \<Rightarrow> system \<Rightarrow> bool" where
  "live C k rs t s \<longleftrightarrow> code_inv C rs t s \<and> mem_inv k (s_mem s) \<and> announced s"

lemma announced_stage:
  assumes "announced s" and "follows_isa C rs s" and "stage_work e k False old st s = Some (Inr s')"
    and "st = At_execute \<Longrightarrow> dd_uop_queue (s_glob s') = dd_uop_queue (s_glob s)"
  shows "announced s'"
proof (cases st)
  case At_decode
  then show ?thesis using assms(1,3)
    by (auto simp: announced_def stage_work_def decoder_work_def split: if_splits option.splits sum.splits)
next
  case At_dispatch
  obtain d g where w: "dispatch_work False (clear_out (s_xports old)) (dec_out_ready (s_dec old)) (s_disp s) (s_glob s) = (d, g)"
    by (metis surj_pair)
  then have "s' = s\<lparr>s_disp := d, s_glob := g\<rparr>" using assms(3) At_dispatch by (simp add: stage_work_def)
  moreover have "dd_uop_queue g \<noteq> [] \<longrightarrow> dd_uop_queue (s_glob s) \<noteq> []"
    using w dispatch_loop_batch [of "s_glob s"] by (auto simp: dispatch_work_def Let_def split: if_splits)
  ultimately show ?thesis using assms(1) by (simp add: announced_def)
next
  case At_execute
  then show ?thesis using assms(1,4) keeps [OF assms(3)] by (simp add: announced_def)
next
  case At_writeback
  then show ?thesis using assms(1,3) writeback_queues(2) [of e k old s s'] keeps [OF assms(3)] by (simp add: announced_def)
qed (use assms(1) outer_queues [OF assms(3)] keeps [OF assms(3)] in \<open>simp_all add: announced_def same_queues_def\<close>)

lemma plain_announced:
  assumes "plain_start e C old t" and "plain_mid C old t (st # sts) rs s" and "announced s"
    and "stage_work e k False old st s = Some (Inr s')"
  shows "announced s'"
proof -
  have q: "queues_ok C rs s" and p: "simple_program (c_prog C)" "\<not> clear_out (s_xports old)"
    using assms(1,2) by (simp_all add: plain_mid_def plain_start_def)
  have f: "follows_isa C rs s" using q by (simp add: queues_ok_def)
  have "dd_uop_queue (s_glob s') = dd_uop_queue (s_glob s)" if "st = At_execute"
  proof -
    have x: "s_xports s = s_xports old" using assms(2) that by (simp add: plain_mid_def)
    show ?thesis
      using execute_stage_follows [OF p(1) f assms(4) [unfolded that] x] queued_at_position [OF q] x p(2) by simp
  qed
  then show ?thesis by (rule announced_stage [OF assms(3) f assms(4)])
qed

lemma clear_announced:
  assumes "clear_start e C old" and "clear_mid C old (st # sts) rs s" and "announced s"
    and "stage_work e k False old st s = Some (Inr s')"
  shows "announced s'"
proof -
  have f: "follows_isa C rs s" and p: "simple_program (c_prog C)" "clear_out (s_xports old)"
    using assms(1,2) by (simp_all add: clear_mid_def clear_start_def)
  have "dd_uop_queue (s_glob s') = dd_uop_queue (s_glob s)" if "st = At_execute"
  proof -
    have x: "s_xports s = s_xports old" using assms(2) that by (simp add: clear_mid_def)
    show ?thesis using execute_stage_follows [OF p(1) f assms(4) [unfolded that] x] p(2) by simp
  qed
  then show ?thesis by (rule announced_stage [OF assms(3) f assms(4)])
qed

text \<open>The environment of an edge: a program on the simulator, the invariant, lines of the code only.\<close>

definition edge_ok :: "env \<Rightarrow> code \<Rightarrow> nat \<Rightarrow> stage list \<Rightarrow> addr list \<Rightarrow> addr \<Rightarrow> system \<Rightarrow> system \<Rightarrow> bool" where
  "edge_ok e C k order rs t s s' \<longleftrightarrow> runs_program e C \<and> live C k rs t s \<and> in_region C s \<and>
     distinct order \<and> set order = set all_stages \<and> system_edge e order k False s = Some (Inr s')"

lemma plain_edgeE:
  assumes "edge_ok e C k order rs t s s'" and "\<not> clear_out (s_xports s)" and "Q (set all_stages) rs s"
    and "\<And>st sts rs a b. plain_start e C s t \<Longrightarrow> plain_mid C s t (st # sts) rs a \<Longrightarrow> st \<notin> set sts \<Longrightarrow> Q (set (st # sts)) rs a \<Longrightarrow>
      stage_work e k False s st a = Some (Inr b) \<Longrightarrow> Q (set sts) (rs @ retired_by st a b) b"
  shows "plain_mid C s t [] (rs @ retired_edge e order k s) s' \<and> Q {} (rs @ retired_edge e order k s) s'"
proof -
  have p: "code_image (e_disasm e) (e_junk e) C" "simple_program (c_prog C)" "stays_in_code C" "tie_break (e_pick e)"
    and inv: "code_inv C rs t s" "in_region C s" and o: "distinct order" "set order = set all_stages"
    and run: "run_stages e k False s order s = Some (Inr s')"
    using assms(1) by (simp_all add: edge_ok_def runs_program_def live_def system_edge_def)
  have st: "plain_start e C s t" by (rule plain_startI [OF p inv(1) assms(2) inv(2)])
  show ?thesis unfolding retired_edge_def
    by (rule plain_retires [OF st plain_midI [OF inv(1) o(2)] o(1) run]) (use assms(3,4) st o(2) in simp_all)
qed

lemma clear_edgeE:
  assumes "edge_ok e C k order rs t s s'" and "clear_out (s_xports s)" and "Q (set all_stages) rs s"
    and "\<And>st sts rs a b. clear_start e C s \<Longrightarrow> clear_mid C s (st # sts) rs a \<Longrightarrow> st \<notin> set sts \<Longrightarrow> Q (set (st # sts)) rs a \<Longrightarrow>
      stage_work e k False s st a = Some (Inr b) \<Longrightarrow> Q (set sts) (rs @ retired_by st a b) b"
  shows "clear_mid C s [] (rs @ retired_edge e order k s) s' \<and> Q {} (rs @ retired_edge e order k s) s'"
proof -
  have p: "simple_program (c_prog C)" "tie_break (e_pick e)"
    and inv: "code_inv C rs t s" and o: "distinct order" "set order = set all_stages"
    and run: "run_stages e k False s order s = Some (Inr s')"
    using assms(1) by (simp_all add: edge_ok_def runs_program_def live_def system_edge_def)
  have st: "clear_start e C s" by (rule clear_startI(1) [OF p inv assms(2)])
  show ?thesis unfolding retired_edge_def
    by (rule clear_retires [OF st clear_midI [OF p inv assms(2) o(2)] o(1) run]) (use assms(3,4) st o(2) in simp_all)
qed

lemma edge_memory:
  assumes "edge_ok e C k order rs t s s'"
  shows "mem_work (e_pick e) k (memory_inputs False s) (s_mem s) = Inr (s_mem s')"
proof -
  have a: "runs_program e C" "code_inv C rs t s" "in_region C s" "distinct order" "set order = set all_stages"
      "system_edge e order k False s = Some (Inr s')"
    using assms by (simp_all add: edge_ok_def live_def)
  have "At_memory \<in> set order" by (simp add: a(5) all_stages_def)
  then show ?thesis
    using run_memory [OF a(6) [unfolded system_edge_def] a(4) edge_no_call [OF a]] by simp
qed

lemma live_edge:
  assumes "edge_ok e C k order rs t s s'"
  shows "live C (k + 500) (rs @ retired_edge e order k s) (if clear_out (s_xports s) then new_RIP (s_xports s) else after_line s t) s'"
proof -
  have inv: "code_inv C rs t s" "mem_inv k (s_mem s)" "announced s" and p: "simple_program (c_prog C)" "tie_break (e_pick e)"
    using assms by (simp_all add: edge_ok_def live_def runs_program_def)
  have "mem_inv k (s_mem s')" by (rule mem_work_inv [OF p(2) inv(2) order_refl edge_memory [OF assms]])
  then have mem: "mem_inv (k + 500) (s_mem s')" by (auto simp: mem_inv_def on_time_def intro: order_trans)
  show ?thesis
  proof (cases "clear_out (s_xports s)")
    case True
    have "clear_mid C s [] (rs @ retired_edge e order k s) s' \<and> announced s'"
      by (rule clear_edgeE [OF assms True, of "\<lambda>_ _. announced"]) (use inv(3) clear_announced in blast)+
    then show ?thesis using clear_end [OF p inv(1) True] mem True by (simp add: live_def)
  next
    case False
    have "plain_mid C s t [] (rs @ retired_edge e order k s) s' \<and> announced s'"
      by (rule plain_edgeE [OF assms False, of "\<lambda>_ _. announced"]) (use inv(3) plain_announced in blast)+
    then show ?thesis using plain_end mem False by (simp add: live_def)
  qed
qed

lemma live_start:
  assumes "runs_program e C"
  shows "live C 0 [] (c_entry C) (system_start (c_entry C) brk (c_mem C) pt lga False sp u)"
proof -
  have "lands C (c_entry C)" using assms by (simp add: runs_program_def stays_in_code_def)
  then show ?thesis using code_inv_start
    by (auto simp: live_def mem_inv_def waiting_ok_def on_time_def announced_def)
      (simp_all add: system_start_def memory_new_def globals_init_def)
qed

subsection \<open>One edge of the queues\<close>

definition can_retire :: "system \<Rightarrow> bool" where
  "can_retire s \<longleftrightarrow> ew_uop_queue (s_glob s) \<noteq> [] \<and> out_ready (s_xports s)"

definition can_execute :: "system \<Rightarrow> bool" where
  "can_execute s \<longleftrightarrow> de_uop_queue (s_glob s) \<noteq> [] \<and> disp_out_ready (s_disp s)"

definition can_dispatch :: "system \<Rightarrow> bool" where
  "can_dispatch s \<longleftrightarrow> dd_uop_queue (s_glob s) \<noteq> [] \<and> dec_out_ready (s_dec s)"

text \<open>In the middle of an edge that began with \<open>n\<close> retired: something has been executed or retired; or not, and
  no jump has been taken.\<close>

definition moved :: "nat \<Rightarrow> stage set \<Rightarrow> addr list \<Rightarrow> system \<Rightarrow> bool" where
  "moved n S rs s \<longleftrightarrow> n < length rs \<or> n \<le> length rs \<and> At_execute \<notin> S \<and> can_retire s"

definition still :: "nat \<Rightarrow> stage set \<Rightarrow> addr list \<Rightarrow> system \<Rightarrow> bool" where
  "still n S rs s \<longleftrightarrow> n \<le> length rs \<and> (At_execute \<in> S \<or> \<not> clear_out (s_xports s))"

lemma mid_execute_moves:
  assumes "plain_start e C old t" and "plain_mid C old t (At_execute # sts) rs s"
    and "stage_work e k False old At_execute s = Some (Inr s')"
  shows "dd_uop_queue (s_glob s') = dd_uop_queue (s_glob s)"
    and "can_retire s' \<or> de_uop_queue (s_glob s') = de_uop_queue (s_glob s) \<and> \<not> clear_out (s_xports s')"
proof -
  have q: "queues_ok C rs s" "s_xports s = s_xports old" and p: "simple_program (c_prog C)" "\<not> clear_out (s_xports old)"
    using assms(1,2) by (simp_all add: plain_mid_def plain_start_def)
  have f: "follows_isa C rs s" using q(1) by (simp add: queues_ok_def)
  have here: "\<not> clear_out (s_xports old) \<longrightarrow> (\<forall>u \<in> set (de_uop_queue (s_glob s)). address u = position C rs s)"
    using queued_at_position [OF q(1)] q(2) by simp
  note x = execute_stage_follows [OF p(1) f assms(3) q(2) here, unfolded if_not_P [OF p(2)]]
  show "dd_uop_queue (s_glob s') = dd_uop_queue (s_glob s)" using x by blast
  show "can_retire s' \<or> de_uop_queue (s_glob s') = de_uop_queue (s_glob s) \<and> \<not> clear_out (s_xports s')"
    using x by (auto simp: can_retire_def)
qed

lemma writeback_moves:
  assumes "stage_work e k False old At_writeback s = Some (Inr s')"
  shows "retired_by At_writeback s s' = [] \<Longrightarrow> can_retire s \<Longrightarrow> can_retire s'"
  using writeback_queues(1,3) [OF assms] keeps(1) [OF assms]
  by (cases "out_ready (s_xports old)") (simp_all add: can_retire_def same_queues_def)

lemma moved_stage:
  assumes "plain_mid C old t (st # sts) rs s" and "st \<notin> set sts" and "moved n (set (st # sts)) rs s"
    and "stage_work e k False old st s = Some (Inr s')"
  shows "moved n (set sts) (rs @ retired_by st s s') s'"
proof -
  have f: "follows_isa C rs s" using assms(1) by (simp add: plain_mid_def queues_ok_def)
  consider "n < length rs" | "n \<le> length rs" "At_execute \<notin> set sts" "st \<noteq> At_execute" "can_retire s"
    using assms(3) by (auto simp: moved_def)
  then show ?thesis
  proof cases
    case 2
    have "can_retire s' \<or> retired_by st s s' \<noteq> []"
    proof (cases st)
      case At_decode
      then show ?thesis using 2 decode_queues [of e k old s s'] keeps [OF assms(4)] assms(4) by (simp add: can_retire_def)
    next
      case At_dispatch
      then show ?thesis using 2 dispatch_queues(1) [OF f] keeps [OF assms(4)] assms(4) by (simp add: can_retire_def)
    next
      case At_writeback
      then show ?thesis using 2 writeback_moves [of e k old s s'] assms(4) by blast
    qed (use 2 outer_queues [OF assms(4)] keeps [OF assms(4)] in \<open>auto simp: can_retire_def same_queues_def\<close>)
    then show ?thesis using 2 by (cases "retired_by st s s'") (auto simp: moved_def)
  qed (simp add: moved_def)
qed

text \<open>A handler of a quiet edge: it executes, or the edge stays quiet.\<close>

lemma still_stage:
  assumes "plain_start e C old t" and "plain_mid C old t (st # sts) rs s" and "st \<notin> set sts" and "still n (set (st # sts)) rs s"
    and "stage_work e k False old st s = Some (Inr s')"
  shows "moved n (set sts) (rs @ retired_by st s s') s' \<or> still n (set sts) (rs @ retired_by st s s') s'"
proof (cases "st = At_execute")
  case True
  then show ?thesis using assms mid_execute_moves(2) [OF assms(1), of sts rs s k s'] by (auto simp: moved_def still_def)
next
  case False
  then show ?thesis using assms(3,4) keeps [OF assms(5)] by (auto simp: still_def)
qed

lemma mid_restarting:
  assumes "plain_start e C old t" and "plain_mid C old t (st # sts) rs s" and "st \<noteq> At_decode"
    and "stage_work e k False old st s = Some (Inr s')"
  shows "restarting s' = restarting s"
proof -
  have q: "queues_ok C rs s" and p: "simple_program (c_prog C)" "\<not> clear_out (s_xports old)"
    using assms(1,2) by (simp_all add: plain_mid_def plain_start_def)
  have f: "follows_isa C rs s" using q by (simp add: queues_ok_def)
  have "RIP_jump (s_glob s') = RIP_jump (s_glob s)"
  proof (cases st)
    case At_fetch
    then show ?thesis using plain_fetch_front [OF assms(1)] assms(2,4) by blast
  next
    case At_dispatch
    then show ?thesis using dispatch_stage_follows [OF f] assms(4) by blast
  next
    case At_execute
    have x: "s_xports s = s_xports old" using assms(2) At_execute by (simp add: plain_mid_def)
    then have "\<not> clear_out (s_xports old) \<longrightarrow> (\<forall>u \<in> set (de_uop_queue (s_glob s)). address u = position C rs s)"
      using queued_at_position [OF q] by simp
    from execute_stage_follows [OF p(1) f assms(4) [unfolded At_execute] x this] show ?thesis by blast
  next
    case At_writeback
    then show ?thesis using writeback_stage_follows [OF f] assms(4) by blast
  next
    case At_memory
    then show ?thesis using assms(4) by (auto simp: stage_work_def split: sum.splits)
  qed (use assms(3) in simp)
  then show ?thesis using keeps(2) [OF assms(4,3)] by (simp add: restarting_def)
qed

text \<open>The longest instruction has fifteen bytes: from an instruction on, sixteen bytes of code hold at least one.\<close>

definition full_lines :: "env \<Rightarrow> code \<Rightarrow> bool" where
  "full_lines e C \<longleftrightarrow> (\<forall>a \<in> c_starts C. \<forall>n xs c. 16 \<le> n \<longrightarrow> (\<forall>i < n. a + word_of_nat i \<in> c_region C) \<longrightarrow>
     delivers (e_disasm e) (hex_text (code_bytes (c_mem C) a n)) 0 xs c \<longrightarrow> xs \<noteq> [])"

lemma decode_moves:
  assumes "plain_start e C old t" and "full_lines e C" and "f_out_ready (s_fports old)"
    and "plain_mid C old t (At_decode # sts) rs s" and "stage_work e k False old At_decode s = Some (Inr s')"
  shows "dec_out_ready (s_dec s') \<and> \<not> restarting s' \<and> (restarting s \<or> dd_uop_queue (s_glob s') \<noteq> [])"
proof -
  have at: "queues_ok C rs s" "decode_at C rs s t" using assms(4) by (simp_all add: plain_mid_def)
  have start: "restarting s \<longrightarrow> lands C t" "\<not> restarting s \<longrightarrow> last_good_addr (s_dec s) \<in> c_starts C"
    using at by (auto simp: queues_ok_def decode_at_def)
  have line: "line_at (c_mem C) (s_fports old) t" "\<forall>i < 16. line_of t + word_of_nat i \<in> c_region C"
    and img: "code_image (e_disasm e) (e_junk e) C" and clr: "\<not> clear_out (s_xports old)"
    using assms(1,3) by (auto simp: plain_start_def front_start_def front_at_def split: if_splits)
  obtain as d1 g1 where
    w: "decode_opcodes (e_disasm e) (e_junk e) (decoder_inputs False old) (s_dec s, s_glob s) = Some (Inr (d1, g1))"
      "dd_uop_queue g1 = dd_uop_queue (s_glob s) @ map (c_prog C) as" "\<not> first_run d1" "\<not> RIP_jump g1"
      "restarting s \<or> as \<noteq> []"
  proof (cases "restarting s")
    case True
    from decode_line [OF img line at(2) start, of False] show ?thesis
      unfolding Let_def by (elim exE conjE) (rule that, assumption, simp_all add: True)
  next
    case False
    obtain n where n: "16 \<le> n" "hands_over C s (decoder_inputs False old) t (last_good_addr (s_dec s)) n"
      using next_text [OF line at(2) _ False] start(2) False by blast
    then have h: "\<forall>i < n. last_good_addr (s_dec s) + word_of_nat i \<in> c_region C" "0 < n"
        "decode_text (decoder_inputs False old) (s_dec s) (RIP_jump (s_glob s)) =
          (hex_text (code_bytes (c_mem C) (last_good_addr (s_dec s)) n), last_good_addr (s_dec s), False)"
      and a: "last_good_addr (s_dec s) \<in> c_starts C"
      by (simp_all add: hands_over_def)
    have q: "scratch_q (s_dec s) = []" using at(2) by (simp add: decode_at_def)
    from image_decodes [OF img a h q] obtain as b k ys c where
      d: "decode_opcodes (e_disasm e) (e_junk e) (decoder_inputs False old) (s_dec s, s_glob s) = Some (Inr
        ((s_dec s)\<lparr>rem_string := hex_text (code_bytes (c_mem C) b (n - k)), first_run := False, last_good_addr := b, scratch_q := []\<rparr>,
         (s_glob s)\<lparr>dd_uop_queue := dd_uop_queue (s_glob s) @ map (c_prog C) as, RIP_jump := False\<rparr>))"
      and ys: "delivers (e_disasm e) (hex_text (code_bytes (c_mem C) (last_good_addr (s_dec s)) n)) 0 ys c" "length as = length ys"
      by blast
    have "ys \<noteq> []" using assms(2) a n(1) h(1) ys(1) unfolding full_lines_def by blast
    then have "as \<noteq> []" using ys(2) by auto
    then show ?thesis using that [OF d, of as] by simp
  qed
  have "s' = s\<lparr>s_dec := d1\<lparr>dec_out_ready := True\<rparr>, s_glob := g1\<rparr>"
    using assms(3,5) clr w(1) by (simp add: stage_work_def decoder_work_def decoder_inputs_def)
  then show ?thesis using w(2-5) by (auto simp: restarting_def)
qed

subsection \<open>From one queue to the next\<close>

definition pending :: "nat \<Rightarrow> stage set \<Rightarrow> addr list \<Rightarrow> system \<Rightarrow> bool" where
  "pending n S rs s \<longleftrightarrow> n < length rs \<or> n \<le> length rs \<and> At_writeback \<in> S \<and> ew_uop_queue (s_glob s) \<noteq> []"

lemma pending_stage:
  assumes "out_ready (s_xports old)" and "follows_isa C rs s" and "pending n (set (st # sts)) rs s"
    and "stage_work e k False old st s = Some (Inr s')"
    and "st = At_execute \<Longrightarrow> ew_uop_queue (s_glob s) \<noteq> [] \<Longrightarrow> ew_uop_queue (s_glob s') \<noteq> []"
  shows "pending n (set sts) (rs @ retired_by st s s') s'"
proof (cases st)
  case At_decode
  then show ?thesis using assms(3,4) decode_queues [of e k old s s'] by (auto simp: pending_def)
next
  case At_dispatch
  then show ?thesis using assms(3,4) dispatch_queues(1) [OF assms(2)] by (auto simp: pending_def)
next
  case At_execute
  then show ?thesis using assms(3,5) by (auto simp: pending_def)
next
  case At_writeback
  have "ew_uop_queue (s_glob s) \<noteq> [] \<Longrightarrow> retired_by st s s' \<noteq> []"
    using writeback_queues(3) [of e k old s s'] assms(1,4) At_writeback by simp
  then show ?thesis using assms(3) by (cases "retired_by st s s'") (auto simp: pending_def)
qed (use assms(3) outer_queues [OF assms(4)] in \<open>auto simp: pending_def same_queues_def\<close>)

lemma step_retire:
  assumes "edge_ok e C k order rs t s s'" and "can_retire s"
  shows "retired_edge e order k s \<noteq> []"
proof -
  have p: "simple_program (c_prog C)" using assms(1) by (simp add: edge_ok_def runs_program_def)
  have start: "pending (length rs) (set all_stages) rs s" and rdy: "out_ready (s_xports s)"
    using assms(2) by (simp_all add: pending_def can_retire_def all_stages_def)
  have "pending (length rs) {} (rs @ retired_edge e order k s) s'"
  proof (cases "clear_out (s_xports s)")
    case False
    have step: "pending (length rs) (set sts) (rs' @ retired_by st a b) b"
      if "plain_start e C s t" "plain_mid C s t (st # sts) rs' a" "pending (length rs) (set (st # sts)) rs' a"
        "stage_work e k False s st a = Some (Inr b)" for st sts rs' a b
      by (rule pending_stage [OF rdy _ that(3,4)]) (use that mid_executes(3) [OF that(1)] in \<open>auto simp: plain_mid_def queues_ok_def\<close>)
    show ?thesis using plain_edgeE [OF assms(1) False, of "pending (length rs)", OF start] step by blast
  next
    case True
    have step: "pending (length rs) (set sts) (rs' @ retired_by st a b) b"
      if "clear_mid C s (st # sts) rs' a" "pending (length rs) (set (st # sts)) rs' a"
        "stage_work e k False s st a = Some (Inr b)" for st sts rs' a b
      by (rule pending_stage [OF rdy _ that(2,3)])
        (use that True execute_queues(1) [OF p, of rs' a e k s b] in \<open>auto simp: clear_mid_def\<close>)
    show ?thesis using clear_edgeE [OF assms(1) True, of "pending (length rs)", OF start] step by blast
  qed
  then show ?thesis by (simp add: pending_def)
qed

text \<open>An edge that neither executes nor retires leaves the predicate \<open>X\<close>.\<close>

lemma plain_step:
  assumes "edge_ok e C k order rs t s s'" and "\<not> clear_out (s_xports s)" and "X (set all_stages) s"
    and "\<And>st sts rs a b. plain_start e C s t \<Longrightarrow> plain_mid C s t (st # sts) rs a \<Longrightarrow> st \<notin> set sts \<Longrightarrow> X (set (st # sts)) a \<Longrightarrow>
      stage_work e k False s st a = Some (Inr b) \<Longrightarrow> X (set sts) b \<or> st = At_execute \<and> can_retire b"
  shows "retired_edge e order k s \<noteq> [] \<or> can_retire s' \<or> \<not> clear_out (s_xports s') \<and> X {} s'"
proof -
  let ?n = "length rs"
  let ?Q = "\<lambda>S rs a. moved ?n S rs a \<or> still ?n S rs a \<and> X S a"
  have start: "?Q (set all_stages) rs s" using assms(3) by (simp add: still_def all_stages_def)
  have step: "?Q (set sts) (rs' @ retired_by st a b) b"
    if "plain_start e C s t" "plain_mid C s t (st # sts) rs' a" "st \<notin> set sts" "?Q (set (st # sts)) rs' a"
      "stage_work e k False s st a = Some (Inr b)" for st sts rs' a b
    using that(4)
  proof
    assume "moved ?n (set (st # sts)) rs' a"
    then show ?thesis using moved_stage [OF that(2,3) _ that(5)] by blast
  next
    assume q: "still ?n (set (st # sts)) rs' a \<and> X (set (st # sts)) a"
    then have "moved ?n (set sts) (rs' @ retired_by st a b) b \<or> still ?n (set sts) (rs' @ retired_by st a b) b"
      using still_stage [OF that(1-3) _ that(5)] by blast
    moreover have "st = At_execute \<and> can_retire b \<Longrightarrow> moved ?n (set sts) (rs' @ retired_by st a b) b"
      using q that(3) by (auto simp: moved_def still_def)
    ultimately show ?thesis using assms(4) [OF that(1-3) _ that(5)] q by blast
  qed
  have "?Q {} (rs @ retired_edge e order k s) s'"
    using plain_edgeE [OF assms(1,2), of ?Q, OF start] step by blast
  then show ?thesis by (auto simp: moved_def still_def)
qed

lemma step_execute:
  assumes "edge_ok e C k order rs t s s'" and "\<not> clear_out (s_xports s)" and "can_execute s"
  shows "retired_edge e order k s \<noteq> [] \<or> can_retire s'"
proof -
  let ?X = "\<lambda>S a. At_execute \<in> S \<and> de_uop_queue (s_glob a) \<noteq> []"
  have rdy: "disp_out_ready (s_disp s)" using assms(3) by (simp add: can_execute_def)
  have "?X (set sts) b \<or> st = At_execute \<and> can_retire b"
    if "plain_start e C s t" "plain_mid C s t (st # sts) rs' a" "st \<notin> set sts" "?X (set (st # sts)) a"
      "stage_work e k False s st a = Some (Inr b)" for st sts rs' a b
  proof (cases st)
    case At_decode
    then show ?thesis using that(4,5) decode_queues [of e k s a b] by auto
  next
    case At_dispatch
    then show ?thesis using that(4,5) mid_dispatches(4) [OF that(1,2)] by (auto simp: same_queues_def)
  next
    case At_execute
    then show ?thesis using that(2,4,5) mid_executes(2) [OF that(1) _ _ rdy] by (auto simp: can_retire_def)
  next
    case At_writeback
    then show ?thesis using that(4,5) writeback_queues(2) [of e k s a b] by auto
  qed (use that(4) outer_queues [OF that(5)] in \<open>auto simp: same_queues_def\<close>)
  from plain_step [OF assms(1,2), of ?X, OF _ this] assms(3) show ?thesis
    by (simp add: can_execute_def all_stages_def)
qed

lemma step_dispatch:
  assumes "edge_ok e C k order rs t s s'" and "\<not> clear_out (s_xports s)" and "can_dispatch s"
  shows "retired_edge e order k s \<noteq> [] \<or> can_retire s' \<or> \<not> clear_out (s_xports s') \<and> can_execute s'"
proof -
  let ?X = "\<lambda>S a. if At_dispatch \<in> S then dd_uop_queue (s_glob a) \<noteq> [] else can_execute a"
  have rdy: "dec_out_ready (s_dec s)" using assms(3) by (simp add: can_dispatch_def)
  have "?X (set sts) b \<or> st = At_execute \<and> can_retire b"
    if "plain_start e C s t" "plain_mid C s t (st # sts) rs' a" "st \<notin> set sts" "?X (set (st # sts)) a"
      "stage_work e k False s st a = Some (Inr b)" for st sts rs' a b
  proof (cases st)
    case At_decode
    then show ?thesis using that(4,5) decode_queues [of e k s a b] keeps [OF that(5)] by (auto simp: can_execute_def)
  next
    case At_dispatch
    then show ?thesis using that(3-5) mid_dispatches(3) [OF that(1,2) _ rdy] by (simp add: can_execute_def)
  next
    case At_execute
    then show ?thesis using that(2,4,5) mid_execute_moves [OF that(1), of sts rs' a k b] keeps [OF that(5)]
      by (auto simp: can_execute_def)
  next
    case At_writeback
    then show ?thesis using that(4,5) writeback_queues(2) [of e k s a b] keeps [OF that(5)] by (auto simp: can_execute_def)
  qed (use that(4) outer_queues [OF that(5)] keeps [OF that(5)] in \<open>auto simp: same_queues_def can_execute_def\<close>)
  from plain_step [OF assms(1,2), of ?X, OF _ this] assms(3) show ?thesis
    by (simp add: can_dispatch_def all_stages_def)
qed

lemma step_decode:
  assumes "edge_ok e C k order rs t s s'" and "\<not> clear_out (s_xports s)" and "full_lines e C" and "f_out_ready (s_fports s)"
  shows "retired_edge e order k s \<noteq> [] \<or> can_retire s' \<or>
    \<not> clear_out (s_xports s') \<and> (can_execute s' \<or> can_dispatch s' \<or> restarting s \<and> \<not> restarting s')"
proof -
  let ?X = "\<lambda>S a. if At_decode \<in> S then restarting a = restarting s
     else At_dispatch \<notin> S \<and> can_execute a \<or> can_dispatch a \<or> restarting s \<and> \<not> restarting a"
  have "?X (set sts) b \<or> st = At_execute \<and> can_retire b"
    if "plain_start e C s t" "plain_mid C s t (st # sts) rs' a" "st \<notin> set sts" "?X (set (st # sts)) a"
      "stage_work e k False s st a = Some (Inr b)" for st sts rs' a b
  proof (cases "st = At_decode")
    case True
    then show ?thesis using that(2-5) decode_moves [OF that(1) assms(3,4), of sts rs' a k b] by (auto simp: can_dispatch_def)
  next
    case False
    note same = mid_restarting [OF that(1,2) False that(5)]
    show ?thesis
    proof (cases st)
      case At_dispatch
      then show ?thesis
        using that(3-5) same mid_dispatches(2,3) [OF that(1,2), of k b] keeps [OF that(5)]
        by (cases "dec_out_ready (s_dec s)") (auto simp: can_execute_def can_dispatch_def same_queues_def)
    next
      case At_execute
      then show ?thesis using that(2,4,5) same mid_execute_moves [OF that(1), of sts rs' a k b] keeps [OF that(5)]
        by (auto simp: can_execute_def can_dispatch_def)
    next
      case At_writeback
      then show ?thesis using that(4,5) same writeback_queues(2) [of e k s a b] keeps [OF that(5)]
        by (auto simp: can_execute_def can_dispatch_def)
    qed (use False that(4) same outer_queues [OF that(5)] keeps [OF that(5)] in
        \<open>auto simp: same_queues_def can_execute_def can_dispatch_def\<close>)
  qed
  from plain_step [OF assms(1,2), of ?X, OF _ this] show ?thesis by (auto simp: all_stages_def)
qed

lemma step_wait:
  assumes "edge_ok e C k order rs t s s'" and "\<not> clear_out (s_xports s)" and "\<not> f_out_ready (s_fports s)"
  shows "retired_edge e order k s \<noteq> [] \<or> can_retire s' \<or> \<not> clear_out (s_xports s') \<and> restarting s' = restarting s"
proof -
  let ?X = "\<lambda>S a. restarting a = restarting s"
  have step: "?X (set sts) b \<or> st = At_execute \<and> can_retire b"
    if "plain_start e C s t" "plain_mid C s t (st # sts) rs' a" "st \<notin> set sts" "?X (set (st # sts)) a"
      "stage_work e k False s st a = Some (Inr b)" for st sts rs' a b
  proof (cases "st = At_decode")
    case True
    then have "b = a" using that(5) assms(3) by (simp add: stage_work_def decoder_work_def decoder_inputs_def)
    then show ?thesis using that(4) by simp
  next
    case False
    then show ?thesis using mid_restarting [OF that(1,2) False that(5)] that(4) by simp
  qed
  show ?thesis by (rule plain_step [OF assms(1,2), where X = ?X]) (simp, use step in blast)
qed

subsection \<open>The memory answers\<close>

text \<open>A request on its way is answered, or still on its way, with fewer before it once its time has come.\<close>

lemma i_answer_progress:
  assumes "tie_break pick" and "mem_i_answer pick k m = Inr m'" and "(t, (tag, a)) \<in> set (i_resp m)"
  shows "(mi_ready m' \<and> mi_tagout m' = tag) \<or>
    (t, (tag, a)) \<in> set (i_resp m') \<and> (t < k \<longrightarrow> due_by t (i_resp m) = Suc (due_by t (i_resp m')))"
proof (cases "fst (bucket_get pick k (i_resp m))")
  case None
  then have "k < t" using tie_break.get_None_iff [OF assms(1), of k "i_resp m"] assms(3) by force
  moreover have "m' = m\<lparr>mi_ready := False\<rparr>" using None assms(2)
    by (simp add: mem_i_answer_def split: prod.splits option.splits)
  ultimately show ?thesis using assms(3) by simp
next
  case (Some x)
  then obtain tag' a' q where g: "bucket_get pick k (i_resp m) = (Some (tag', a'), q)"
    by (metis prod.collapse)
  then obtain v where
    m': "m' = m\<lparr>mi_ready := True, mi_tagout := tag', mi_data := v,
          i_resp := release k a' (i_mshr m a') q, i_mshr := (i_mshr m)(a' := None)\<rparr>"
    using assms(2) by (auto simp: mem_i_answer_def split: sum.splits)
  show ?thesis
  proof (cases "(tag, a) = (tag', a')")
    case False
    then have "(t, (tag, a)) \<in> set q" using get_keeps_others [OF assms(1) g assms(3)] by blast
    moreover have "due_by t (i_resp m) = Suc (due_by t q)" if "t < k"
      using tie_break.get_progress [OF assms(1,3) less_imp_le [OF that] g] by blast
    ultimately show ?thesis by (auto simp: m' set_release due_by_release)
  qed (simp add: m')
qed

lemma i_request_due:
  assumes "mem_i_request k i m = Inr m'"
  shows "set (i_resp m) \<subseteq> set (i_resp m') \<and> (t < k \<longrightarrow> due_by t (i_resp m') = due_by t (i_resp m))"
proof (cases "mi_op i = NONE \<or> i_mshr m (mi_addr i) \<noteq> None")
  case True
  then show ?thesis using assms by (auto simp: mem_i_request_def split: if_splits option.splits)
next
  case False
  obtain l m1 where lat: "i_latency (mi_addr i) m = (l, m1)" by (cases "i_latency (mi_addr i) m")
  then obtain c1 c2 where "m1 = m\<lparr>L1i := c1, L2 := c2\<rparr>" using latency_frame(1) [of "mi_addr i" m] by auto
  then show ?thesis using assms lat False by (auto simp: mem_i_request_def split: if_splits)
qed

lemma i_request_known:
  assumes "mem_i_request k i m = Inr m'" and "mi_op i \<noteq> NONE"
  shows "i_mshr m' (mi_addr i) \<noteq> None"
  using assms by (auto simp: mem_i_request_def split: if_splits option.splits prod.splits)

lemma d_request_i_frame:
  assumes "mem_d_request k i m = Inr m'"
  shows "i_resp m' = i_resp m \<and> i_mshr m' = i_mshr m"
proof (cases "md_op i = NONE")
  case True
  then show ?thesis using assms by (simp add: mem_d_request_def)
next
  case op: False
  obtain bytes where b: "(if md_op i = WRITE then mem_d_write (md_addr i) (md_din i) (mem m) else Inr (mem m)) = Inr bytes"
    using assms op by (simp add: mem_d_request_def split: if_split_asm sum.splits)
  let ?m = "m\<lparr>mem := bytes\<rparr>"
  obtain l m1 where lat: "d_latency (md_op i) (md_addr i) ?m = (l, m1)"
    by (cases "d_latency (md_op i) (md_addr i) ?m")
  obtain c1 c2 where "m1 = ?m\<lparr>L1d := c1, L2 := c2\<rparr>"
    using latency_frame(2) [of "md_op i" "md_addr i" ?m] lat by auto
  then show ?thesis using assms op
    by (auto simp: mem_d_request_def b lat Let_def split: if_split_asm option.splits)
qed

lemma d_answer_i_frame: "mem_d_answer pick k m = Inr m' \<Longrightarrow>
    i_resp m' = i_resp m \<and> i_mshr m' = i_mshr m \<and> mi_ready m' = mi_ready m \<and> mi_tagout m' = mi_tagout m"
  by (auto simp: mem_d_answer_def split: option.splits sum.splits prod.splits)

lemma mem_work_progress:
  assumes "tie_break pick" and "mem_work pick k i m = Inr m'" and "\<not> mm_reset i"
  shows "(t, (tag, a)) \<in> set (i_resp m) \<Longrightarrow> (mi_ready m' \<and> mi_tagout m' = tag) \<or>
      (t, (tag, a)) \<in> set (i_resp m') \<and> (t < k \<longrightarrow> due_by t (i_resp m) = Suc (due_by t (i_resp m')))"
    and "mi_op i \<noteq> NONE \<Longrightarrow> i_mshr m' (mi_addr i) \<noteq> None"
proof -
  obtain m1 m2 m3 where w: "mem_i_answer pick k m = Inr m1" "mem_d_answer pick k m1 = Inr m2"
    "mem_i_request k i m2 = Inr m3" "mem_d_request k i m3 = Inr m'"
    using assms(2,3) by (auto simp: mem_work_def)
  note d = d_answer_i_frame [OF w(2)] and r = i_request_step [OF w(3)] and f = d_request_i_frame [OF w(4)]
  have p: "mi_ready m' = mi_ready m3 \<and> mi_tagout m' = mi_tagout m3" using d_request_step [OF w(4)] by simp
  show "(mi_ready m' \<and> mi_tagout m' = tag) \<or>
      (t, (tag, a)) \<in> set (i_resp m') \<and> (t < k \<longrightarrow> due_by t (i_resp m) = Suc (due_by t (i_resp m')))"
    if "(t, (tag, a)) \<in> set (i_resp m)"
    using i_answer_progress [OF assms(1) w(1) that] i_request_due [OF w(3), of t] d r f p by auto
  show "i_mshr m' (mi_addr i) \<noteq> None" if "mi_op i \<noteq> NONE" using i_request_known [OF w(3) that] f by simp
qed

text \<open>The line of \<open>t\<close> is on the instruction port; it is to come at the time \<open>w\<close> at the earliest.\<close>

definition answered :: "addr \<Rightarrow> system \<Rightarrow> bool" where
  "answered t s \<longleftrightarrow> mi_ready (s_mem s) \<and> signed (mi_tagout (s_mem s)) = line_of t"

definition coming :: "nat \<Rightarrow> addr \<Rightarrow> system \<Rightarrow> bool" where
  "coming w t s \<longleftrightarrow> (\<exists>tag. (w, (tag, line_of t)) \<in> set (i_resp (s_mem s)))"

definition awaiting :: "system \<Rightarrow> bool" where
  "awaiting s \<longleftrightarrow> \<not> clear_out (s_xports s) \<and> \<not> firstRunFlag (s_fetch s) \<and> \<not> f_out_ready (s_fports s)"

lemma awaiting_front:
  assumes "live C k rs t s" and "awaiting s"
  shows "prev_tag (s_fetch s) = t" "RIP (s_fetch s) = t" "i_op (s_fports s) = READ" "i_addr (s_fports s) = line_of t"
  using assms by (simp_all add: live_def code_inv_def front_start_def front_at_def awaiting_def)

lemma tag_of_response:
  assumes "bus_inv s" and "(w, (tag, a)) \<in> set (i_resp (s_mem s))"
  shows "signed tag = a"
proof -
  have "(tag, a) \<in># image_mset snd (mset (i_resp (s_mem s)))" using assms(2) by force
  then have "0 < i_out (s_mem s) (tag, a)" by (simp add: outstanding_def)
  then have "tag = ucast a" "a < mem_size" using assms(1) by (auto simp: bus_inv_def tagged_def)
  then show ?thesis using small_tag by simp
qed

lemma edge_answered:
  assumes "edge_ok e C k order rs t s s'" and "awaiting s" and "answered t s"
  shows "f_out_ready (s_fports s')"
proof -
  have inv: "live C k rs t s" and o: "distinct order" "set order = set all_stages"
    and run: "run_stages e k False s order s = Some (Inr s')"
    using assms(1) by (simp_all add: edge_ok_def system_edge_def)
  note at = awaiting_front [OF inv assms(2)]
  have "bus_inv s" using inv by (simp add: live_def code_inv_def)
  then have red: "\<not> change_RIP (s_xports s)" using assms(2) by (auto simp: bus_inv_def port_ok_def awaiting_def)
  let ?i = "fetch_inputs False s"
  have i: "\<not> f_reset ?i" "\<not> f_clear ?i" "\<not> f_change_RIP ?i"
    using assms(2) red by (simp_all add: fetch_inputs_def awaiting_def)
  have "At_fetch \<in> set order" by (simp add: o(2) all_stages_def)
  then obtain g g' where fw: "fetch_work ?i (s_fetch s, s_fports s, g) = (s_fetch s', s_fports s', g')"
    using run_fetch [OF run o(1)] by blast
  have hit: "f_i_ready ?i" "signed (f_i_tagout ?i) = line_of (prev_tag ((s_fetch s)\<lparr>fetch_cycles := n\<rparr>))" for n
    using assms(3) at(1) by (simp_all add: answered_def fetch_inputs_def)
  show ?thesis
    using fw [symmetric] assms(2) unfolding fetch_work_plain [OF i] by (auto simp: fetch_answer_hit [OF hit] fetch_first_def awaiting_def)
qed

lemma edge_coming:
  assumes "edge_ok e C k order rs t s s'" and "coming w a s"
  shows "answered a s' \<or> coming w a s' \<and> (w < k \<longrightarrow> due_by w (i_resp (s_mem s')) < due_by w (i_resp (s_mem s)))"
proof -
  have inv: "bus_inv s" and p: "tie_break (e_pick e)" using assms(1) by (simp_all add: edge_ok_def live_def code_inv_def runs_program_def)
  obtain tag where tag: "(w, (tag, line_of a)) \<in> set (i_resp (s_mem s))" using assms(2) by (auto simp: coming_def)
  have "\<not> mm_reset (memory_inputs False s)" by (simp add: memory_inputs_def)
  from mem_work_progress(1) [OF p edge_memory [OF assms(1)] this tag] tag_of_response [OF inv tag]
  show ?thesis by (auto simp: answered_def coming_def)
qed

lemma edge_asks:
  assumes "edge_ok e C k order rs t s s'" and "awaiting s"
  shows "\<exists>w. coming w t s'"
proof -
  have inv: "live C k rs t s" and p: "tie_break (e_pick e)" using assms(1) by (simp_all add: edge_ok_def runs_program_def)
  note at = awaiting_front [OF inv assms(2)]
  have i: "\<not> mm_reset (memory_inputs False s)" "mi_op (memory_inputs False s) \<noteq> NONE" "mi_addr (memory_inputs False s) = line_of t"
    using at(3,4) by (simp_all add: memory_inputs_def)
  have "i_mshr (s_mem s') (line_of t) \<noteq> None"
    using mem_work_progress(2) [OF p edge_memory [OF assms(1)] i(1,2)] i(3) by simp
  moreover have "waiting_ok (i_resp (s_mem s')) (i_mshr (s_mem s'))"
    using live_edge [OF assms(1)] by (simp add: live_def mem_inv_def)
  ultimately show ?thesis unfolding waiting_ok_def coming_def by blast
qed

subsection \<open>Leading to a state\<close>

text \<open>The run leads from a state to one that satisfies \<open>Z\<close>, through lines of the code only; \<open>order\<close> is the order
  of the handlers on each edge.\<close>

inductive leads :: "env \<Rightarrow> code \<Rightarrow> (nat \<Rightarrow> stage list) \<Rightarrow> (nat \<Rightarrow> addr list \<Rightarrow> system \<Rightarrow> bool) \<Rightarrow>
    nat \<Rightarrow> addr list \<Rightarrow> system \<Rightarrow> bool" for e C order Z where
  leads_now: "Z j rs s \<Longrightarrow> leads e C order Z j rs s"
| leads_edge: "system_edge e (order j) (500 * j) False s = Some (Inr s') \<Longrightarrow>
    leads e C order Z (Suc j) (rs @ retired_edge e (order j) (500 * j) s) s' \<Longrightarrow> leads e C order Z j rs s"

lemma leads_trans:
  assumes "leads e C order Y j rs s" and "\<And>j rs s. Y j rs s \<Longrightarrow> leads e C order Z j rs s"
  shows "leads e C order Z j rs s"
  using assms(1) by (induction rule: leads.induct) (auto intro: assms(2) leads_edge)

definition runs_on :: "env \<Rightarrow> code \<Rightarrow> (nat \<Rightarrow> stage list) \<Rightarrow> bool" where
  "runs_on e C order \<longleftrightarrow> runs_program e C \<and> full_lines e C \<and> (\<forall>j. distinct (order j) \<and> set (order j) = set all_stages)"

text \<open>Fetch has left the code, or the memory.\<close>

definition outside :: "code \<Rightarrow> system \<Rightarrow> bool" where
  "outside C s \<longleftrightarrow> \<not> (in_region C s \<and> asks_in_memory s)"

definition more_than :: "code \<Rightarrow> nat \<Rightarrow> nat \<Rightarrow> addr list \<Rightarrow> system \<Rightarrow> bool" where
  "more_than C n j rs s \<longleftrightarrow> (\<exists>t. live C (500 * j) rs t s) \<and> (outside C s \<or> n < length rs)"

lemma leads_step:
  assumes "runs_on e C order" and "live C (500 * j) rs t s"
    and "\<And>s' rs' t'. edge_ok e C (500 * j) (order j) rs t s s' \<Longrightarrow> rs' = rs @ retired_edge e (order j) (500 * j) s \<Longrightarrow>
      t' = (if clear_out (s_xports s) then new_RIP (s_xports s) else after_line s t) \<Longrightarrow> live C (500 * Suc j) rs' t' s' \<Longrightarrow>
      leads e C order (more_than C n) (Suc j) rs' s'"
  shows "leads e C order (more_than C n) j rs s"
proof (cases "outside C s")
  case True
  then show ?thesis using assms(2) by (intro leads_now) (auto simp: more_than_def)
next
  case False
  have r: "runs_program e C" "distinct (order j)" "set (order j) = set all_stages" using assms(1) by (simp_all add: runs_on_def)
  have inv: "code_inv C rs t s" using assms(2) by (simp add: live_def)
  have reg: "in_region C s" "asks_in_memory s" using False by (simp_all add: outside_def)
  obtain s' where s': "system_edge e (order j) (500 * j) False s = Some (Inr s')"
    using code_edge_total [OF r(1) inv reg r(2,3)] by blast
  then have ok: "edge_ok e C (500 * j) (order j) rs t s s'" using r assms(2) reg by (simp add: edge_ok_def)
  show ?thesis by (rule leads_edge [where order = order and j = j, OF s'], rule assms(3) [OF ok refl refl]) (use live_edge [OF ok] in \<open>simp add: add.commute\<close>)
qed

lemma leads_moved:
  assumes "runs_on e C order" and "live C (500 * j) rs t s" and "n < length rs \<or> n \<le> length rs \<and> can_retire s"
  shows "leads e C order (more_than C n) j rs s"
proof (cases "n < length rs")
  case True
  then show ?thesis using assms(2) by (intro leads_now) (auto simp: more_than_def)
next
  case False
  then have c: "n \<le> length rs" "can_retire s" using assms(3) by simp_all
  show ?thesis
  proof (rule leads_step [OF assms(1,2)])
    fix s' rs' t'
    assume ok: "edge_ok e C (500 * j) (order j) rs t s s'" and rs': "rs' = rs @ retired_edge e (order j) (500 * j) s"
      and l: "live C (500 * Suc j) rs' t' s'"
    have "n < length rs'" using step_retire [OF ok c(2)] c(1) unfolding rs'
      by (cases "retired_edge e (order j) (500 * j) s") simp_all
    then show "leads e C order (more_than C n) (Suc j) rs' s'"
      using l by (intro leads_now) (auto simp: more_than_def)
  qed
qed

text \<open>After an edge: it has moved something, or the rest of the argument goes on with its outcome.\<close>

lemma leads_after:
  assumes "runs_on e C order" and "live C (500 * j) rs t s" and "n \<le> length rs"
    and "\<And>s'. edge_ok e C (500 * j) (order j) rs t s s' \<Longrightarrow> retired_edge e (order j) (500 * j) s \<noteq> [] \<or> can_retire s' \<or> W s'"
    and "\<And>s' rs' t'. edge_ok e C (500 * j) (order j) rs t s s' \<Longrightarrow> W s' \<Longrightarrow> n \<le> length rs' \<Longrightarrow>
      t' = (if clear_out (s_xports s) then new_RIP (s_xports s) else after_line s t) \<Longrightarrow> live C (500 * Suc j) rs' t' s' \<Longrightarrow>
      leads e C order (more_than C n) (Suc j) rs' s'"
  shows "leads e C order (more_than C n) j rs s"
proof (rule leads_step [OF assms(1,2)])
  fix s' rs' t'
  assume ok: "edge_ok e C (500 * j) (order j) rs t s s'" and rs': "rs' = rs @ retired_edge e (order j) (500 * j) s"
    and t': "t' = (if clear_out (s_xports s) then new_RIP (s_xports s) else after_line s t)" and l: "live C (500 * Suc j) rs' t' s'"
  have n: "n \<le> length rs'" using assms(3) by (simp add: rs')
  consider "n < length rs' \<or> n \<le> length rs' \<and> can_retire s'" | "W s'"
    using assms(4) [OF ok] n assms(3) by (cases "retired_edge e (order j) (500 * j) s") (auto simp: rs')
  then show "leads e C order (more_than C n) (Suc j) rs' s'"
    using leads_moved [OF assms(1) l] assms(5) [OF ok _ n t' l] by cases blast+
qed

lemma leads_queued:
  assumes "runs_on e C order" and "live C (500 * j) rs t s" and "n \<le> length rs" and "\<not> clear_out (s_xports s)"
    and "can_execute s \<or> can_dispatch s"
  shows "leads e C order (more_than C n) j rs s"
proof -
  have ex: "leads e C order (more_than C n) j rs s"
    if "live C (500 * j) rs t s" "n \<le> length rs" "\<not> clear_out (s_xports s)" "can_execute s" for j rs t s
    by (rule leads_after [OF assms(1) that(1,2), where W = "\<lambda>_. False"]) (use step_execute that(3,4) in blast)+
  show ?thesis
  proof (cases "can_execute s")
    case True
    then show ?thesis using ex [OF assms(2-4)] by blast
  next
    case False
    show ?thesis
      by (rule leads_after [OF assms(1-3), where W = "\<lambda>s'. \<not> clear_out (s_xports s') \<and> can_execute s'"])
        (use step_dispatch assms(4,5) False ex in blast)+
  qed
qed

lemma edge_first:
  assumes "edge_ok e C k order rs t s s'"
  shows "\<not> firstRunFlag (s_fetch s')"
proof (cases "clear_out (s_xports s)")
  case True
  have "clear_mid C s [] (rs @ retired_edge e order k s) s' \<and> True"
    by (rule clear_edgeE [OF assms True, of "\<lambda>_ _ _. True"]) simp_all
  then show ?thesis by (simp add: clear_mid_def front_at_def)
next
  case False
  have "plain_mid C s t [] (rs @ retired_edge e order k s) s' \<and> True"
    by (rule plain_edgeE [OF assms False, of "\<lambda>_ _ _. True"]) simp_all
  then show ?thesis by (simp add: plain_mid_def front_at_def)
qed

text \<open>The states in which decode is \<open>b\<close>: at the start of the stream or behind it.\<close>

definition fed_line :: "bool \<Rightarrow> system \<Rightarrow> bool" where
  "fed_line b s \<longleftrightarrow> \<not> clear_out (s_xports s) \<and> f_out_ready (s_fports s) \<and> restarting s = b"

definition lines_lead :: "env \<Rightarrow> code \<Rightarrow> (nat \<Rightarrow> stage list) \<Rightarrow> nat \<Rightarrow> bool \<Rightarrow> bool" where
  "lines_lead e C order n b \<longleftrightarrow> (\<forall>j rs t s. live C (500 * j) rs t s \<longrightarrow> n \<le> length rs \<longrightarrow> fed_line b s \<longrightarrow>
     leads e C order (more_than C n) j rs s)"

text \<open>An edge of waiting: fetch stays where it is, and has the line or goes on waiting.\<close>

lemma leads_waiting:
  assumes "runs_on e C order" and "live C (500 * j) rs t s" and "n \<le> length rs" and "awaiting s" and "restarting s = b"
    and "lines_lead e C order n b"
    and "\<And>s' rs'. edge_ok e C (500 * j) (order j) rs t s s' \<Longrightarrow> n \<le> length rs' \<Longrightarrow> live C (500 * Suc j) rs' t s' \<Longrightarrow>
      awaiting s' \<Longrightarrow> restarting s' = b \<Longrightarrow> leads e C order (more_than C n) (Suc j) rs' s'"
  shows "leads e C order (more_than C n) j rs s"
proof (rule leads_after [OF assms(1-3), where W = "\<lambda>s'. \<not> clear_out (s_xports s') \<and> restarting s' = b"])
  fix s' assume "edge_ok e C (500 * j) (order j) rs t s s'"
  from step_wait [OF this] assms(4,5)
  show "retired_edge e (order j) (500 * j) s \<noteq> [] \<or> can_retire s' \<or> \<not> clear_out (s_xports s') \<and> restarting s' = b"
    by (auto simp: awaiting_def)
next
  fix s' rs' t'
  assume ok: "edge_ok e C (500 * j) (order j) rs t s s'" and W: "\<not> clear_out (s_xports s') \<and> restarting s' = b" and n: "n \<le> length rs'"
    and t': "t' = (if clear_out (s_xports s) then new_RIP (s_xports s) else after_line s t)" and l: "live C (500 * Suc j) rs' t' s'"
  have "t' = t" using t' assms(4) by (simp add: awaiting_def after_line_def)
  then have l': "live C (500 * Suc j) rs' t s'" using l by simp
  show "leads e C order (more_than C n) (Suc j) rs' s'"
  proof (cases "f_out_ready (s_fports s')")
    case True
    then show ?thesis using assms(6) l' n W unfolding lines_lead_def fed_line_def by blast
  next
    case False
    then show ?thesis using assms(7) [OF ok n l'] edge_first [OF ok] W by (simp add: awaiting_def)
  qed
qed

lemma leads_answered:
  assumes "runs_on e C order" and "live C (500 * j) rs t s" and "n \<le> length rs" and "awaiting s" and "restarting s = b"
    and "lines_lead e C order n b" and "answered t s"
  shows "leads e C order (more_than C n) j rs s"
  by (rule leads_waiting [OF assms(1-6)]) (use edge_answered assms(4,7) in \<open>auto simp: awaiting_def\<close>)

text \<open>The time until the line may come, then the number of answers before it, decrease.\<close>

lemma leads_coming:
  assumes "runs_on e C order" and "lines_lead e C order n b"
    and "live C (500 * j) rs t s" and "n \<le> length rs" and "awaiting s" and "restarting s = b" and "coming w t s"
  shows "leads e C order (more_than C n) j rs s"
  using assms(3-)
proof (induction "(w + 1 - 500 * j, due_by w (i_resp (s_mem s)))" arbitrary: j rs t s
    rule: wf_induct_rule [OF wf_lex_prod [OF wf_less_than wf_less_than]])
  case (1 j s rs t)
  show ?case
  proof (rule leads_waiting [OF assms(1) 1(2-5) assms(2)])
    fix s' rs'
    assume ok: "edge_ok e C (500 * j) (order j) rs t s s'" and n: "n \<le> length rs'" and l: "live C (500 * Suc j) rs' t s'"
      and a: "awaiting s'" "restarting s' = b"
    show "leads e C order (more_than C n) (Suc j) rs' s'"
    proof (cases "answered t s'")
      case True
      then show ?thesis using leads_answered [OF assms(1) l n a assms(2)] by blast
    next
      case False
      then have c: "coming w t s'" "w < 500 * j \<longrightarrow> due_by w (i_resp (s_mem s')) < due_by w (i_resp (s_mem s))"
        using edge_coming [OF ok 1(6)] by auto
      then have "((w + 1 - 500 * Suc j, due_by w (i_resp (s_mem s'))), (w + 1 - 500 * j, due_by w (i_resp (s_mem s))))
          \<in> less_than <*lex*> less_than" by auto
      then show ?thesis using 1(1) [OF _ l n a c(1)] by simp
    qed
  qed
qed

lemma leads_awaiting:
  assumes "runs_on e C order" and "lines_lead e C order n b"
    and "live C (500 * j) rs t s" and "n \<le> length rs" and "awaiting s" and "restarting s = b"
  shows "leads e C order (more_than C n) j rs s"
proof (rule leads_waiting [OF assms(1,3-6,2)])
  fix s' rs'
  assume ok: "edge_ok e C (500 * j) (order j) rs t s s'" and nxt: "n \<le> length rs'" "live C (500 * Suc j) rs' t s'"
      "awaiting s'" "restarting s' = b"
  obtain w where "coming w t s'" using edge_asks [OF ok assms(5)] by blast
  then show "leads e C order (more_than C n) (Suc j) rs' s'" using leads_coming [OF assms(1,2)] nxt by blast
qed

text \<open>A line is decoded. Behind the start of the stream it holds an instruction; at the start, the one after it does.\<close>

lemma leads_lines:
  assumes "runs_on e C order"
  shows "lines_lead e C order n b"
proof -
  have full: "full_lines e C" using assms by (simp add: runs_on_def)
  have line: "leads e C order (more_than C n) j rs s"
    if "live C (500 * j) rs t s" "n \<le> length rs" "fed_line b s"
      and rest: "\<And>s' rs' t'. b \<Longrightarrow> live C (500 * Suc j) rs' t' s' \<Longrightarrow> n \<le> length rs' \<Longrightarrow> \<not> clear_out (s_xports s') \<Longrightarrow>
        \<not> restarting s' \<Longrightarrow> \<not> firstRunFlag (s_fetch s') \<Longrightarrow> leads e C order (more_than C n) (Suc j) rs' s'"
    for j rs t s b
  proof (rule leads_after [OF assms that(1,2), where
        W = "\<lambda>s'. \<not> clear_out (s_xports s') \<and> (can_execute s' \<or> can_dispatch s' \<or> b \<and> \<not> restarting s')"])
    fix s' assume "edge_ok e C (500 * j) (order j) rs t s s'"
    from step_decode [OF this _ full] that(3)
    show "retired_edge e (order j) (500 * j) s \<noteq> [] \<or> can_retire s' \<or>
      \<not> clear_out (s_xports s') \<and> (can_execute s' \<or> can_dispatch s' \<or> b \<and> \<not> restarting s')"
      by (auto simp: fed_line_def)
  next
    fix s' rs' t'
    assume "edge_ok e C (500 * j) (order j) rs t s s'" "n \<le> length rs'" "live C (500 * Suc j) rs' t' s'"
      "\<not> clear_out (s_xports s') \<and> (can_execute s' \<or> can_dispatch s' \<or> b \<and> \<not> restarting s')"
    then show "leads e C order (more_than C n) (Suc j) rs' s'"
      using leads_queued [OF assms] rest edge_first by blast
  qed
  have behind: "lines_lead e C order n False" unfolding lines_lead_def using line [of _ _ _ _ False] by blast
  show ?thesis
  proof (cases b)
    case True
    have "leads e C order (more_than C n) j rs s" if "live C (500 * j) rs t s" "n \<le> length rs" "fed_line True s" for j rs t s
    proof (rule line [OF that])
      fix s' rs' t'
      assume s': "live C (500 * Suc j) rs' t' s'" "n \<le> length rs'" "\<not> clear_out (s_xports s')" "\<not> restarting s'"
        "\<not> firstRunFlag (s_fetch s')"
      show "leads e C order (more_than C n) (Suc j) rs' s'"
      proof (cases "f_out_ready (s_fports s')")
        case True
        then show ?thesis using behind s' unfolding lines_lead_def fed_line_def by blast
      next
        case False
        then show ?thesis using leads_awaiting [OF assms behind s'(1,2)] s'(3-5) by (simp add: awaiting_def)
      qed
    qed
    then have "lines_lead e C order n True" unfolding lines_lead_def by blast
    then show ?thesis using True by simp
  qed (use behind in simp)
qed

lemma leads_more:
  assumes "runs_on e C order" and "live C (500 * j) rs t s" and "n \<le> length rs"
  shows "leads e C order (more_than C n) j rs s"
proof -
  have run: "leads e C order (more_than C n) j rs s"
    if "live C (500 * j) rs t s" "n \<le> length rs" "\<not> clear_out (s_xports s)" "\<not> firstRunFlag (s_fetch s)" for j rs t s
  proof (cases "f_out_ready (s_fports s)")
    case True
    then show ?thesis using leads_lines [OF assms(1), of n "restarting s"] that unfolding lines_lead_def fed_line_def by blast
  next
    case False
    then show ?thesis using leads_awaiting [OF assms(1) leads_lines [OF assms(1)] that(1,2)] that(3,4) by (simp add: awaiting_def)
  qed
  have "retired_edge e (order j) (500 * j) s \<noteq> [] \<or> can_retire s' \<or> \<not> clear_out (s_xports s')"
    if ok: "edge_ok e C (500 * j) (order j) rs t s s'" and "clear_out (s_xports s) \<or> firstRunFlag (s_fetch s)" for s'
  proof (cases "clear_out (s_xports s)")
    case True
    have "clear_mid C s [] (rs @ retired_edge e (order j) (500 * j) s) s' \<and> True"
      by (rule clear_edgeE [OF ok True, of "\<lambda>_ _ _. True"]) simp_all
    then show ?thesis by (simp add: clear_mid_def)
  next
    case False
    then have "\<not> f_out_ready (s_fports s)" using assms(2) that(2) by (simp add: live_def code_inv_def front_start_def)
    then show ?thesis using step_wait [OF ok False] by blast
  qed
  then show ?thesis
    using run [OF assms(2,3)] leads_after [OF assms, where W = "\<lambda>s'. \<not> clear_out (s_xports s')"] run edge_first by blast
qed

lemma leads_start:
  assumes "runs_on e C order"
  shows "leads e C order (more_than C n) 0 [] (system_start (c_entry C) brk (c_mem C) pt lga False sp u)"
proof (induction n)
  case 0
  have "live C (500 * 0) [] (c_entry C) (system_start (c_entry C) brk (c_mem C) pt lga False sp u)"
    using live_start [of e C] assms by (simp add: runs_on_def)
  then show ?case by (rule leads_more [OF assms]) simp
next
  case (Suc n)
  show ?case
  proof (rule leads_trans [OF Suc.IH])
    fix j rs s assume "more_than C n j rs s"
    then obtain t where t: "live C (500 * j) rs t s" "outside C s \<or> Suc n \<le> length rs" by (auto simp: more_than_def)
    show "leads e C order (more_than C (Suc n)) j rs s"
    proof (cases "outside C s")
      case True
      then show ?thesis using t(1) by (intro leads_now) (auto simp: more_than_def)
    next
      case False
      then show ?thesis using leads_more [OF assms t(1)] t(2) by simp
    qed
  qed
qed

lemma leads_run:
  assumes "leads e C order Z j rs s"
  shows "\<exists>m s'. system_run e (map order [j..<m]) (500 * j) s = Some (Inr s') \<and>
    Z (max j m) (rs @ retired_run e (map order [j..<m]) (500 * j) s) s'"
  using assms
proof (induction rule: leads.induct)
  case (leads_now j rs s)
  then show ?case by (intro exI [of _ j] exI [of _ s]) simp
next
  case (leads_edge j s s' rs)
  obtain m s2 where m: "system_run e (map order [Suc j..<m]) (500 * Suc j) s' = Some (Inr s2)"
      "Z (max (Suc j) m) ((rs @ retired_edge e (order j) (500 * j) s) @ retired_run e (map order [Suc j..<m]) (500 * Suc j) s') s2"
    using leads_edge.IH by blast
  let ?m = "max (Suc j) m"
  have "[j..<?m] = j # [Suc j..<m]" by (cases "Suc j \<le> m") (simp_all add: upt_conv_Cons max_def)
  then show ?case using m leads_edge.hyps(1) by (intro exI [of _ ?m] exI [of _ s2]) (simp add: add.commute)
qed

subsection \<open>Property\<close>

text \<open>C3: the program keeps running: for every number of instructions and every order of the handlers there is a
  time at which as many instructions have retired, unless fetch has left the code by then; what has retired up to
  that time are the instructions of the sequential machine, one after the other from the entry point on, and the
  register file holds the machine's registers.\<close>

theorem program_keeps_retiring:
  fixes e C brk pt lga sp u
  defines "start \<equiv> system_start (c_entry C) brk (c_mem C) pt lga False sp u"
  assumes "code_image (e_disasm e) (e_junk e) C" and "simple_program (c_prog C)" and "stays_in_code C" and "tie_break (e_pick e)"
    and "full_lines e C" and "\<forall>j. distinct (order j) \<and> set (order j) = set all_stages"
  shows "\<exists>m s t. let os = map order [0..<m]; rs = retired_run e os 0 start in
    system_run e os 0 start = Some (Inr s) \<and> (n \<le> length rs \<or> \<not> in_region C s \<or> \<not> asks_in_memory s) \<and>
    (\<forall>j < length rs. \<exists>t. isa_run (c_prog C) j (isa_start (c_entry C)) = Inr t \<and> rs ! j = i_pc t) \<and>
    isa_run (c_prog C) (length rs) (isa_start (c_entry C)) = Inr t \<and>
    (\<forall>r. is_gpr r \<and> r \<noteq> UD_R_RSP \<longrightarrow> arf_get (regfile (s_glob s)) r = arf_get (i_regs t) r)"
proof -
  have "runs_on e C order" using assms(2-) by (simp add: runs_on_def runs_program_def)
  then have "leads e C order (more_than C n) 0 [] start" unfolding start_def by (rule leads_start)
  from leads_run [OF this] obtain m s where run: "system_run e (map order [0..<m]) 0 start = Some (Inr s)"
    and z: "more_than C n m (retired_run e (map order [0..<m]) 0 start) s" by auto
  then obtain t where "code_inv C (retired_run e (map order [0..<m]) 0 start) t s" by (auto simp: more_than_def live_def)
  from code_inv_machine [OF this assms(3)] run z show ?thesis
    unfolding Let_def more_than_def outside_def by (intro exI [of _ m] exI [of _ s]) (auto intro: less_imp_le)
qed

lemma incs_full: "full_lines inc_env incs"
  unfolding full_lines_def
proof (intro ballI allI impI)
  fix a n xs c
  assume a: "a \<in> c_starts incs" and n: "16 \<le> n" and r: "\<forall>i < n. a + word_of_nat i \<in> c_region incs"
    and d: "delivers (e_disasm inc_env) (hex_text (code_bytes (c_mem incs) a n)) 0 xs c"
  have "unat a mod 3 = 0" using a by (simp add: incs_def)
  from incs_deliver [OF incs_fits [OF a r] this, of "n div 3"] d
  have "xs = replicate (n div 3) (3, inc_insn)" by (auto simp: inc_env_def intro: delivers_det)
  then show "xs \<noteq> []" using n by (simp add: div_eq_0_iff)
qed

theorem program_keeps_retiring_witness:
  "\<exists>m s. let os = map (\<lambda>_. rev all_stages) [0..<m]; start = system_start 0x10005 0 (c_mem incs) 0 0 False 0 uop_empty;
       rs = retired_run inc_env os 0 start in
     system_run inc_env os 0 start = Some (Inr s) \<and> (1000 \<le> length rs \<or> \<not> in_region incs s \<or> \<not> asks_in_memory s) \<and>
     rax (regfile (s_glob s)) = word_of_nat (length rs)"
proof -
  have p: "code_image (e_disasm inc_env) (e_junk inc_env) incs" "simple_program (c_prog incs)" "stays_in_code incs"
      "tie_break (e_pick inc_env)"
    using incs_runs by (simp_all add: runs_program_def)
  have o: "\<forall>j :: nat. distinct ((\<lambda>_. rev all_stages) j) \<and> set ((\<lambda>_. rev all_stages) j) = set all_stages"
    using stages_distinct by simp
  have e: "c_entry incs = 0x10005" by (simp add: incs_def)
  from program_keeps_retiring [OF p incs_full o, where n = 1000 and brk = 0 and pt = 0 and lga = 0 and sp = 0 and u = uop_empty, unfolded e Let_def] obtain m s t where
    s: "system_run inc_env (map (\<lambda>_. rev all_stages) [0..<m]) 0 (system_start 0x10005 0 (c_mem incs) 0 0 False 0 uop_empty) = Some (Inr s)"
      "1000 \<le> length (retired_run inc_env (map (\<lambda>_. rev all_stages) [0..<m]) 0 (system_start 0x10005 0 (c_mem incs) 0 0 False 0 uop_empty)) \<or>
        \<not> in_region incs s \<or> \<not> asks_in_memory s"
      "isa_run (c_prog incs) (length (retired_run inc_env (map (\<lambda>_. rev all_stages) [0..<m]) 0
         (system_start 0x10005 0 (c_mem incs) 0 0 False 0 uop_empty))) (isa_start 0x10005) = Inr t"
      "\<forall>r. is_gpr r \<and> r \<noteq> UD_R_RSP \<longrightarrow> arf_get (regfile (s_glob s)) r = arf_get (i_regs t) r"
    by (elim exE conjE) (rule that; assumption)
  then show ?thesis using incs_run [OF s(3)] s(4) [rule_format, of UD_R_RAX]
    unfolding Let_def by (intro exI [of _ m] exI [of _ s]) simp
qed

end
