(* ===== verification/LibC.thy ===== *)
theory LibC
  imports Stack GuestC
begin

text \<open>
  The C library of the guest programs (\<^verbatim>\<open>core-project/prog2/libc.c\<close>). The simulated machine
  loads only aligned words of eight bytes, so the functions on strings take their bytes out of words
  (\<open>mem_d_read\<close>). Loops over memory may run for ever (\<^verbatim>\<open>partial_function\<close>); where a string ends,
  they return.
\<close>

subsection \<open>Characters\<close>

text \<open>\<^verbatim>\<open>(unsigned long long)c-'\\t' < 5\<close> and \<^verbatim>\<open>(unsigned long long)c-'0' < 10\<close>\<close>

definition c_isspace :: "quad \<Rightarrow> bool" where
  "c_isspace c \<longleftrightarrow> c = 0x20 \<or> c - 9 < 5"

definition c_isdigit :: "quad \<Rightarrow> bool" where
  "c_isdigit c \<longleftrightarrow> c - 0x30 < 10"

definition LLreadchar :: "(addr \<Rightarrow> byte) \<Rightarrow> addr \<Rightarrow> fault + quad" where
  "LLreadchar bytes c = and_then (mem_d_read bytes (c AND NOT 7)) (\<lambda>r.
     Inr (drop_bit (unat (c AND 7) * 8) r AND 0xff))"

subsection \<open>The length of a string\<close>

text \<open>The test of byte \<open>i\<close> of a word. The first word is entered at the byte the string starts with,
  through the cases of a \<^verbatim>\<open>switch\<close> around the loop.\<close>

definition zero_byte :: "quad \<Rightarrow> nat \<Rightarrow> bool" where
  "zero_byte w i \<longleftrightarrow> w AND push_bit (8 * i) 0xff = 0"

partial_function (option) strlen_from :: "(addr \<Rightarrow> byte) \<Rightarrow> addr \<Rightarrow> quad \<Rightarrow> nat \<Rightarrow> (fault + quad) option" where
  "strlen_from bytes p l j = (case mem_d_read bytes p of
     Inl f \<Rightarrow> Some (Inl f)
   | Inr w \<Rightarrow> (case find (zero_byte w) [j..<8] of
       Some i \<Rightarrow> Some (Inr (l + word_of_nat i))
     | None \<Rightarrow> strlen_from bytes (p + 8) (l + 8) 0))"

definition llstrlen :: "(addr \<Rightarrow> byte) \<Rightarrow> addr \<Rightarrow> (fault + quad) option" where
  "llstrlen bytes s = strlen_from bytes (s AND NOT 7) (- (s mod 8)) (unat (s mod 8))"

subsection \<open>Numbers\<close>

partial_function (option) skip_spaces :: "(addr \<Rightarrow> byte) \<Rightarrow> addr \<Rightarrow> (fault + addr) option" where
  "skip_spaces bytes s = (case LLreadchar bytes s of
     Inl f \<Rightarrow> Some (Inl f)
   | Inr c \<Rightarrow> if c_isspace c then skip_spaces bytes (s + 1) else Some (Inr s))"

text \<open>\<^verbatim>\<open>n = 10*n - ((LLreadchar(s++)) - '0')\<close>\<close>

partial_function (option) read_digits :: "(addr \<Rightarrow> byte) \<Rightarrow> addr \<Rightarrow> int \<Rightarrow> (fault + int) option" where
  "read_digits bytes s n = (case LLreadchar bytes s of
     Inl f \<Rightarrow> Some (Inl f)
   | Inr c \<Rightarrow> if c_isdigit c
       then (case and_then (c_mul 10 n) (\<lambda>m. and_then (c_sub (sint c) 48) (c_sub m)) of
           Inl f \<Rightarrow> Some (Inl f)
         | Inr n \<Rightarrow> read_digits bytes (s + 1) n)
       else Some (Inr n))"

definition c_atol :: "(addr \<Rightarrow> byte) \<Rightarrow> addr \<Rightarrow> (fault + int) option" where
  "c_atol bytes s = (case skip_spaces bytes s of
     None \<Rightarrow> None
   | Some (Inl f) \<Rightarrow> Some (Inl f)
   | Some (Inr s) \<Rightarrow> (case LLreadchar bytes s of
       Inl f \<Rightarrow> Some (Inl f)
     | Inr c \<Rightarrow>
         (let neg = (c = 0x2d); s = (if c = 0x2d \<or> c = 0x2b then s + 1 else s) in
          case read_digits bytes s 0 of
            None \<Rightarrow> None
          | Some (Inl f) \<Rightarrow> Some (Inl f)
          | Some (Inr n) \<Rightarrow> Some (if neg then Inr n else c_sub 0 n))))"

subsection \<open>The heap\<close>

text \<open>The pointer and the program break after the call, which the kernel is asked for and which is not
  checked.\<close>

definition c_malloc :: "quad \<Rightarrow> addr \<Rightarrow> addr \<times> addr" where
  "c_malloc n brk = (let n = ((n - 1) div 8 + 1) * 8; brk = brk + n in (brk - n, brk))"

subsection \<open>Bytes of words\<close>

lemma and_not_7_mod: "(a AND NOT 7 :: addr) mod 8 = 0"
proof (rule bit_word_eqI)
  fix n assume "n < LENGTH(64)"
  have "bit (7 :: addr) n \<longleftrightarrow> n < 3" if "n < 64"
    using bit_mask_iff [of 3 n, where ?'a = addr] that by (simp add: mask_eq_exp_minus_1)
  then show "bit ((a AND NOT 7) mod 8) n = bit (0 :: addr) n"
    using take_bit_eq_mod [of 3 "a AND NOT 7"] \<open>n < LENGTH(64)\<close>
    by (auto simp: bit_simps simp flip: take_bit_eq_mod)
qed

lemma and_7_mod: "(a :: addr) AND 7 = a mod 8"
  using take_bit_eq_mask [of 3 a] take_bit_eq_mod [of 3 a] by (simp add: mask_eq_exp_minus_1)

lemma and_not_7_add: "(a AND NOT 7) + a mod 8 = (a :: addr)"
proof -
  have "(a AND NOT 7) + (a AND 7) = a"
    by (subst disjunctive_add) (auto simp: bit_simps intro!: bit_word_eqI)
  then show ?thesis by (simp only: and_7_mod)
qed

lemma mod_8_less: "unat (a mod 8 :: addr) < 8"
  by (simp add: unat_mod)

lemma zero_byte_bits: "zero_byte w i \<longleftrightarrow> (\<forall>n < 8. 8 * i + n < 64 \<longrightarrow> \<not> bit w (8 * i + n))"
proof -
  have "bit (0xff :: quad) n \<longleftrightarrow> n < 8" if "n < 64" for n
    using bit_mask_iff [of 8 n, where ?'a = quad] that by (simp add: mask_eq_exp_minus_1)
  then have "bit (w AND push_bit (8 * i) 0xff) n \<longleftrightarrow> bit w n \<and> 8 * i \<le> n \<and> n - 8 * i < 8" if "n < 64" for n
    using that by (auto simp: bit_simps)
  then have "zero_byte w i \<longleftrightarrow> (\<forall>n < 64. \<not> (bit w n \<and> 8 * i \<le> n \<and> n - 8 * i < 8))"
    unfolding zero_byte_def by (auto simp: bit_eq_iff possible_bit_word)
  also have "\<dots> \<longleftrightarrow> (\<forall>n < 8. 8 * i + n < 64 \<longrightarrow> \<not> bit w (8 * i + n))"
    by (metis add_diff_cancel_left' le_add1 le_add_diff_inverse)
  finally show ?thesis .
qed

lemma word_bytes:
  assumes "p mod 8 = 0"
  shows "\<exists>w. mem_d_read bytes p = Inr w \<and>
    (\<forall>i < 8. drop_bit (i * 8) w AND 0xff = ucast (bytes (p + word_of_nat i)) \<and> (zero_byte w i \<longleftrightarrow> bytes (p + word_of_nat i) = 0))"
proof -
  let ?w = "word_rcat (map (\<lambda>b. bytes (p + word_of_nat (7 - b))) [0..<8]) :: quad"
  have bits: "bit ?w (8 * i + n) \<longleftrightarrow> bit (bytes (p + word_of_nat i)) n" if "i < 8" "n < 8" for i n
    using bit_word_of_bytes_low [of "8 * i + n" "\<lambda>b. bytes (p + word_of_nat b)"] that by simp
  have "drop_bit (i * 8) ?w AND 0xff = ucast (bytes (p + word_of_nat i))" if "i < 8" for i
  proof (rule bit_word_eqI)
    fix n assume n: "n < LENGTH(64)"
    have "bit (0xff :: quad) n \<longleftrightarrow> n < 8"
      using bit_mask_iff [of 8 n, where ?'a = quad] n by (simp add: mask_eq_exp_minus_1)
    then show "bit (drop_bit (i * 8) ?w AND 0xff) n = bit (ucast (bytes (p + word_of_nat i)) :: quad) n"
      using bits [OF that, of n] n by (auto simp: bit_simps mult.commute dest: bit_imp_le_length)
  qed
  moreover have "zero_byte ?w i \<longleftrightarrow> bytes (p + word_of_nat i) = 0" if "i < 8" for i
    using bits [OF that] that by (auto simp: zero_byte_bits bit_eq_iff possible_bit_word)
  ultimately show ?thesis using assms by (simp add: mem_d_read_bytes)
qed

lemma LLreadchar_byte: "LLreadchar bytes c = Inr (ucast (bytes c))"
proof -
  obtain w where w: "mem_d_read bytes (c AND NOT 7) = Inr w"
      "\<forall>i < 8. drop_bit (i * 8) w AND 0xff = ucast (bytes ((c AND NOT 7) + word_of_nat i))"
    using word_bytes [OF and_not_7_mod, of bytes c] by blast
  have "(c AND NOT 7) + word_of_nat (unat (c mod 8)) = c" using and_not_7_add [of c] by simp
  then show ?thesis using w mod_8_less [of c] by (simp add: LLreadchar_def and_7_mod)
qed

subsection \<open>Lengths\<close>

lemma find_first:
  "P k \<Longrightarrow> j \<le> k \<Longrightarrow> k < n \<Longrightarrow> (\<And>i. j \<le> i \<Longrightarrow> i < k \<Longrightarrow> \<not> P i) \<Longrightarrow> find P [j..<n] = Some k"
proof (induction "k - j" arbitrary: j)
  case 0
  then show ?case by (simp add: upt_conv_Cons)
next
  case (Suc d)
  then have "find P [Suc j..<n] = Some k" "\<not> P j" by simp_all
  then show ?case using Suc.prems by (simp add: upt_conv_Cons)
qed

lemma aligned_next: "p mod 8 = 0 \<Longrightarrow> (p + 8 :: addr) mod 8 = 0"
proof -
  assume "p mod 8 = 0"
  then have "unat p mod 8 = 0" by (simp add: unat_eq_0 [symmetric] unat_mod)
  moreover have "unat ((p + 8) mod 8) = (unat p + 8) mod 2 ^ 64 mod 8"
    by (simp add: unat_mod unat_word_ariths)
  moreover have "(unat p + 8) mod 2 ^ 64 mod 8 = (unat p + 8) mod 8"
    by (rule mod_mod_cancel) simp
  ultimately show ?thesis by (simp add: unat_eq_0 [symmetric])
qed

lemma strlen_from_finds:
  assumes "p mod 8 = 0" "j < 8" "\<And>i. j \<le> i \<Longrightarrow> i < m \<Longrightarrow> bytes (p + word_of_nat i) \<noteq> 0"
    and "bytes (p + word_of_nat m) = 0" "j \<le> m"
  shows "strlen_from bytes p l j = Some (Inr (l + word_of_nat m))"
  using assms
proof (induction m arbitrary: p j l rule: less_induct)
  case (less m)
  obtain w where w: "mem_d_read bytes p = Inr w" "\<And>i. i < 8 \<Longrightarrow> zero_byte w i \<longleftrightarrow> bytes (p + word_of_nat i) = 0"
    using word_bytes [OF less.prems(1)] by blast
  show ?case
  proof (cases "m < 8")
    case True
    have "find (zero_byte w) [j..<8] = Some m"
      by (rule find_first) (use less.prems w(2) True in \<open>auto simp: less_trans [OF _ True]\<close>)
    then show ?thesis using w(1) by (simp add: strlen_from.simps [of _ _ _ j])
  next
    case False
    then have "find (zero_byte w) [j..<8] = None"
      using less.prems(3) w(2) by (auto simp: find_None_iff)
    moreover have "strlen_from bytes (p + 8) (l + 8) 0 = Some (Inr (l + 8 + word_of_nat (m - 8)))"
    proof (rule less.IH)
      show "m - 8 < m" using False by simp
      show "(p + 8) mod 8 = 0" using less.prems(1) by (rule aligned_next)
      show "bytes (p + 8 + word_of_nat i) \<noteq> 0" if "i < m - 8" for i
      proof -
        have eq: "p + 8 + word_of_nat i = p + word_of_nat (i + 8)" by simp
        have "j \<le> i + 8" "i + 8 < m" using that less.prems(2) by simp_all
        from less.prems(3) [OF this] show ?thesis unfolding eq .
      qed
      show "bytes (p + 8 + word_of_nat (m - 8)) = 0"
        using less.prems(4) False by (simp add: of_nat_diff)
    qed simp_all
    ultimately show ?thesis using w(1) False by (simp add: strlen_from.simps [of _ _ _ j] of_nat_diff)
  qed
qed

lemma string_at_Nil [simp]: "string_at bytes q [] \<longleftrightarrow> bytes q = 0"
  by (simp add: string_at_def)

lemma string_at_Cons [simp]: "string_at bytes q (c # cs) \<longleftrightarrow> bytes q = c \<and> string_at bytes (q + 1) cs"
proof -
  have "(\<forall>i < Suc (length cs). bytes (q + word_of_nat i) = (c # cs) ! i) \<longleftrightarrow>
      bytes q = c \<and> (\<forall>i < length cs. bytes (q + 1 + word_of_nat i) = cs ! i)"
    by (auto simp: less_Suc_eq_0_disj add.assoc)
  then show ?thesis by (auto simp: string_at_def add.assoc)
qed

text \<open>Where a string is stored, \<^verbatim>\<open>llstrlen\<close> returns its length, whatever its alignment, although it
  reads memory only in aligned words of eight bytes.\<close>

lemma llstrlen_value:
  assumes "string_at bytes q s" and "0 \<notin> set s"
  shows "llstrlen bytes q = Some (Inr (word_of_nat (length s)))"
proof -
  let ?k = "unat (q mod 8)" and ?p = "q AND NOT 7"
  have p: "?p = q - q mod 8" using and_not_7_add [of q] by (metis add_diff_cancel_right')
  have at: "?p + word_of_nat i = q + word_of_nat (i - ?k)" if "?k \<le> i" for i
    unfolding p using that by (simp add: of_nat_diff)
  have "strlen_from bytes ?p (- (q mod 8)) ?k = Some (Inr (- (q mod 8) + word_of_nat (?k + length s)))"
  proof (rule strlen_from_finds [OF and_not_7_mod mod_8_less])
    show "bytes (?p + word_of_nat i) \<noteq> 0" if "?k \<le> i" "i < ?k + length s" for i
    proof -
      have i: "i - ?k < length s" using that by simp
      then have "bytes (q + word_of_nat (i - ?k)) = s ! (i - ?k)" using assms(1) by (simp only: string_at_def)
      then show ?thesis unfolding at [OF that(1)] using i assms(2) by (metis nth_mem)
    qed
    show "bytes (?p + word_of_nat (?k + length s)) = 0"
      unfolding at [OF le_add1] using assms(1) by (simp add: string_at_def)
  qed simp
  then show ?thesis by (simp add: llstrlen_def)
qed

subsection \<open>Numbers\<close>

definition digit_char :: "byte \<Rightarrow> bool" where
  "digit_char c \<longleftrightarrow> c_isdigit (ucast c)"

text \<open>The value of a string of decimal digits.\<close>

definition decimal :: "byte list \<Rightarrow> int" where
  "decimal ds = foldl (\<lambda>n c. 10 * n + (uint c - 48)) 0 ds"

lemma uint_ucast_byte [simp]: "uint (ucast (c :: byte) :: quad) = uint c" "sint (ucast (c :: byte) :: quad) = uint c"
proof -
  show u: "uint (ucast c :: quad) = uint c"
    using uint_lt2p [of c] by (simp add: unsigned_ucast_eq take_bit_int_eq_self_iff)
  show "sint (ucast c :: quad) = uint c"
    using u uint_lt2p [of c] order_trans [OF _ uint_ge_0, of "- 9223372036854775808" c]
    by (simp add: sint_uint signed_take_bit_int_eq_self_iff)
qed

lemma ucast_byte_eq [simp]: "(ucast (c :: byte) :: quad) = numeral k \<longleftrightarrow> uint c = uint (numeral k :: quad)"
  by (metis uint_ucast_byte(1) word_uint_eq_iff)

lemma digit_char_range: "digit_char c \<longleftrightarrow> 48 \<le> uint c \<and> uint c \<le> 57"
proof -
  obtain k where k: "uint c = int k" by (metis uint_ge_0 zero_le_imp_eq_int)
  have "uint (ucast c - 0x30 :: quad) = (uint c - 48) mod 2 ^ 64"
    by (simp add: uint_word_ariths)
  moreover have "(uint c - 48) mod 2 ^ 64 = (if uint c < 48 then uint c - 48 + 2 ^ 64 else uint c - 48)"
    by (subst int_mod_wrap) (use uint_lt2p [of c] uint_ge_0 [of c] in \<open>auto simp del: uint_ge_0\<close>)
  ultimately show ?thesis
    using k by (auto simp: digit_char_def c_isdigit_def word_less_def)
qed

lemma digit_not_space: "digit_char c \<Longrightarrow> \<not> c_isspace (ucast c) \<and> uint c \<noteq> 0x2d \<and> uint c \<noteq> 0x2b"
proof -
  assume "digit_char c"
  then have c: "48 \<le> uint c" "uint c \<le> 57" by (simp_all add: digit_char_range)
  have "uint (ucast c - 9 :: quad) = uint c - 9"
    using c by (simp add: uint_word_ariths)
  with c show ?thesis by (auto simp: c_isspace_def word_less_def)
qed

lemma skip_spaces_stops:
  assumes "string_at bytes q (ws @ c # cs)" "\<forall>w \<in> set ws. c_isspace (ucast w)" "\<not> c_isspace (ucast c)"
  shows "skip_spaces bytes q = Some (Inr (q + word_of_nat (length ws)))"
  using assms(1,2)
proof (induction ws arbitrary: q)
  case Nil
  then show ?case using assms(3) by (simp add: skip_spaces.simps [of _ q] LLreadchar_byte)
next
  case (Cons w ws)
  then show ?case by (simp add: skip_spaces.simps [of _ q] LLreadchar_byte add.assoc)
qed

lemma decimal_snoc: "decimal (ds @ [c]) = 10 * decimal ds + (uint c - 48)"
  by (simp add: decimal_def)

lemma read_digits_value:
  assumes "string_at bytes q (ds @ rest)" "\<forall>c \<in> set ds. digit_char c" "rest = [] \<or> \<not> digit_char (hd rest)"
    and "n \<le> 0" "- (2 ^ 63) \<le> n"
  shows "read_digits bytes q n = Some (checked (foldl (\<lambda>n c. 10 * n - (uint c - 48)) n ds))"
  using assms(1,2,4,5)
proof (induction ds arbitrary: q n)
  case Nil
  have "\<not> c_isdigit (ucast (bytes q))"
    using Nil.prems(1) assms(3) digit_char_range [of 0] by (cases rest) (auto simp: digit_char_def)
  then show ?case using Nil by (simp add: read_digits.simps [of _ q] LLreadchar_byte)
next
  case (Cons c ds)
  let ?m = "10 * n - (uint c - 48)"
  have c: "48 \<le> uint c" "uint c \<le> 57" using Cons.prems(2) by (simp_all add: digit_char_range)
  have mono: "foldl (\<lambda>n c. 10 * n - (uint c - 48)) m es \<le> m" if "m \<le> 0" "\<forall>c \<in> set es. digit_char c" for m es
    using that
  proof (induction es arbitrary: m)
    case (Cons e es)
    then have "10 * m - (uint e - 48) \<le> m" "10 * m - (uint e - 48) \<le> 0" by (simp_all add: digit_char_range)
    then show ?case using Cons.IH [of "10 * m - (uint e - 48)"] Cons.prems(2) by simp
  qed simp
  have step: "read_digits bytes q n = (case and_then (checked (10 * n)) (\<lambda>m. and_then (checked (uint c - 48)) (\<lambda>d. checked (m - d))) of
      Inl f \<Rightarrow> Some (Inl f) | Inr n \<Rightarrow> read_digits bytes (q + 1) n)"
    using Cons.prems(1,2) by (simp add: read_digits.simps [of _ q] LLreadchar_byte digit_char_def c_mul_def c_sub_def [abs_def])
  show ?case
  proof (cases "- (2 ^ 63) \<le> ?m")
    case True
    then have "checked (10 * n) = Inr (10 * n)" "checked (uint c - 48) = Inr (uint c - 48)" "checked ?m = Inr ?m"
      using c Cons.prems(3) by simp_all
    then show ?thesis using step Cons.IH [of "q + 1" ?m] Cons.prems True c by simp
  next
    case False
    then have bad: "checked ?m = Inl Undefined_behaviour" by (simp add: checked_def)
    have "foldl (\<lambda>n c. 10 * n - (uint c - 48)) ?m ds \<le> ?m" using mono [of ?m ds] Cons.prems c by simp
    then have "checked (foldl (\<lambda>n c. 10 * n - (uint c - 48)) n (c # ds)) = Inl Undefined_behaviour"
      using False by (simp add: checked_def)
    moreover have "read_digits bytes q n = Some (Inl Undefined_behaviour)"
    proof (cases "checked (10 * n)")
      case (Inl f)
      then show ?thesis unfolding step by (simp add: checked_def split: if_splits)
    next
      case (Inr m)
      then have "m = 10 * n" by (simp add: checked_def split: if_splits)
      with Inr show ?thesis unfolding step using bad c by simp
    qed
    ultimately show ?thesis by simp
  qed
qed

lemma string_at_append: "string_at bytes q (xs @ ys) \<Longrightarrow> string_at bytes (q + word_of_nat (length xs)) ys"
proof (induction xs arbitrary: q)
  case (Cons x xs)
  then have "string_at bytes (q + 1 + word_of_nat (length xs)) ys" by simp
  moreover have "q + 1 + word_of_nat (length xs) = q + word_of_nat (length (x # xs))" by simp
  ultimately show ?case by (simp only:)
qed simp

lemma foldl_negative: "foldl (\<lambda>n c. 10 * n - (uint (c :: byte) - 48)) (- m) ds = - foldl (\<lambda>n c. 10 * n + (uint c - 48)) m ds"
proof (induction ds arbitrary: m)
  case (Cons d ds)
  have "10 * (- m) - (uint d - 48) = - (10 * m + (uint d - 48))" by simp
  with Cons.IH [of "10 * m + (uint d - 48)"] show ?case by (simp only: foldl_Cons)
qed simp

lemma decimal_nonneg:
  assumes "\<forall>c \<in> set ds. digit_char c"
  shows "0 \<le> decimal ds"
  using assms by (induction ds rule: rev_induct) (simp_all add: decimal_snoc digit_char_range, simp add: decimal_def)

lemma c_atol_value:
  assumes "string_at bytes q (ws @ sg @ ds @ rest)" and "\<forall>w \<in> set ws. c_isspace (ucast w)"
    and "sg = [] \<or> sg = [0x2b] \<or> sg = [0x2d]" and "ds \<noteq> []" "\<forall>c \<in> set ds. digit_char c"
    and "rest = [] \<or> \<not> digit_char (hd rest)"
  shows "c_atol bytes q = Some (checked (if sg = [0x2d] then - decimal ds else decimal ds))"
proof -
  let ?q = "q + word_of_nat (length ws)"
  obtain d es where ds: "ds = d # es" using assms(4) by (cases ds) simp_all
  then have d: "\<not> c_isspace (ucast d)" "uint d \<noteq> 0x2d" "uint d \<noteq> 0x2b" using assms(5) digit_not_space by auto
  obtain c cs where c: "sg @ ds @ rest = c # cs" "\<not> c_isspace (ucast c)"
    using assms(3) d(1) ds by (auto simp: c_isspace_def)
  then have skip: "skip_spaces bytes q = Some (Inr ?q)" using skip_spaces_stops assms(1,2) by metis
  have at: "string_at bytes ?q (sg @ ds @ rest)"
    using assms(1) by (rule string_at_append)
  let ?r = "?q + word_of_nat (length sg)"
  have "string_at bytes ?r (ds @ rest)" using at assms(3) by auto
  from read_digits_value [OF this assms(5,6), of 0]
  have digits: "read_digits bytes ?r 0 = Some (checked (- decimal ds))"
    using foldl_negative [of 0 ds] by (simp add: decimal_def)
  have sign: "(ucast (bytes ?q) = (0x2d :: quad)) = (sg = [0x2d])"
      "(if sg = [0x2d] \<or> ucast (bytes ?q) = (0x2b :: quad) then ?q + 1 else ?q) = ?r"
    using at assms(3) d ds by auto
  have "checked (if sg = [0x2d] then - decimal ds else decimal ds) = (case checked (- decimal ds) of
      Inl f \<Rightarrow> Inl f | Inr n \<Rightarrow> if sg = [0x2d] then Inr n else c_sub 0 n)"
    using decimal_nonneg [OF assms(5)] by (auto simp: checked_def c_sub_def)
  then show ?thesis
    unfolding c_atol_def skip Let_def option.case sum.case LLreadchar_byte sign digits
    by (simp split: sum.split)
qed

text \<open>C36: after white space and a sign \<^verbatim>\<open>atol\<close> reads the decimal digits up to the first character
  that is none, and its result is their value wherever that is a \<^verbatim>\<open>long\<close>, the least one included;
  where it is not, the code overflows.\<close>

theorem atol_value:
  assumes "string_at bytes q (ws @ sg @ ds @ rest)" and "\<forall>w \<in> set ws. c_isspace (ucast w)"
    and "sg = [] \<or> sg = [0x2b] \<or> sg = [0x2d]" and "ds \<noteq> []" "\<forall>c \<in> set ds. digit_char c"
    and "rest = [] \<or> \<not> digit_char (hd rest)"
  shows "c_atol bytes q = Some (checked (if sg = [0x2d] then - decimal ds else decimal ds))"
  by (rule c_atol_value [OF assms])

theorem atol_value_witness:
  "c_atol (\<lambda>a. if a = 0x1003 then 0x20 else if a = 0x1004 then 0x2d else if a = 0x1005 then 0x34 else
     if a = 0x1006 then 0x32 else 0) 0x1003 = Some (checked (- 42))"
proof -
  let ?b = "\<lambda>a :: addr. if a = 0x1003 then 0x20 else if a = 0x1004 then 0x2d else if a = 0x1005 then 0x34 else
     if a = 0x1006 then 0x32 else (0 :: byte)"
  have "string_at ?b 0x1003 ([0x20] @ [0x2d] @ [0x34, 0x32] @ [])" by simp
  from atol_value [OF this] show ?thesis by (simp add: c_isspace_def digit_char_range decimal_def)
qed

subsection \<open>The heap\<close>

lemma round_up:
  assumes "0 < unat n" "unat n \<le> 2 ^ 63"
  shows "unat (((n - 1) div 8 + 1) * 8 :: quad) = (unat n - 1) div 8 * 8 + 8"
proof -
  have "n \<noteq> 0" using assms(1) by auto
  then have "unat (n - 1) = unat n - 1" by (simp add: unat_minus_one)
  then have d: "unat ((n - 1) div 8) = (unat n - 1) div 8" by (simp add: unat_div)
  then have s: "unat ((n - 1) div 8 + 1) = (unat n - 1) div 8 + 1"
    using assms(2) by (simp add: unat_word_ariths)
  have t: "unat (x * 8) = unat x * 8 mod 2 ^ 64" for x :: quad by (simp add: unat_word_ariths)
  have "(unat n - 1) div 8 * 8 + 8 < 2 ^ 64" using assms(2) by simp
  then show ?thesis unfolding t s by simp
qed

text \<open>A block that \<^verbatim>\<open>malloc\<close> returns starts where the break was, has at least the size asked for and
  fewer than eight bytes more, and ends where the next block will start; the break stays a multiple
  of eight.\<close>

lemma c_malloc_block:
  assumes "0 < unat n" "unat brk + unat n < 2 ^ 63" and "c_malloc n brk = (p, brk')"
  shows "p = brk \<and> unat brk + unat n \<le> unat brk' \<and> unat brk' < unat brk + unat n + 8 \<and>
    (unat brk mod 8 = 0 \<longrightarrow> unat brk' mod 8 = 0)"
proof -
  let ?k = "(unat n - 1) div 8 * 8 + 8"
  have k: "unat (((n - 1) div 8 + 1) * 8) = ?k" using round_up assms(1,2) by simp
  have bounds: "unat n \<le> ?k" "?k < unat n + 8" using assms(1) by presburger+
  have b': "unat brk' = unat brk + ?k"
    using assms(2,3) k bounds(2) by (auto simp: c_malloc_def Let_def unat_word_ariths)
  moreover have "p = brk" using assms(3) by (auto simp: c_malloc_def Let_def)
  ultimately show ?thesis using bounds by (auto simp: mod_add_left_eq [symmetric])
qed

end
