(* ===== verification/GuestCalls.thy ===== *)
theory GuestCalls
  imports LibC System
begin

text \<open>
  The system calls of the guest programs, from the C library (\<^verbatim>\<open>prog2/libc.c\<close>, with the numbers of
  \<^verbatim>\<open>prog2/syscall.h\<close>) through the \<^verbatim>\<open>syscall\<close> instruction of the execute stage to
  \<^verbatim>\<open>Core::syscall\<close> and the bytes of the memory. The inline assembly puts the number and the arguments
  into \<^verbatim>\<open>rax\<close>, \<^verbatim>\<open>rdi\<close>, \<^verbatim>\<open>rsi\<close> and \<^verbatim>\<open>rdx\<close> and takes the result from \<^verbatim>\<open>rax\<close>.
\<close>

subsection \<open>The instruction\<close>

text \<open>The case distinction of \<^verbatim>\<open>do_syscall\<close> comes to reading every argument from the register file
  with the last result written.\<close>

lemma syscall_arg_current:
  "syscall_arg x UD_R_RSP (rsp f) = rsp (arf_set f (prev_reg1 x) (prev_value1 x))"
  "syscall_arg x UD_R_RAX (rax f) = rax (arf_set f (prev_reg1 x) (prev_value1 x))"
  "syscall_arg x UD_R_RDI (rdi f) = rdi (arf_set f (prev_reg1 x) (prev_value1 x))"
  "syscall_arg x UD_R_RSI (rsi f) = rsi (arf_set f (prev_reg1 x) (prev_value1 x))"
  "syscall_arg x UD_R_RDX (rdx f) = rdx (arf_set f (prev_reg1 x) (prev_value1 x))"
  "syscall_arg x UD_R_R10 (r10 f) = r10 (arf_set f (prev_reg1 x) (prev_value1 x))"
  "syscall_arg x UD_R_R8 (r8 f) = r8 (arf_set f (prev_reg1 x) (prev_value1 x))"
  "syscall_arg x UD_R_R9 (r9 f) = r9 (arf_set f (prev_reg1 x) (prev_value1 x))"
  unfolding syscall_arg_def by (cases "prev_reg1 x"; simp)+

subsection \<open>The kernel as the guest sees it\<close>

definition NR_write :: quad where "NR_write = 1"
definition NR_brk :: quad where "NR_brk = 12"
definition NR_exit :: quad where "NR_exit = 60"
definition NR_clock_gettime :: quad where "NR_clock_gettime = 228"

text \<open>The globals, the bytes of the memory, and what the host has been given to write so far; the host's
  \<^verbatim>\<open>write\<close> reads the bytes when it is called.\<close>

record os =
  os_glob :: globals
  os_bytes :: "addr \<Rightarrow> byte"
  os_out :: "byte list"

fun written :: "(addr \<Rightarrow> byte) \<Rightarrow> sys_effect list \<Rightarrow> byte list" where
  "written bytes [] = []"
| "written bytes (Host_write fd p n # es) =
     map (\<lambda>i. bytes (p - mem_base + word_of_nat i)) [0..<unat n] @ written bytes es"
| "written bytes (_ # es) = written bytes es"

text \<open>\<^verbatim>\<open>__syscall1\<close>, \<^verbatim>\<open>__syscall2\<close> and \<^verbatim>\<open>__syscall3\<close>; the arguments that are not passed are
  what the registers hold, and are not used.\<close>

definition guest_syscall :: "host \<Rightarrow> quad \<Rightarrow> quad \<Rightarrow> quad \<Rightarrow> quad \<Rightarrow> os \<Rightarrow> fault + (quad \<times> os)" where
  "guest_syscall h n a1 a2 a3 s =
     (let f = (regfile (os_glob s))\<lparr>rax := n, rdi := a1, rsi := a2, rdx := a3\<rparr>;
          g = (os_glob s)\<lparr>regfile := f\<rparr> in
      case core_syscall h (rsp f) (rip f) (rax f) (rdi f) (rsi f) (rdx f) (r10 f) (r8 f) (r9 f) g of
        Inl e \<Rightarrow> Inl e
      | Inr (r, g') \<Rightarrow>
          (let new = drop (length (sys_log g)) (sys_log g') in
           and_then (sys_effects new (os_bytes s)) (\<lambda>bytes.
             Inr (signed r, s\<lparr>os_glob := g'\<lparr>regfile := (regfile g')\<lparr>rax := signed r\<rparr>\<rparr>, os_bytes := bytes,
               os_out := os_out s @ written (os_bytes s) new\<rparr>))))"

text \<open>C19: on a machine whose register file has the last result written, even if that is still on its way to
  the register file, the \<^verbatim>\<open>syscall\<close> instruction of the execute stage is the call that the inline assembly
  asks for: the same result in \<^verbatim>\<open>rax\<close>, the same stores, the same output.\<close>

theorem syscall_reaches_kernel:
  "let f = arf_set g (prev_reg1 x) (prev_value1 x) in
   guest_syscall h (rax f) (rdi f) (rsi f) (rdx f) (s\<lparr>os_glob := (os_glob s)\<lparr>regfile := f\<rparr>\<rparr>) =
     (case do_syscall h x ((os_glob s)\<lparr>regfile := g\<rparr>) of
        Inl e \<Rightarrow> Inl e
      | Inr (x', t) \<Rightarrow>
          (let new = drop (length (sys_log (os_glob s))) (sys_log t) in
           and_then (sys_effects new (os_bytes s)) (\<lambda>bytes.
             Inr (rax (regfile t), s\<lparr>os_glob := t\<lparr>regfile := f\<lparr>rax := prev_value1 x'\<rparr>\<rparr>, os_bytes := bytes,
               os_out := os_out s @ written (os_bytes s) new\<rparr>))))"
proof -
  define f where "f = arf_set g (prev_reg1 x) (prev_value1 x)"
  have keep: "f\<lparr>rax := rax f, rdi := rdi f, rsi := rsi f, rdx := rdx f\<rparr> = f" by simp
  let ?k = "os_glob s"
  let ?c = "core_syscall h (rsp f) (address (Op x)) (rax f) (rdi f) (rsi f) (rdx f) (r10 f) (r8 f) (r9 f) (?k\<lparr>regfile := g\<rparr>)"
  have other: "core_syscall h (rsp f) (rip f) (rax f) (rdi f) (rsi f) (rdx f) (r10 f) (r8 f) (r9 f) (?k\<lparr>regfile := f\<rparr>) =
      (case ?c of Inl e \<Rightarrow> Inl e | Inr (res, t) \<Rightarrow> Inr (res, t\<lparr>regfile := f\<rparr>))"
    by (simp add: core_syscall_def Let_def)
  have guest: "guest_syscall h (rax f) (rdi f) (rsi f) (rdx f) (s\<lparr>os_glob := ?k\<lparr>regfile := f\<rparr>\<rparr>) = (case ?c of
        Inl e \<Rightarrow> Inl e
      | Inr (res, t) \<Rightarrow> (let new = drop (length (sys_log ?k)) (sys_log t) in
          and_then (sys_effects new (os_bytes s)) (\<lambda>bytes.
            Inr (signed res, s\<lparr>os_glob := t\<lparr>regfile := f\<lparr>rax := signed res\<rparr>\<rparr>, os_bytes := bytes,
              os_out := os_out s @ written (os_bytes s) new\<rparr>))))"
    using other by (cases ?c) (auto simp: guest_syscall_def keep Let_def)
  have stage: "do_syscall h x (?k\<lparr>regfile := g\<rparr>) = (case ?c of
        Inl e \<Rightarrow> Inl e
      | Inr (res, t) \<Rightarrow> Inr (x\<lparr>prev_reg2 := prev_reg1 x, prev_reg1 := UD_R_RAX, prev_value2 := prev_value1 x,
          prev_value1 := signed res\<rparr>, t\<lparr>regfile := (regfile t)\<lparr>rax := signed res\<rparr>\<rparr>))"
    by (simp add: do_syscall_def syscall_arg_current f_def Let_def)
  show ?thesis
    unfolding f_def [symmetric] Let_def guest stage by (cases ?c) (auto simp: Let_def)
qed

subsection \<open>The functions of the library that call the kernel\<close>

definition c_puts :: "host \<Rightarrow> addr \<Rightarrow> os \<Rightarrow> (fault + (quad \<times> os)) option" where
  "c_puts h s st = (case llstrlen (os_bytes st) s of
     None \<Rightarrow> None
   | Some (Inl f) \<Rightarrow> Some (Inl f)
   | Some (Inr n) \<Rightarrow> Some (guest_syscall h NR_write 1 s n st))"

text \<open>\<open>sp\<close> is the address of the local array.\<close>

definition c_putchar :: "host \<Rightarrow> addr \<Rightarrow> quad \<Rightarrow> os \<Rightarrow> fault + (quad \<times> os)" where
  "c_putchar h sp c st =
     and_then (mem_d_write sp c (os_bytes st)) (\<lambda>bytes. guest_syscall h NR_write 1 sp 1 (st\<lparr>os_bytes := bytes\<rparr>))"

text \<open>The pointer, and the state with the new program break. \<^verbatim>\<open>current_brk\<close> is a global of the library.\<close>

definition malloc_call :: "host \<Rightarrow> quad \<Rightarrow> addr \<Rightarrow> os \<Rightarrow> fault + (addr \<times> addr \<times> os)" where
  "malloc_call h n current_brk st = (case c_malloc n current_brk of (p, brk) \<Rightarrow>
     and_then (guest_syscall h NR_brk brk 0 0 st) (\<lambda>(_, st). Inr (p, brk, st)))"

text \<open>\<open>ts\<close> is the address of the local structure, whose first word is the seconds.\<close>

definition c_time :: "host \<Rightarrow> addr \<Rightarrow> os \<Rightarrow> fault + (quad \<times> os)" where
  "c_time h ts st = and_then (guest_syscall h NR_clock_gettime 0 ts 0 st) (\<lambda>(_, st).
     and_then (mem_d_read (os_bytes st) ts) (\<lambda>t. Inr (t, st)))"

definition c_exit :: "host \<Rightarrow> quad \<Rightarrow> os \<Rightarrow> fault + (quad \<times> os)" where
  "c_exit h code st = guest_syscall h NR_exit code 0 0 st"

definition initial_brk :: "host \<Rightarrow> os \<Rightarrow> fault + (quad \<times> os)" where
  "initial_brk h st = guest_syscall h NR_brk 0 0 0 st"

subsection \<open>What they do\<close>

lemmas NR_defs = NR_write_def NR_brk_def NR_exit_def NR_clock_gettime_def

lemma guest_write:
  "\<exists>r s'. guest_syscall h NR_write fd p n s = Inr (r, s') \<and> os_bytes s' = os_bytes s \<and>
     os_out s' = os_out s @ map (\<lambda>i. os_bytes s (p + word_of_nat i)) [0..<unat n] \<and>
     brk_val (os_glob s') = brk_val (os_glob s)"
  by (simp add: guest_syscall_def core_syscall_def NR_defs Let_def)

lemma guest_brk:
  "guest_syscall h NR_brk a b c s = Inr (r, s') \<Longrightarrow> r = signed (ucast (max (brk_val (os_glob s)) a) :: cint) \<and>
     brk_val (os_glob s') = max (brk_val (os_glob s)) a \<and> os_bytes s' = os_bytes s \<and> os_out s' = os_out s"
  by (auto simp: guest_syscall_def core_syscall_def NR_defs Let_def max_def)

lemma guest_brk_total: "\<exists>r s'. guest_syscall h NR_brk a b c s = Inr (r, s')"
  by (simp add: guest_syscall_def core_syscall_def NR_defs Let_def)

text \<open>A byte written by \<^verbatim>\<open>putchar\<close> is the low byte of its argument.\<close>

lemma putchar_writes:
  assumes "sp mod 8 = 0"
  shows "\<exists>r s'. c_putchar h sp c s = Inr (r, s') \<and> os_out s' = os_out s @ [ucast c] \<and>
    (\<forall>a. unat (a - sp) \<ge> 8 \<longrightarrow> os_bytes s' a = os_bytes s a) \<and> brk_val (os_glob s') = brk_val (os_glob s)"
proof -
  have w: "mem_d_write sp c (os_bytes s) = Inr (store64 sp c (os_bytes s))" by (rule mem_d_write_store64 [OF assms])
  have "store64 sp c (os_bytes s) sp = ucast c" by (simp add: store64_byte)
  moreover have "store64 sp c (os_bytes s) a = os_bytes s a" if "unat (a - sp) \<ge> 8" for a
    using that by (simp add: store64_byte)
  ultimately show ?thesis
    using guest_write [of h 1 sp 1 "s\<lparr>os_bytes := store64 sp c (os_bytes s)\<rparr>"]
    by (auto simp: c_putchar_def w)
qed

text \<open>\<^verbatim>\<open>puts\<close> writes the string it is given, and nothing else changes.\<close>

lemma string_at_short:
  assumes "string_at bytes p s" and "0 \<notin> set s"
  shows "length s < 2 ^ 64"
proof (rule ccontr)
  assume "\<not> length s < 2 ^ 64"
  then have len: "2 ^ 64 \<le> length s" by simp
  let ?i = "length s mod 2 ^ 64"
  have "?i < 2 ^ 64" by simp
  then have i: "?i < length s" using len by linarith
  have "(word_of_nat ?i :: addr) = word_of_nat (length s)" by (simp add: word_of_nat_eq_iff take_bit_eq_mod)
  then have "s ! ?i = 0" using assms(1) i by (metis string_at_def)
  then show False using assms(2) i by (metis nth_mem)
qed

lemma puts_writes:
  assumes "string_at (os_bytes st) p s" and "0 \<notin> set s"
  shows "\<exists>r st'. c_puts h p st = Some (Inr (r, st')) \<and> os_out st' = os_out st @ s \<and>
    os_bytes st' = os_bytes st \<and> brk_val (os_glob st') = brk_val (os_glob st)"
proof -
  have n: "unat (word_of_nat (length s) :: quad) = length s"
    using string_at_short [OF assms] by (simp add: unat_of_nat_64)
  have "map (\<lambda>i. os_bytes st (p + word_of_nat i)) [0..<length s] = s"
    using assms(1) by (intro nth_equalityI) (simp_all add: string_at_def)
  then show ?thesis
    using llstrlen_value [OF assms] guest_write [of h 1 p "word_of_nat (length s)" st] by (auto simp: c_puts_def n)
qed

text \<open>\<^verbatim>\<open>time\<close> returns the clock of the simulator.\<close>

lemma time_reads_clock:
  assumes "ts mod 8 = 0" and "ts \<le> mem_size - 16"
  shows "\<exists>st'. c_time h ts st = Inr (now h, st') \<and> os_out st' = os_out st \<and>
    brk_val (os_glob st') = brk_val (os_glob st) \<and> (\<forall>a. unat (a - ts) \<ge> 16 \<longrightarrow> os_bytes st' a = os_bytes st a)"
proof -
  let ?b1 = "store64 ts (now h) (os_bytes st)"
  let ?b2 = "store64 (ts + 8) 0 ?b1"
  have t: "unat ts \<le> unat mem_size - 16" using assms(2) by (simp add: mem_size_def word_le_nat_alt)
  then have t8: "unat (ts + 8) = unat ts + 8" by (simp add: mem_size_def unat_word_ariths)
  have le: "ts \<le> mem_size - 8" "ts + 8 \<le> mem_size - 8"
    using t t8 by (simp_all add: mem_size_def word_le_nat_alt)
  have al: "(ts + 8) mod 8 = 0" using assms(1) t8 by (simp add: mod_8_unat)
  have "\<exists>r st'. guest_syscall h NR_clock_gettime 0 ts 0 st = Inr (r, st') \<and> os_bytes st' = ?b2 \<and> os_out st' = os_out st \<and>
      brk_val (os_glob st') = brk_val (os_glob st)"
    using le by (simp add: guest_syscall_def core_syscall_def NR_defs Let_def poke_def add.assoc)
  then obtain r st' where st': "guest_syscall h NR_clock_gettime 0 ts 0 st = Inr (r, st')" "os_bytes st' = ?b2"
      "os_out st' = os_out st" "brk_val (os_glob st') = brk_val (os_glob st)" by blast
  have "mem_d_read ?b1 ts = Inr (now h)"
    using mem_d_read_write [OF mem_d_write_store64 [OF assms(1)] assms(1)] by simp
  moreover have "ts \<noteq> ts + 8" by simp
  ultimately have "mem_d_read ?b2 ts = Inr (now h)"
    using mem_d_read_write [OF mem_d_write_store64 [OF al, of 0 ?b1] assms(1)] by simp
  moreover have "?b2 a = os_bytes st a" if "unat (a - ts) \<ge> 16" for a
  proof -
    have "unat (a - (ts + 8)) = unat (a - ts) - 8"
    proof -
      have "(8 :: addr) \<le> a - ts" using that by (simp add: word_le_nat_alt)
      then have "unat (a - ts - 8) = unat (a - ts) - unat (8 :: addr)" by (rule unat_sub)
      moreover have "a - (ts + 8) = a - ts - 8" "unat (8 :: addr) = 8" by simp_all
      ultimately show ?thesis by (simp only:)
    qed
    then have "\<not> unat (a - (ts + 8)) < 8" "\<not> unat (a - ts) < 8" using that by linarith+
    then show ?thesis by (simp add: store64_byte)
  qed
  ultimately show ?thesis using st' by (auto simp: c_time_def)
qed

text \<open>While the library's pointer is the kernel's program break, \<^verbatim>\<open>malloc\<close> moves both to the end of the
  block it returns.\<close>

lemma malloc_moves_break:
  assumes "0 < unat n" "unat cur + unat n + 8 < 2 ^ 63" and "cur = brk_val (os_glob st)"
  shows "\<exists>cur' st'. malloc_call h n cur st = Inr (cur, cur', st') \<and> cur' = brk_val (os_glob st') \<and>
    unat cur + unat n \<le> unat cur' \<and> unat cur' < unat cur + unat n + 8 \<and>
    os_bytes st' = os_bytes st \<and> os_out st' = os_out st"
proof -
  obtain p cur' where m: "c_malloc n cur = (p, cur')" by fastforce
  have b: "p = cur" "unat cur + unat n \<le> unat cur'" "unat cur' < unat cur + unat n + 8"
    using c_malloc_block [OF assms(1) _ m] assms(2) by simp_all
  then have "brk_val (os_glob st) \<le> cur'" using assms(3) by (simp add: word_le_nat_alt)
  moreover obtain r st' where "guest_syscall h NR_brk cur' 0 0 st = Inr (r, st')" using guest_brk_total by blast
  ultimately show ?thesis using guest_brk [of h cur' 0 0 st r st'] m b by (auto simp: malloc_call_def max_def)
qed

end
