(* ===== verification/Arctan.thy ===== *)
theory Arctan
  imports GuestC
begin

text \<open>
  The arithmetic of the guest program \<^verbatim>\<open>core-project/prog2/prog2.c\<close>, in its default configuration:
  \<^verbatim>\<open>LONG\<close> and \<^verbatim>\<open>SHORT\<close> are \<^verbatim>\<open>long long\<close>, a number is an array of \<^verbatim>\<open>size\<close> digits to the base
  100 with the most significant first, and \<^verbatim>\<open>arctan\<close> adds or subtracts the series of
  \<open>multiplier * arctan (1 / denom)\<close> to \<^verbatim>\<open>pi\<close>.
\<close>

definition BASE :: int where "BASE = 100"

record arc =
  a_pi :: "int list"
  powers :: "int list"
  terms :: "int list"
  adv :: nat
  remain :: int
  divisor :: int
  a_sign :: int

subsection \<open>The loops of one round\<close>

definition powers_step :: "int \<Rightarrow> nat \<Rightarrow> int list \<times> int \<Rightarrow> fault + int list \<times> int" where
  "powers_step denom2 x s = (case s of (ps, r) \<Rightarrow>
     and_then (arr_load ps x) (\<lambda>p.
     and_then (c_add p r) (\<lambda>temp.
     and_then (c_div temp denom2) (\<lambda>q.
     and_then (arr_store ps x q) (\<lambda>ps.
     and_then (c_mul denom2 q) (\<lambda>m.
     and_then (c_sub temp m) (\<lambda>d.
     and_then (c_mul d BASE) (\<lambda>r. Inr (ps, r)))))))))"

definition term_step :: "int list \<Rightarrow> int \<Rightarrow> nat \<Rightarrow> int list \<times> int \<Rightarrow> fault + int list \<times> int" where
  "term_step ps dv x s = (case s of (ts, r) \<Rightarrow>
     and_then (arr_load ps x) (\<lambda>p.
     and_then (c_add p r) (\<lambda>temp.
     and_then (c_div temp dv) (\<lambda>q.
     and_then (arr_store ts x q) (\<lambda>ts.
     and_then (c_mul dv q) (\<lambda>m.
     and_then (c_sub temp m) (\<lambda>d.
     and_then (c_mul d BASE) (\<lambda>r. Inr (ts, r)))))))))"

definition add_step :: "int list \<Rightarrow> nat \<Rightarrow> int list \<times> int \<Rightarrow> fault + int list \<times> int" where
  "add_step ts x s = (case s of (ds, carry) \<Rightarrow>
     and_then (arr_load ds x) (\<lambda>d.
     and_then (arr_load ts x) (\<lambda>t.
     and_then (c_add d t) (\<lambda>u.
     and_then (c_add u carry) (\<lambda>sum.
     if sum \<ge> BASE
     then and_then (c_sub sum BASE) (\<lambda>sum. and_then (arr_store ds x sum) (\<lambda>ds. Inr (ds, 1)))
     else and_then (arr_store ds x sum) (\<lambda>ds. Inr (ds, 0)))))))"

definition sub_step :: "int list \<Rightarrow> nat \<Rightarrow> int list \<times> int \<Rightarrow> fault + int list \<times> int" where
  "sub_step ts x s = (case s of (ds, borrow) \<Rightarrow>
     and_then (arr_load ds x) (\<lambda>d.
     and_then (arr_load ts x) (\<lambda>t.
     and_then (c_sub d t) (\<lambda>u.
     and_then (c_sub u borrow) (\<lambda>sum.
     if sum < 0
     then and_then (c_add sum BASE) (\<lambda>sum. and_then (arr_store ds x sum) (\<lambda>ds. Inr (ds, 1)))
     else and_then (arr_store ds x sum) (\<lambda>ds. Inr (ds, 0)))))))"

text \<open>\<^verbatim>\<open>while (powers[adv] == 0) adv++\<close>\<close>

function skip_powers :: "int list \<Rightarrow> nat \<Rightarrow> fault + nat" where
  "skip_powers ps a =
     (if \<not> a < length ps then Inl Undefined_behaviour
      else if ps ! a = 0 then skip_powers ps (Suc a) else Inr a)"
  by pat_completeness auto
termination by (relation "measure (\<lambda>(ps, a). length ps - a)") auto

declare skip_powers.simps [simp del]

subsection \<open>A round, and the loop\<close>

text \<open>The result says whether \<^verbatim>\<open>NotZero\<close> is set at the end of the round.\<close>

definition arctan_round :: "nat \<Rightarrow> int \<Rightarrow> arc \<Rightarrow> fault + bool \<times> arc" where
  "arctan_round sz denom2 a =
     and_then (for_each (powers_step denom2) [adv a..<sz] (powers a, remain a)) (\<lambda>(ps, _).
     and_then (for_each (term_step ps (divisor a)) [adv a..<sz] (terms a, 0)) (\<lambda>(ts, _).
     and_then (for_each (if a_sign a > 0 then add_step ts else sub_step ts) (rev [0..<sz]) (a_pi a, 0)) (\<lambda>(ds, _).
     and_then (c_sub 0 (a_sign a)) (\<lambda>sg.
     and_then (c_add (divisor a) 2) (\<lambda>dv.
     let a' = a\<lparr>a_pi := ds, powers := ps, terms := ts, remain := 0, divisor := dv, a_sign := sg\<rparr>
     in if \<exists>x \<in> set [adv a..<sz]. ps ! x \<noteq> 0
        then and_then (skip_powers ps (adv a)) (\<lambda>k. Inr (True, a'\<lparr>adv := k\<rparr>))
        else Inr (False, a'))))))"

partial_function (option) arctan_loop :: "nat \<Rightarrow> int \<Rightarrow> arc \<Rightarrow> (fault + arc) option" where
  "arctan_loop sz denom2 a = (case arctan_round sz denom2 a of
     Inl f \<Rightarrow> Some (Inl f)
   | Inr (not_zero, a') \<Rightarrow> if not_zero then arctan_loop sz denom2 a' else Some (Inr a'))"

text \<open>\<^verbatim>\<open>arctan\<close>, on the arrays \<^verbatim>\<open>pi\<close>, \<^verbatim>\<open>powers\<close> and \<^verbatim>\<open>term\<close>.\<close>

definition c_arctan ::
  "nat \<Rightarrow> int \<Rightarrow> int \<Rightarrow> int \<Rightarrow> int list \<times> int list \<times> int list \<Rightarrow> (fault + int list \<times> int list \<times> int list) option" where
  "c_arctan sz multiplier denom sign s = (case s of (ds, ps, ts) \<Rightarrow>
     (case and_then (for_each (\<lambda>x ps. arr_store ps x 0) [0..<sz] ps) (\<lambda>ps.
           and_then (c_mul denom denom) (\<lambda>denom2.
           and_then (c_mul multiplier denom) (\<lambda>r.
           Inr (denom2, \<lparr>a_pi = ds, powers = ps, terms = ts, adv = 0, remain = r, divisor = 1, a_sign = sign\<rparr>)))) of
        Inl f \<Rightarrow> Some (Inl f)
      | Inr (denom2, a) \<Rightarrow> (case arctan_loop sz denom2 a of
          None \<Rightarrow> None
        | Some (Inl f) \<Rightarrow> Some (Inl f)
        | Some (Inr a) \<Rightarrow> Some (Inr (a_pi a, powers a, terms a)))))"

subsection \<open>Digits\<close>

fun num :: "int list \<Rightarrow> int" where
  "num [] = 0"
| "num (d # ds) = d * BASE ^ length ds + num ds"

definition digits :: "int list \<Rightarrow> bool" where
  "digits ds \<longleftrightarrow> (\<forall>d \<in> set ds. 0 \<le> d \<and> d < BASE)"

lemma BASE_simps [simp]: "0 < BASE" "0 \<le> BASE" "BASE \<noteq> 0" "1 < BASE"
  by (simp_all add: BASE_def)

lemma digits_simps [simp]: "digits []" "digits (d # ds) \<longleftrightarrow> 0 \<le> d \<and> d < BASE \<and> digits ds"
  "digits (ds @ es) \<longleftrightarrow> digits ds \<and> digits es"
  by (auto simp: digits_def)

lemma num_append: "num (ds @ es) = num ds * BASE ^ length es + num es"
  by (induction ds) (simp_all add: power_add algebra_simps)

lemma num_bounds: "digits ds \<Longrightarrow> 0 \<le> num ds \<and> num ds < BASE ^ length ds"
proof (induction ds)
  case (Cons d ds)
  then have "d * BASE ^ length ds + num ds < d * BASE ^ length ds + 1 * BASE ^ length ds" by simp
  also have "\<dots> = (d + 1) * BASE ^ length ds" by (simp only: distrib_right)
  also have "\<dots> \<le> BASE * BASE ^ length ds" using Cons.prems by (intro mult_right_mono) simp_all
  finally show ?case using Cons by simp
qed simp

lemma num_zero: "digits ds \<Longrightarrow> num ds = 0 \<longleftrightarrow> (\<forall>d \<in> set ds. d = 0)"
proof (induction ds)
  case (Cons d ds)
  have "0 \<le> d * BASE ^ length ds" "0 \<le> num ds" using Cons.prems num_bounds by simp_all
  then have "num (d # ds) = 0 \<longleftrightarrow> d = 0 \<and> num ds = 0"
    by (auto simp: add_nonneg_eq_0_iff)
  with Cons show ?case by auto
qed simp

lemma num_replicate_0 [simp]: "num (replicate n 0) = 0"
  by (induction n) simp_all

lemma num_zeros: "\<forall>d \<in> set ds. d = 0 \<Longrightarrow> num ds = 0"
  by (induction ds) simp_all

subsection \<open>Long division\<close>

fun quotients :: "int \<Rightarrow> int \<Rightarrow> int list \<Rightarrow> int list" where
  "quotients den r [] = []"
| "quotients den r (d # ds) = (d + r) div den # quotients den ((d + r) mod den * BASE) ds"

lemma length_quotients [simp]: "length (quotients den r ds) = length ds"
  by (induction ds arbitrary: r) simp_all

lemma num_quotients:
  assumes "0 < den"
  shows "num (quotients den r (d # ds)) = ((d + r) * BASE ^ length ds + num ds) div den"
proof (induction ds arbitrary: r d)
  case (Cons e ds)
  let ?t = "d + r" and ?L = "BASE ^ Suc (length ds)"
  have "num (quotients den r (d # e # ds)) =
      ?t div den * ?L + ((e + ?t mod den * BASE) * BASE ^ length ds + num ds) div den"
    using Cons.IH [of "?t mod den * BASE" e] by simp
  also have "(e + ?t mod den * BASE) * BASE ^ length ds = ?t mod den * ?L + e * BASE ^ length ds"
    by (simp add: algebra_simps)
  also have "?t div den * ?L + (?t mod den * ?L + e * BASE ^ length ds + num ds) div den =
      (?t div den * ?L * den + (?t mod den * ?L + e * BASE ^ length ds + num ds)) div den"
    using assms by (simp add: div_mult_self3 [symmetric] del: div_mult_self3)
  also have "?t div den * ?L * den + (?t mod den * ?L + e * BASE ^ length ds + num ds) =
      (?t div den * den + ?t mod den) * ?L + num (e # ds)"
    by (simp only: num.simps distrib_right distrib_left ac_simps)
  finally show ?case by simp
qed simp

lemma quotient_digit:
  assumes "0 < den" "0 \<le> t" "t < BASE * den"
  shows "0 \<le> t div den" "t div den < BASE" "0 \<le> t mod den * BASE" "t mod den * BASE \<le> BASE * (den - 1)"
proof -
  show "0 \<le> t div den" using assms pos_imp_zdiv_nonneg_iff by blast
  have "t div den * den \<le> t" using assms(1) div_mult_mod_eq [of t den] pos_mod_sign [of den t] by linarith
  then have "t div den * den < BASE * den" using assms(3) by linarith
  then show "t div den < BASE" using assms(1) by simp
  show "0 \<le> t mod den * BASE" using assms(1) pos_mod_sign [of den t] by (intro mult_nonneg_nonneg) simp_all
  have "t mod den \<le> den - 1" using assms(1) pos_mod_bound [of den t] by simp
  then show "t mod den * BASE \<le> BASE * (den - 1)" by (simp add: mult.commute)
qed

lemma digits_quotients:
  assumes "0 < den" "digits (d # ds)" "0 \<le> r" "d + r < BASE * den"
  shows "digits (quotients den r (d # ds))"
  using assms(2-)
proof (induction ds arbitrary: r d)
  case Nil
  then show ?case using assms(1) quotient_digit [of den "d + r"] by simp
next
  case (Cons e ds)
  note q = quotient_digit [OF assms(1), of "d + r"]
  have "e + (d + r) mod den * BASE < BASE * den"
    using Cons.prems q by (simp add: algebra_simps)
  with Cons.IH [of e "(d + r) mod den * BASE"] Cons.prems q show ?case by simp
qed

subsection \<open>The two division loops\<close>

lemma divide_body:
  assumes "0 < den" "BASE * den < 2 ^ 63" "0 \<le> d" "0 \<le> r" "d + r < BASE * den"
  shows "c_add d r = Inr (d + r)" "c_div (d + r) den = Inr ((d + r) div den)"
    "c_mul den ((d + r) div den) = Inr (den * ((d + r) div den))"
    "c_sub (d + r) (den * ((d + r) div den)) = Inr ((d + r) mod den)"
    "c_mul ((d + r) mod den) BASE = Inr ((d + r) mod den * BASE)"
proof -
  let ?t = "d + r"
  note q = quotient_digit [of den ?t]
  have t: "0 \<le> ?t" "?t < 2 ^ 63" using assms by simp_all
  have split: "?t - den * (?t div den) = ?t mod den" by (simp add: minus_mult_div_eq_mod)
  have m: "0 \<le> ?t mod den" "?t mod den \<le> ?t" "0 \<le> ?t div den"
    using assms(1) t zmod_le_nonneg_dividend [of ?t den] pos_imp_zdiv_nonneg_iff [of den ?t] by simp_all
  have "?t mod den * BASE \<le> BASE * den - BASE" using q(4) assms(1,5) t by (simp add: algebra_simps)
  then show "c_mul (?t mod den) BASE = Inr (?t mod den * BASE)"
    using q(3) assms(1,2,5) t(1) BASE_simps(1) unfolding c_mul_def by (intro checked_Inr) linarith+
  show "c_add d r = Inr ?t" using t by (simp add: c_add_def)
  show "c_div ?t den = Inr (?t div den)" using c_div_nonneg t assms(1) by simp
  have "0 \<le> den * (?t div den)" using assms(1) m(3) by simp
  moreover have "den * (?t div den) \<le> ?t" using split m(1) by linarith
  ultimately show "c_mul den (?t div den) = Inr (den * (?t div den))"
    unfolding c_mul_def using t by (intro checked_Inr) linarith+
  show "c_sub ?t (den * (?t div den)) = Inr (?t mod den)"
    unfolding c_sub_def split using t m by (intro checked_Inr) linarith+
qed

lemma upt_Cons: "length (d # ds) = sz - k \<Longrightarrow> [k..<sz] = k # [Suc k..<sz]"
  by (simp add: upt_conv_Cons)

lemma powers_loop:
  assumes "0 < den" "BASE * den < 2 ^ 63" "digits ds" "0 \<le> r"
    and "ds \<noteq> [] \<Longrightarrow> hd ds + r < BASE * den" "length ds = sz - length xs"
  shows "\<exists>r'. for_each (powers_step den) [length xs..<sz] (xs @ ds, r) = Inr (xs @ quotients den r ds, r')"
  using assms(3-)
proof (induction ds arbitrary: r xs)
  case (Cons d ds)
  let ?t = "d + r"
  have d: "0 \<le> d" "?t < BASE * den" using Cons.prems by simp_all
  note q = quotient_digit [OF assms(1) _ d(2)] and b = divide_body [OF assms(1,2) d(1) Cons.prems(2) d(2)]
  have step: "powers_step den (length xs) (xs @ d # ds, r) = Inr (xs @ ?t div den # ds, ?t mod den * BASE)"
    by (simp add: powers_step_def b)
  have "hd ds + ?t mod den * BASE < BASE * den" if "ds \<noteq> []"
  proof -
    have "hd ds < BASE" using Cons.prems(1) that by (cases ds) simp_all
    then show ?thesis using q(4) Cons.prems(2) d(1) by (simp add: algebra_simps)
  qed
  with Cons.IH [of "?t mod den * BASE" "xs @ [?t div den]"] Cons.prems q(3) d(1) step show ?case
    by (simp add: upt_Cons [of d ds])
qed simp

lemma drop_eq_Cons: "drop n xs = y # ys \<Longrightarrow> n < length xs \<and> xs ! n = y \<and> drop (Suc n) xs = ys"
  by (metis Cons_nth_drop_Suc drop_eq_Nil leI list.distinct(1) list.inject)

lemma term_loop:
  assumes "0 < den" "BASE * den < 2 ^ 63" "digits ds" "0 \<le> r"
    and "ds \<noteq> [] \<Longrightarrow> hd ds + r < BASE * den" "length ds = sz - length xs" "drop (length xs) ps = ds" "length ts = length ds"
  shows "\<exists>r'. for_each (term_step ps den) [length xs..<sz] (xs @ ts, r) = Inr (xs @ quotients den r ds, r')"
  using assms(3-)
proof (induction ds arbitrary: r xs ts)
  case (Cons d ds)
  let ?t = "d + r"
  obtain e es where ts: "ts = e # es" using Cons.prems(6) by (cases ts) simp_all
  have d: "0 \<le> d" "?t < BASE * den" using Cons.prems by simp_all
  note q = quotient_digit [OF assms(1) _ d(2)] and b = divide_body [OF assms(1,2) d(1) Cons.prems(2) d(2)]
  have ps: "arr_load ps (length xs) = Inr d" "drop (Suc (length xs)) ps = ds"
    using drop_eq_Cons [OF Cons.prems(5)] by simp_all
  have step: "term_step ps den (length xs) (xs @ ts, r) = Inr (xs @ ?t div den # es, ?t mod den * BASE)"
    by (simp add: term_step_def b ts ps)
  have "hd ds + ?t mod den * BASE < BASE * den" if "ds \<noteq> []"
  proof -
    have "hd ds < BASE" using Cons.prems(1) that by (cases ds) simp_all
    then show ?thesis using q(4) Cons.prems(2) d(1) by (simp add: algebra_simps)
  qed
  with Cons.IH [of "?t mod den * BASE" "xs @ [?t div den]" es] Cons.prems q(3) d(1) step ps(2) ts show ?case
    by (simp add: upt_Cons [of d ds])
qed simp

subsection \<open>Adding and subtracting the term\<close>

lemma take_Suc_snoc: "length xs = Suc k \<Longrightarrow> xs = take k xs @ [xs ! k]"
  by (metis lessI take_Suc_conv_app_nth take_all order_refl)

lemma num_snoc: "num (ds @ [d]) = num ds * BASE + d"
  by (simp add: num_append)

lemma add_loop:
  assumes "digits xs" "digits (take (length xs) ts)" "length xs \<le> length ts" "0 \<le> c" "c \<le> 1"
  shows "\<exists>zs c'. for_each (add_step ts) (rev [0..<length xs]) (xs @ ys, c) = Inr (zs @ ys, c') \<and>
    length zs = length xs \<and> digits zs \<and> num zs + c' * BASE ^ length xs = num xs + num (take (length xs) ts) + c"
  using assms
proof (induction xs arbitrary: ys c rule: rev_induct)
  case (snoc x xs)
  let ?k = "length xs"
  have t: "take (Suc ?k) ts = take ?k ts @ [ts ! ?k]" using snoc.prems(3) by (simp add: take_Suc_conv_app_nth)
  then have ds: "digits xs" "digits (take ?k ts)" "0 \<le> x" "x < BASE" "0 \<le> ts ! ?k" "ts ! ?k < BASE"
    using snoc.prems(1,2) by simp_all
  let ?v = "x + ts ! ?k + c"
  obtain z c2 where z: "add_step ts ?k ((xs @ [x]) @ ys, c) = Inr (xs @ z # ys, c2)" "0 \<le> c2" "c2 \<le> 1"
      "0 \<le> z" "z < BASE" "z + c2 * BASE = ?v"
    using ds snoc.prems(3-5) that [of "?v - BASE" 1] that [of ?v 0]
    by (cases "?v \<ge> BASE") (simp_all add: add_step_def c_add_def c_sub_def BASE_def)
  obtain zs c' where IH: "for_each (add_step ts) (rev [0..<?k]) (xs @ z # ys, c2) = Inr (zs @ z # ys, c')"
      "length zs = ?k" "digits zs" "num zs + c' * BASE ^ ?k = num xs + num (take ?k ts) + c2"
    using snoc.IH [OF ds(1,2) _ z(2,3), of "z # ys"] snoc.prems(3) by auto
  have "num (zs @ [z]) + c' * BASE ^ Suc ?k = (num zs + c' * BASE ^ ?k) * BASE + z"
    by (simp add: num_snoc algebra_simps)
  also have "\<dots> = (num xs + num (take ?k ts)) * BASE + (z + c2 * BASE)"
    unfolding IH(4) by (simp add: algebra_simps)
  also have "\<dots> = num (xs @ [x]) + num (take (Suc ?k) ts) + c"
    unfolding z(6) t num_snoc by (simp add: algebra_simps)
  finally have "num (zs @ [z]) + c' * BASE ^ Suc ?k = num (xs @ [x]) + num (take (Suc ?k) ts) + c" .
  moreover have "digits (zs @ [z])" using IH(3) z by simp
  moreover have "rev [0..<Suc ?k] = ?k # rev [0..<?k]" by simp
  ultimately show ?case using z(1) IH(1,2)
    by (intro exI [of _ "zs @ [z]"] exI [of _ c']) (simp del: upt_Suc)
qed simp

lemma sub_loop:
  assumes "digits xs" "digits (take (length xs) ts)" "length xs \<le> length ts" "0 \<le> c" "c \<le> 1"
  shows "\<exists>zs c'. for_each (sub_step ts) (rev [0..<length xs]) (xs @ ys, c) = Inr (zs @ ys, c') \<and>
    length zs = length xs \<and> digits zs \<and> num zs - c' * BASE ^ length xs = num xs - num (take (length xs) ts) - c"
  using assms
proof (induction xs arbitrary: ys c rule: rev_induct)
  case (snoc x xs)
  let ?k = "length xs"
  have t: "take (Suc ?k) ts = take ?k ts @ [ts ! ?k]" using snoc.prems(3) by (simp add: take_Suc_conv_app_nth)
  then have ds: "digits xs" "digits (take ?k ts)" "0 \<le> x" "x < BASE" "0 \<le> ts ! ?k" "ts ! ?k < BASE"
    using snoc.prems(1,2) by simp_all
  let ?v = "x - ts ! ?k - c"
  obtain z c2 where z: "sub_step ts ?k ((xs @ [x]) @ ys, c) = Inr (xs @ z # ys, c2)" "0 \<le> c2" "c2 \<le> 1"
      "0 \<le> z" "z < BASE" "z - c2 * BASE = ?v"
    using ds snoc.prems(3-5) that [of "?v + BASE" 1] that [of ?v 0]
    by (cases "?v < 0") (simp_all add: sub_step_def c_add_def c_sub_def BASE_def)
  obtain zs c' where IH: "for_each (sub_step ts) (rev [0..<?k]) (xs @ z # ys, c2) = Inr (zs @ z # ys, c')"
      "length zs = ?k" "digits zs" "num zs - c' * BASE ^ ?k = num xs - num (take ?k ts) - c2"
    using snoc.IH [OF ds(1,2) _ z(2,3), of "z # ys"] snoc.prems(3) by auto
  have "num (zs @ [z]) - c' * BASE ^ Suc ?k = (num zs - c' * BASE ^ ?k) * BASE + z"
    by (simp add: num_snoc algebra_simps)
  also have "\<dots> = (num xs - num (take ?k ts)) * BASE + (z - c2 * BASE)"
    unfolding IH(4) by (simp add: algebra_simps)
  also have "\<dots> = num (xs @ [x]) - num (take (Suc ?k) ts) - c"
    unfolding z(6) t num_snoc by (simp add: algebra_simps)
  finally have "num (zs @ [z]) - c' * BASE ^ Suc ?k = num (xs @ [x]) - num (take (Suc ?k) ts) - c" .
  moreover have "digits (zs @ [z])" using IH(3) z by simp
  moreover have "rev [0..<Suc ?k] = ?k # rev [0..<?k]" by simp
  ultimately show ?case using z(1) IH(1,2)
    by (intro exI [of _ "zs @ [z]"] exI [of _ c']) (simp del: upt_Suc)
qed simp

subsection \<open>One round\<close>

text \<open>
  \<open>arc_power W den k\<close> is the integer the array \<^verbatim>\<open>powers\<close> stands for after \<open>k\<close> rounds, where
  \<open>W = multiplier * denom * BASE ^ (size - 1)\<close>, and \<open>arc_sum W den k\<close> the alternating sum of the
  first \<open>k\<close> terms.
\<close>

definition arc_power :: "int \<Rightarrow> int \<Rightarrow> nat \<Rightarrow> int" where
  "arc_power W den k = W div den ^ k"

definition arc_term :: "int \<Rightarrow> int \<Rightarrow> nat \<Rightarrow> int" where
  "arc_term W den k = arc_power W den (Suc k) div (2 * int k + 1)"

definition arc_sum :: "int \<Rightarrow> int \<Rightarrow> nat \<Rightarrow> int" where
  "arc_sum W den k = (\<Sum>i<k. (- 1) ^ i * arc_term W den i)"

lemma skip_powers_finds:
  assumes "x \<in> set [k..<length ps]" "ps ! x \<noteq> 0"
  shows "\<exists>k'. skip_powers ps k = Inr k' \<and> k \<le> k' \<and> k' < length ps \<and> (\<forall>i. k \<le> i \<and> i < k' \<longrightarrow> ps ! i = 0)"
  using assms
proof (induction ps k rule: skip_powers.induct)
  case (1 ps a)
  show ?case
  proof (cases "ps ! a = 0")
    case True
    then have "x \<in> set [Suc a..<length ps]" using 1(2,3) le_antisym by fastforce
    with 1 True obtain k' where k': "skip_powers ps (Suc a) = Inr k'" "Suc a \<le> k'" "k' < length ps"
        "\<forall>i. Suc a \<le> i \<and> i < k' \<longrightarrow> ps ! i = 0" by force
    have "ps ! i = 0" if "a \<le> i" "i < k'" for i using k'(4) that True by (cases "i = a") simp_all
    then show ?thesis using k' True by (auto simp: skip_powers.simps [of ps a])
  next
    case False
    then show ?thesis using 1 by (simp add: skip_powers.simps [of ps a])
  qed
qed

lemma quotients_zeros:
  "\<forall>d \<in> set ds. d = 0 \<Longrightarrow> quotients den 0 (ds @ es) = ds @ quotients den 0 es"
  by (induction ds) simp_all

text \<open>The invariant of the loop at the start of round \<open>j\<close>.\<close>

definition arc_inv :: "nat \<Rightarrow> int \<Rightarrow> int \<Rightarrow> int \<Rightarrow> int \<Rightarrow> nat \<Rightarrow> arc \<Rightarrow> bool" where
  "arc_inv n W den sg p j a \<longleftrightarrow>
     length (a_pi a) = n \<and> length (powers a) = n \<and> length (terms a) = n \<and> digits (a_pi a) \<and> digits (powers a) \<and>
     adv a < n \<and> (\<forall>x < adv a. powers a ! x = 0 \<and> terms a ! x = 0) \<and> 0 \<le> remain a \<and>
     powers a ! adv a + remain a < BASE * den \<and>
     remain a * BASE ^ (n - Suc (adv a)) + num (powers a) = arc_power W den j \<and>
     divisor a = 2 * int j + 1 \<and> a_sign a = sg * (- 1) ^ j \<and>
     num (a_pi a) = (p + sg * arc_sum W den j) mod BASE ^ n"

lemma take_zeros: "\<forall>x < k. xs ! x = 0 \<Longrightarrow> k \<le> length xs \<Longrightarrow> \<forall>d \<in> set (take k xs). d = (0 :: int)"
  by (auto simp: in_set_conv_nth)

lemma powers_round:
  assumes "arc_inv n W den sg p j a" "0 < den" "BASE * den < 2 ^ 63"
  shows "\<exists>ps r. for_each (powers_step den) [adv a..<n] (powers a, remain a) = Inr (ps, r) \<and> length ps = n \<and>
    digits ps \<and> (\<forall>x < adv a. ps ! x = 0) \<and> num ps = arc_power W den (Suc j)"
proof -
  let ?xs = "take (adv a) (powers a)" and ?d = "powers a ! adv a" and ?ds = "drop (Suc (adv a)) (powers a)"
  note inv = assms(1) [unfolded arc_inv_def]
  have p: "powers a = ?xs @ ?d # ?ds" using inv id_take_nth_drop by metis
  have z: "\<forall>d \<in> set ?xs. d = 0" using inv by (intro take_zeros) simp_all
  have dg: "digits ?xs" "digits (?d # ?ds)" using inv p by (metis digits_simps(3))+
  have len: "length ?xs = adv a" "length ?ds = n - Suc (adv a)" using inv by simp_all
  have "adv a < n" using inv by blast
  then have l: "length (?d # ?ds) = n - length ?xs" unfolding list.size len by simp
  have "\<exists>r. for_each (powers_step den) [length ?xs..<n] (?xs @ ?d # ?ds, remain a) = Inr (?xs @ quotients den (remain a) (?d # ?ds), r)"
    by (rule powers_loop [OF assms(2,3) dg(2) _ _ l]) (use inv in simp_all)
  then obtain r where loop: "for_each (powers_step den) [adv a..<n] (powers a, remain a) = Inr (?xs @ quotients den (remain a) (?d # ?ds), r)"
    unfolding len(1) p [symmetric] by blast
  have q: "digits (quotients den (remain a) (?d # ?ds))"
    using digits_quotients [OF assms(2) dg(2)] inv by blast
  have "num (?xs @ quotients den (remain a) (?d # ?ds)) = num (quotients den (remain a) (?d # ?ds))"
    using num_zeros [OF z] by (simp add: num_append del: quotients.simps)
  also have "\<dots> = ((?d + remain a) * BASE ^ length ?ds + num ?ds) div den" by (rule num_quotients [OF assms(2)])
  also have "(?d + remain a) * BASE ^ length ?ds + num ?ds = remain a * BASE ^ (n - Suc (adv a)) + num (?xs @ ?d # ?ds)"
    using num_zeros [OF z] len by (simp add: num_append algebra_simps)
  also have "\<dots> = arc_power W den j" using inv p by metis
  also have "arc_power W den j div den = arc_power W den (Suc j)"
    using assms(2) zdiv_zmult2_eq [of den W "den ^ j"] by (simp add: arc_power_def mult.commute)
  finally have v: "num (?xs @ quotients den (remain a) (?d # ?ds)) = arc_power W den (Suc j)" .
  have "(?xs @ quotients den (remain a) (?d # ?ds)) ! x = 0" if "x < adv a" for x
    using that inv len by (simp add: nth_append del: quotients.simps)
  moreover have "length (?xs @ quotients den (remain a) (?d # ?ds)) = n" using inv by simp
  ultimately show ?thesis using loop v q dg(1) by (metis digits_simps(3))
qed

lemma digit_below: "0 < dv \<Longrightarrow> d < BASE \<Longrightarrow> d < BASE * dv"
  using mult_left_mono [of 1 dv BASE] less_le_trans [of d BASE "BASE * dv"] by simp

lemma terms_round:
  assumes "length ps = n" "length ts = n" "digits ps" "k < n" "\<forall>x < k. ps ! x = 0 \<and> ts ! x = 0"
    and "0 < dv" "BASE * dv < 2 ^ 63"
  shows "\<exists>ts' r. for_each (term_step ps dv) [k..<n] (ts, 0) = Inr (ts', r) \<and> length ts' = n \<and> digits ts' \<and>
    num ts' = num ps div dv \<and> (\<forall>k'. (\<forall>x < k'. ps ! x = 0) \<longrightarrow> (\<forall>x < k'. x < n \<longrightarrow> ts' ! x = 0))"
proof -
  let ?ts = "quotients dv 0 ps"
  obtain d ds where ps: "drop k ps = d # ds" using assms(1,4) by (cases "drop k ps") simp_all
  have z: "\<forall>d \<in> set (take k ps). d = 0" using assms by (intro take_zeros) simp_all
  have same: "take k ts = take k ps" using assms(1,2,4,5) by (intro nth_equalityI) simp_all
  have ts: "take k ps @ drop k ts = ts" using same by (metis append_take_drop_id)
  have "?ts = take k ps @ quotients dv 0 (drop k ps)"
    using quotients_zeros [OF z, of dv "drop k ps"] by simp
  moreover have "digits (drop k ps)" using assms(3) by (metis append_take_drop_id digits_simps(3))
  moreover from this have "hd (drop k ps) + 0 < BASE * dv"
    using digit_below [OF assms(6)] by (simp add: ps)
  ultimately obtain r where loop: "for_each (term_step ps dv) [k..<n] (ts, 0) = Inr (?ts, r)"
    using term_loop [OF assms(6,7), of "drop k ps" 0 n "take k ts" ps "drop k ts"] assms(1,2,4) same ts by auto
  obtain e es where e: "ps = e # es" using assms(1,4) by (cases ps) simp_all
  then have "e + 0 < BASE * dv" using assms(3) digit_below [OF assms(6)] by simp
  then have "digits ?ts" using digits_quotients [OF assms(6), of e es 0] assms(3) e by simp
  moreover have "num ?ts = num ps div dv" using num_quotients [OF assms(6), of 0 e es] e by simp
  moreover have "?ts ! x = 0" if zs: "\<forall>x < k'. ps ! x = 0" "x < k'" "x < n" for x k'
  proof -
    have y: "\<forall>d \<in> set (take (Suc x) ps). d = 0" using zs assms(1) by (intro take_zeros) simp_all
    have "?ts ! x = take (Suc x) ps ! x"
      using quotients_zeros [OF y, of dv "drop (Suc x) ps"] zs(3) assms(1) by (simp add: nth_append)
    then show ?thesis using zs by simp
  qed
  ultimately show ?thesis using loop assms(1) by (intro exI [of _ ?ts]) auto
qed

lemma arc_sum_Suc: "arc_sum W den (Suc k) = arc_sum W den k + (- 1) ^ k * arc_term W den k"
  by (simp add: arc_sum_def)

text \<open>The signed addition of the term.\<close>

lemma pi_round:
  assumes "digits ds" "digits ts" "length ds = n" "length ts = n" "sg = 1 \<or> sg = - 1"
  shows "\<exists>ds' c. for_each (if sg > 0 then add_step ts else sub_step ts) (rev [0..<n]) (ds, 0) = Inr (ds', c) \<and>
    length ds' = n \<and> digits ds' \<and> num ds' = (num ds + sg * num ts) mod BASE ^ n"
proof -
  have fits: "num zs = v mod BASE ^ n" if "digits zs" "length zs = n" "num zs + k * BASE ^ n = v" for zs k v
  proof -
    have "v mod BASE ^ n = num zs mod BASE ^ n" using that(3) [symmetric] by simp
    then show ?thesis using num_bounds [OF that(1)] that(2) by (simp add: mod_pos_pos_trivial)
  qed
  show ?thesis
  proof (cases "sg = 1")
    case True
    obtain zs c where z: "for_each (add_step ts) (rev [0..<length ds]) (ds @ [], 0) = Inr (zs @ [], c)" "length zs = length ds"
        "digits zs" "num zs + c * BASE ^ length ds = num ds + num (take (length ds) ts) + 0"
      using add_loop [OF assms(1), of ts 0 "[]"] assms by auto
    have "num zs = (num ds + num ts) mod BASE ^ n"
      by (rule fits [of zs c]) (use z assms(3,4) in simp_all)
    then show ?thesis using z True assms(3) by auto
  next
    case False
    obtain zs c where z: "for_each (sub_step ts) (rev [0..<length ds]) (ds @ [], 0) = Inr (zs @ [], c)" "length zs = length ds"
        "digits zs" "num zs - c * BASE ^ length ds = num ds - num (take (length ds) ts) - 0"
      using sub_loop [OF assms(1), of ts 0 "[]"] assms by auto
    have "num zs = (num ds - num ts) mod BASE ^ n"
      by (rule fits [of zs "- c"]) (use z assms(3,4) in simp_all)
    then show ?thesis using z False assms(3,5) by auto
  qed
qed

lemma arctan_round_inv:
  assumes inv: "arc_inv n W den sg p j a" and "0 < den" "BASE * den < 2 ^ 63" "sg = 1 \<or> sg = - 1" "j < 2 ^ 50"
  shows "\<exists>a'. arctan_round n den a = Inr (arc_power W den (Suc j) \<noteq> 0, a') \<and> arc_inv n W den sg p (Suc j) a'"
proof -
  have i: "length (a_pi a) = n" "length (powers a) = n" "length (terms a) = n" "digits (a_pi a)" "adv a < n"
      "\<forall>x < adv a. terms a ! x = 0" "divisor a = 2 * int j + 1" "a_sign a = sg * (- 1) ^ j"
      "num (a_pi a) = (p + sg * arc_sum W den j) mod BASE ^ n"
    using inv unfolding arc_inv_def by blast+
  obtain ps r1 where ps: "for_each (powers_step den) [adv a..<n] (powers a, remain a) = Inr (ps, r1)" "length ps = n"
      "digits ps" "\<forall>x < adv a. ps ! x = 0" "num ps = arc_power W den (Suc j)"
    using powers_round [OF inv assms(2,3)] by blast
  have jb: "int j < 2 ^ 50" using assms(5) by (metis of_nat_less_iff of_nat_numeral of_nat_power)
  have dv: "0 < divisor a" "BASE * divisor a < 2 ^ 63" unfolding i(7) BASE_def using jb by simp_all
  have z: "\<forall>x < adv a. ps ! x = 0 \<and> terms a ! x = 0" using ps(4) i(6) by simp
  obtain ts r2 where ts: "for_each (term_step ps (divisor a)) [adv a..<n] (terms a, 0) = Inr (ts, r2)" "length ts = n"
      "digits ts" "num ts = num ps div divisor a" "\<forall>k'. (\<forall>x < k'. ps ! x = 0) \<longrightarrow> (\<forall>x < k'. x < n \<longrightarrow> ts ! x = 0)"
    using terms_round [OF ps(2) i(3) ps(3) i(5) z dv] by (elim exE conjE) (rule that)
  have sg: "a_sign a = 1 \<or> a_sign a = - 1" using i(8) assms(4) by (cases "even j") auto
  obtain ds c where ds: "for_each (if a_sign a > 0 then add_step ts else sub_step ts) (rev [0..<n]) (a_pi a, 0) = Inr (ds, c)"
      "length ds = n" "digits ds" "num ds = (num (a_pi a) + a_sign a * num ts) mod BASE ^ n"
    using pi_round [OF i(4) ts(3) i(1) ts(2) sg] by blast
  have "num ds = ((p + sg * arc_sum W den j) + a_sign a * num ts) mod BASE ^ n"
    unfolding ds(4) i(9) by (rule mod_add_left_eq)
  also have "(p + sg * arc_sum W den j) + a_sign a * num ts = p + sg * arc_sum W den (Suc j)"
    unfolding ts(4) ps(5) i(7,8) arc_sum_Suc arc_term_def by (simp add: algebra_simps)
  finally have sum: "num ds = (p + sg * arc_sum W den (Suc j)) mod BASE ^ n" .
  have s: "c_sub 0 (a_sign a) = Inr (- a_sign a)" "c_add (divisor a) 2 = Inr (divisor a + 2)"
    using sg dv(1) jb unfolding i(7) by (auto simp: c_sub_def c_add_def)
  define a' where "a' = a\<lparr>a_pi := ds, powers := ps, terms := ts, remain := 0, divisor := divisor a + 2, a_sign := - a_sign a\<rparr>"
  have keeps: "arc_inv n W den sg p (Suc j) (a'\<lparr>adv := k\<rparr>)" if "k < n" "\<forall>x < k. ps ! x = 0" for k
  proof -
    have "0 \<le> ps ! k \<and> ps ! k < BASE" using ps(2,3) that(1) by (simp add: digits_def)
    then have "ps ! k < BASE * den" using digit_below [OF assms(2)] by simp
    then show ?thesis using that ps ts ds sum i assms(4) by (simp add: arc_inv_def a'_def)
  qed
  let ?more = "\<exists>x \<in> set [adv a..<n]. ps ! x \<noteq> 0"
  have run: "arctan_round n den a = (if ?more then and_then (skip_powers ps (adv a)) (\<lambda>k. Inr (True, a'\<lparr>adv := k\<rparr>)) else Inr (False, a'))"
    unfolding arctan_round_def by (simp add: ps(1) ts(1) ds(1) s a'_def Let_def)
  have more: "?more \<longleftrightarrow> arc_power W den (Suc j) \<noteq> 0"
  proof -
    have "arc_power W den (Suc j) \<noteq> 0 \<longleftrightarrow> (\<exists>x < n. ps ! x \<noteq> 0)"
      using num_zero [OF ps(3)] ps(2,5) by (metis in_set_conv_nth)
    then show ?thesis using ps(4) by (metis atLeastLessThan_iff not_less set_upt)
  qed
  show ?thesis
  proof (cases ?more)
    case True
    then obtain k where k: "skip_powers ps (adv a) = Inr k" "k < n" "\<forall>x. adv a \<le> x \<and> x < k \<longrightarrow> ps ! x = 0"
      using skip_powers_finds [of _ "adv a" ps] ps(2) by blast
    then have "\<forall>x < k. ps ! x = 0" using ps(4) by (metis not_less)
    then show ?thesis using run more keeps [OF k(2)] k(1) True by simp
  next
    case False
    have "arc_inv n W den sg p (Suc j) a'" using keeps [OF i(5) ps(4)] by (simp add: a'_def)
    then show ?thesis using run more False by simp
  qed
qed

subsection \<open>The loop and the function\<close>

lemma arctan_loop_inv:
  assumes "arc_inv n W den sg p j a" "0 < den" "BASE * den < 2 ^ 63" "sg = 1 \<or> sg = - 1"
    and "j < R" "R \<le> 2 ^ 50" "arc_power W den R = 0" "\<forall>k. j < k \<and> k < R \<longrightarrow> arc_power W den k \<noteq> 0"
  shows "\<exists>a'. arctan_loop n den a = Some (Inr a') \<and> arc_inv n W den sg p R a'"
  using assms(1,5,8)
proof (induction "R - j" arbitrary: j a)
  case (Suc m)
  obtain a1 where a1: "arctan_round n den a = Inr (arc_power W den (Suc j) \<noteq> 0, a1)" "arc_inv n W den sg p (Suc j) a1"
    using arctan_round_inv [OF Suc.prems(1) assms(2-4)] Suc.prems(2) assms(6) by (meson less_le_trans)
  show ?case
  proof (cases "Suc j = R")
    case True
    then show ?thesis using a1 assms(7) by (auto simp: arctan_loop.simps [of n den a])
  next
    case False
    then have "m = R - Suc j" "Suc j < R" "arc_power W den (Suc j) \<noteq> 0" using Suc.hyps(2) Suc.prems(2,3) by auto
    moreover from this obtain a' where "arctan_loop n den a1 = Some (Inr a')" "arc_inv n W den sg p R a'"
      using Suc.hyps(1) [OF _ a1(2)] Suc.prems(3) by auto
    ultimately show ?thesis using a1 by (simp add: arctan_loop.simps [of n den a])
  qed
qed simp

text \<open>The number of rounds: the first after which the power is zero.\<close>

definition arc_rounds :: "int \<Rightarrow> int \<Rightarrow> nat" where
  "arc_rounds W den = (LEAST k. 0 < k \<and> arc_power W den k = 0)"

lemma arc_power_zero:
  assumes "1 < den" "0 \<le> W" "W < 2 ^ k"
  shows "arc_power W den k = 0"
proof -
  have "2 ^ k \<le> den ^ k" using assms(1) by (intro power_mono) simp_all
  then show ?thesis using assms(2,3) by (simp add: arc_power_def)
qed

lemma arc_rounds:
  assumes "1 < den" "0 \<le> W" "W < 2 ^ k" "0 < k"
  shows "0 < arc_rounds W den" "arc_power W den (arc_rounds W den) = 0" "arc_rounds W den \<le> k"
    "0 < i \<Longrightarrow> i < arc_rounds W den \<Longrightarrow> arc_power W den i \<noteq> 0"
proof -
  have ex: "0 < k \<and> arc_power W den k = 0" using arc_power_zero [OF assms(1-3)] assms(4) by simp
  from LeastI [where P = "\<lambda>k. 0 < k \<and> arc_power W den k = 0", OF ex]
  show "0 < arc_rounds W den" "arc_power W den (arc_rounds W den) = 0" by (simp_all add: arc_rounds_def)
  show "arc_rounds W den \<le> k" unfolding arc_rounds_def by (rule Least_le) (rule ex)
  show "0 < i \<Longrightarrow> i < arc_rounds W den \<Longrightarrow> arc_power W den i \<noteq> 0"
    using not_less_Least [of i "\<lambda>k. 0 < k \<and> arc_power W den k = 0"] by (auto simp: arc_rounds_def)
qed

lemma clear_loop: "for_each (\<lambda>x ps. arr_store ps x 0) [length xs..<length xs + length ps] (xs @ ps) = Inr (xs @ replicate (length ps) (0 :: int))"
proof (induction ps arbitrary: xs)
  case (Cons p ps)
  from Cons.IH [of "xs @ [0]"] show ?case by (simp add: upt_conv_Cons del: upt_Suc)
qed simp

lemma power_100_bound: "BASE ^ n \<le> 2 ^ (7 * n)"
proof -
  have "BASE ^ n \<le> (2 ^ 7) ^ n" by (intro power_mono) (simp_all add: BASE_def)
  then show ?thesis by (simp add: power_mult)
qed

lemma c_arctan_result:
  assumes "length ds = n" "length ps = n" "length ts = n" "digits ds" "0 < n" "n \<le> 2 ^ 40"
    and "1 < d" "BASE * (d * d) < 2 ^ 63" "0 < m" "m < BASE * d" "sg = 1 \<or> sg = - 1"
  defines "W \<equiv> m * d * BASE ^ (n - 1)"
  shows "\<exists>ds' ps' ts'. c_arctan n m d sg (ds, ps, ts) = Some (Inr (ds', ps', ts')) \<and>
    length ds' = n \<and> length ps' = n \<and> length ts' = n \<and> digits ds' \<and>
    num ds' = (num ds + sg * arc_sum W (d * d) (arc_rounds W (d * d))) mod BASE ^ n"
proof -
  let ?den = "d * d" and ?R = "arc_rounds W (d * d)"
  have den: "1 < ?den" using assms(7) less_1_mult by blast
  have md: "0 < m * d" "m * d < BASE * ?den" using assms(7,9,10) by simp_all
  have small: "BASE * ?den < 2 ^ 63" "?den < 2 ^ 63" "m * d < 2 ^ 63"
    using assms(8) md den by (simp_all add: BASE_def)
  have "W < 2 ^ 63 * BASE ^ (n - 1)" unfolding W_def using small(3) by (intro mult_strict_right_mono) simp_all
  also have "\<dots> \<le> 2 ^ 63 * 2 ^ (7 * (n - 1))" by (intro mult_left_mono power_100_bound) simp
  finally have W: "0 \<le> W" "W < 2 ^ (63 + 7 * (n - 1))" using md by (simp_all add: W_def power_add)
  note R = arc_rounds [OF den W, simplified]
  have R50: "?R \<le> 2 ^ 50" using R(3) assms(6) by simp
  let ?a = "\<lparr>a_pi = ds, powers = replicate n 0, terms = ts, adv = 0, remain = m * d, divisor = 1, a_sign = sg\<rparr>"
  have "replicate n (0 :: int) ! 0 = 0" using assms(5) by simp
  then have inv: "arc_inv n W ?den sg (num ds) 0 ?a"
    using assms(1,3-5) md num_bounds [OF assms(4)]
    by (simp add: arc_inv_def arc_power_def arc_sum_def W_def digits_def)
  obtain a where a: "arctan_loop n ?den ?a = Some (Inr a)" "arc_inv n W ?den sg (num ds) ?R a"
    using arctan_loop_inv [OF inv _ small(1) assms(11) R(1) R50 R(2)] R(4) den by auto
  have "for_each (\<lambda>x ps. arr_store ps x 0) [0..<n] ps = Inr (replicate n 0)"
    using clear_loop [of "[]" ps] assms(2) by simp
  moreover have "c_mul d d = Inr ?den" "c_mul m d = Inr (m * d)"
    using small md den by (simp_all add: c_mul_def)
  ultimately have "c_arctan n m d sg (ds, ps, ts) = Some (Inr (a_pi a, powers a, terms a))"
    by (simp add: c_arctan_def a(1))
  with a(2) show ?thesis by (auto simp: arc_inv_def)
qed

text \<open>C14: \<^verbatim>\<open>arctan\<close> always returns, never overflows a \<^verbatim>\<open>long long\<close> and never leaves its arrays, and it
  has then added to the number in \<^verbatim>\<open>pi\<close>, modulo its size, the alternating sum of the truncated terms of
  the series, up to the first power that is zero: the \<open>k\<close>-th is \<open>floor (floor (m d 100^(size-1) / d^(2k+2)) / (2k+1))\<close>.\<close>

theorem arctan_adds_series:
  assumes "length ds = n" "length ps = n" "length ts = n" "digits ds" "0 < n" "n \<le> 2 ^ 40"
    and "1 < d" "BASE * (d * d) < 2 ^ 63" "0 < m" "m < BASE * d" "sg = 1 \<or> sg = - 1"
  defines "W \<equiv> m * d * BASE ^ (n - 1)"
  shows "\<exists>ds' ps' ts'. c_arctan n m d sg (ds, ps, ts) = Some (Inr (ds', ps', ts')) \<and>
    length ds' = n \<and> length ps' = n \<and> length ts' = n \<and> digits ds' \<and>
    num ds' = (num ds + sg * arc_sum W (d * d) (arc_rounds W (d * d))) mod BASE ^ n"
  unfolding W_def by (rule c_arctan_result [OF assms(1-11)])

theorem arctan_adds_series_witness:
  "\<exists>ds ps ts. c_arctan 3 16 5 1 ([0, 0, 0], [7, - 1, 9], [7, 7, 7]) = Some (Inr (ds, ps, ts)) \<and>
     num ds = arc_sum 800000 25 (arc_rounds 800000 25) mod 1000000"
  using arctan_adds_series [of "[0, 0, 0]" 3 "[7, - 1, 9]" "[7, 7, 7]" 5 16 1]
  by (auto simp: BASE_def)

end
