(* ===== verification/PiSeries.thy ===== *)
theory PiSeries
  imports Arctan Complex_Main
begin

text \<open>
  What the numbers of \<^verbatim>\<open>prog2.c\<close> have to do with the real number: the truncated series of
  \<open>arctan\<close> against the function, and Machin's formula, which the program uses by default.
\<close>

subsection \<open>The truncated series\<close>

lemma alternating_tail:
  fixes a :: "nat \<Rightarrow> real"
  assumes "a \<longlonglongrightarrow> 0" "\<And>k. 0 \<le> a k" "\<And>k. a (Suc k) \<le> a k"
  shows "\<bar>(\<Sum>k. (- 1) ^ k * a k) - (\<Sum>k<n. (- 1) ^ k * a k)\<bar> \<le> a n"
proof -
  note l = summable_Leibniz' [OF assms]
  let ?s = "\<lambda>n. \<Sum>k<n. (- 1) ^ k * a k"
  show ?thesis
  proof (cases "even n")
    case True
    then obtain m where n: "n = 2 * m" by blast
    have "?s (2 * m) \<le> suminf (\<lambda>k. (- 1) ^ k * a k)" "suminf (\<lambda>k. (- 1) ^ k * a k) \<le> ?s (2 * m + 1)"
      using l(2,4) by simp_all
    then show ?thesis using n by simp
  next
    case False
    then obtain m where n: "n = 2 * m + 1" by (metis oddE)
    have "suminf (\<lambda>k. (- 1) ^ k * a k) \<le> ?s (2 * m + 1)" "?s (2 * (m + 1)) \<le> suminf (\<lambda>k. (- 1) ^ k * a k)"
      using l(2) [of "m + 1"] l(4) [of m] by simp_all
    then show ?thesis using n by simp
  qed
qed

lemma arctan_tail:
  assumes "1 < (d :: int)"
  shows "\<bar>arctan (1 / d) - (\<Sum>k<n. (- 1) ^ k * (1 / (real (2 * k + 1) * real_of_int d ^ (2 * k + 1))))\<bar> \<le>
    1 / (real (2 * n + 1) * real_of_int d ^ (2 * n + 1))"
proof -
  let ?a = "\<lambda>k. 1 / (real (2 * k + 1) * real_of_int d ^ (2 * k + 1))"
  have d: "1 < real_of_int d" using assms by simp
  have eq: "1 / real (k * 2 + 1) * (1 / real_of_int d) ^ (k * 2 + 1) = ?a k" for k
    by (simp add: power_one_over mult.commute)
  have x: "\<bar>1 / real_of_int d\<bar> \<le> 1" using d by simp
  have "?a \<longlonglongrightarrow> 0" using zeroseq_arctan_series [OF x] unfolding eq .
  moreover have "?a (Suc k) \<le> ?a k" for k
    using d by (intro divide_left_mono mult_mono power_increasing mult_pos_pos) simp_all
  moreover have "arctan (1 / d) = (\<Sum>k. (- 1) ^ k * ?a k)" using arctan_series [OF x] unfolding eq .
  ultimately show ?thesis using alternating_tail [of ?a n] d by simp
qed

lemma truncated:
  assumes "0 < (b :: int)"
  shows "\<bar>real_of_int (a div b) - real_of_int a / real_of_int b\<bar> \<le> 1"
  using real_of_int_div2 [of a b] real_of_int_div3 [of a b] by linarith

lemma scaled: "\<bar>c * s - c * x\<bar> = c * \<bar>x - s\<bar>" if "0 < c" for c s x :: real
  by (metis abs_minus_commute abs_mult abs_of_pos right_diff_distrib' that)

lemma arc_sum_error:
  fixes d m B :: int
  assumes "1 < d" "0 < m" "0 < B" and "arc_power (m * d * B) (d * d) R = 0"
  shows "\<bar>real_of_int (arc_sum (m * d * B) (d * d) R) - m * B * arctan (1 / d)\<bar> < R + 1"
proof -
  let ?W = "m * d * B" and ?a = "\<lambda>k. 1 / (real (2 * k + 1) * real_of_int d ^ (2 * k + 1))"
  have d: "1 < real_of_int d" and mB: "0 < real_of_int (m * B)" using assms by simp_all
  have "?W div (d * d) ^ Suc k div (2 * int k + 1) = ?W div ((d * d) ^ Suc k * (2 * int k + 1))" for k
    by (rule zdiv_zmult2_eq [symmetric]) simp
  then have "arc_term ?W (d * d) k = ?W div ((d * d) ^ Suc k * (2 * int k + 1))" for k
    by (simp only: arc_term_def arc_power_def)
  moreover have "real_of_int ?W / real_of_int ((d * d) ^ Suc k * (2 * int k + 1)) = m * B * ?a k" for k
  proof -
    have "real_of_int ((d * d) ^ Suc k * (2 * int k + 1)) = real_of_int d * (real (2 * k + 1) * real_of_int d ^ (2 * k + 1))"
      by (simp add: power_mult power2_eq_square)
    then show ?thesis using d by simp
  qed
  moreover have "0 < (d * d) ^ Suc k * (2 * int k + 1)" for k using assms(1) by simp
  ultimately have t: "\<bar>real_of_int (arc_term ?W (d * d) k) - m * B * ?a k\<bar> \<le> 1" for k
    using truncated by metis
  have "\<bar>real_of_int (arc_sum ?W (d * d) R) - m * B * (\<Sum>k<R. (- 1) ^ k * ?a k)\<bar> =
      \<bar>\<Sum>k<R. (- 1) ^ k * (real_of_int (arc_term ?W (d * d) k) - m * B * ?a k)\<bar>"
    by (simp add: arc_sum_def sum_distrib_left sum_subtractf algebra_simps)
  also have "\<dots> \<le> (\<Sum>k<R. \<bar>(- 1) ^ k * (real_of_int (arc_term ?W (d * d) k) - m * B * ?a k)\<bar>)"
    by (rule sum_abs)
  also have "\<dots> \<le> (\<Sum>k<R. 1)" using t by (intro sum_mono) (simp add: abs_mult power_abs)
  finally have s: "\<bar>real_of_int (arc_sum ?W (d * d) R) - m * B * (\<Sum>k<R. (- 1) ^ k * ?a k)\<bar> \<le> R" by simp
  have "m * B * \<bar>arctan (1 / d) - (\<Sum>k<R. (- 1) ^ k * ?a k)\<bar> \<le> m * B * ?a R"
    using arctan_tail [OF assms(1), of R] mB by (intro mult_left_mono) simp_all
  also have "\<dots> < 1"
  proof -
    have "?W < (d * d) ^ R"
      using assms by (simp add: arc_power_def zdiv_eq_0_iff) (smt (verit) mult_pos_pos)
    then have "real_of_int ?W < real_of_int ((d * d) ^ R)" by (simp only: of_int_less_iff)
    then have "m * B * real_of_int d < real_of_int d ^ (2 * R)" by (simp add: power_mult power2_eq_square power_mult_distrib mult_ac)
    moreover have "real_of_int (m * B) * 1 \<le> real_of_int (m * B) * real_of_int d" using d mB by (intro mult_left_mono) simp_all
    moreover have "real_of_int d ^ (2 * R) \<le> real (2 * R + 1) * real_of_int d ^ (2 * R + 1)"
    proof -
      have "1 * real_of_int d ^ (2 * R) \<le> real (2 * R + 1) * real_of_int d ^ (2 * R + 1)"
        using d by (intro mult_mono power_increasing) simp_all
      then show ?thesis by simp
    qed
    ultimately have "m * B < real (2 * R + 1) * real_of_int d ^ (2 * R + 1)" by simp
    then show ?thesis using d by (simp add: divide_less_eq)
  qed
  finally have "\<bar>m * B * (\<Sum>k<R. (- 1) ^ k * ?a k) - m * B * arctan (1 / d)\<bar> < 1"
    by (simp only: scaled [OF mB])
  with s show ?thesis by linarith
qed

subsection \<open>Machin's formula\<close>

definition machin_sum :: "nat \<Rightarrow> nat \<Rightarrow> nat \<Rightarrow> int" where
  "machin_sum n r1 r2 = arc_sum (16 * 5 * BASE ^ (n - 1)) (5 * 5) r1 - arc_sum (4 * 239 * BASE ^ (n - 1)) (239 * 239) r2"

lemma machin_error:
  assumes "arc_power (16 * 5 * BASE ^ (n - 1)) (5 * 5) r1 = 0" "arc_power (4 * 239 * BASE ^ (n - 1)) (239 * 239) r2 = 0"
  shows "\<bar>real_of_int (machin_sum n r1 r2) - pi * BASE ^ (n - 1)\<bar> < r1 + r2 + 2"
proof -
  let ?B = "BASE ^ (n - 1)"
  have "pi = 16 * arctan (1 / 5) - 4 * arctan (1 / 239)" using machin by simp
  then have "pi * ?B = (16 * arctan (1 / 5) - 4 * arctan (1 / 239)) * ?B" by simp
  then have "pi * ?B = 16 * ?B * arctan (1 / 5) - 4 * ?B * arctan (1 / 239)" by (simp add: algebra_simps)
  moreover have "\<bar>real_of_int (arc_sum (16 * 5 * ?B) (5 * 5) r1) - 16 * ?B * arctan (1 / 5)\<bar> < r1 + 1"
    using arc_sum_error [OF _ _ _ assms(1)] by simp
  moreover have "\<bar>real_of_int (arc_sum (4 * 239 * ?B) (239 * 239) r2) - 4 * ?B * arctan (1 / 239)\<bar> < r2 + 1"
    using arc_sum_error [OF _ _ _ assms(2)] by simp
  ultimately show ?thesis unfolding machin_sum_def of_int_diff by linarith
qed

lemma pi_bounds: "3.1 < pi" "pi < 3.2"
proof -
  have "arc_power (16 * 5 * BASE ^ (3 - 1)) (5 * 5) 6 = 0" "arc_power (4 * 239 * BASE ^ (3 - 1)) (239 * 239) 3 = 0"
    by (simp_all add: arc_power_def BASE_def)
  from machin_error [OF this] have "\<bar>real_of_int (machin_sum 3 6 3) - pi * 10000\<bar> < 11" by (simp add: BASE_def)
  moreover have "machin_sum 3 6 3 = 31417"
    by (simp add: machin_sum_def arc_sum_def lessThan_nat_numeral lessThan_Suc)
      (simp add: arc_term_def arc_power_def BASE_def)
  ultimately show "3.1 < pi" "pi < 3.2" by (simp_all add: abs_if split: if_splits)
qed

subsection \<open>The number of rounds\<close>

lemma machin_rounds:
  assumes "0 < n"
  shows "arc_rounds (16 * 5 * BASE ^ (n - 1)) (5 * 5) \<le> 2 * n" "arc_rounds (4 * 239 * BASE ^ (n - 1)) (239 * 239) \<le> n"
    "arc_power (16 * 5 * BASE ^ (n - 1)) (5 * 5) (arc_rounds (16 * 5 * BASE ^ (n - 1)) (5 * 5)) = 0"
    "arc_power (4 * 239 * BASE ^ (n - 1)) (239 * 239) (arc_rounds (4 * 239 * BASE ^ (n - 1)) (239 * 239)) = 0"
proof -
  obtain k where n: "n = Suc k" using assms by (cases n) simp_all
  have le: "BASE ^ k \<le> 625 ^ k" "BASE ^ k \<le> 57121 ^ k" by (intro power_mono; simp add: BASE_def)+
  have z: "arc_power (16 * 5 * BASE ^ (n - 1)) (5 * 5) (2 * n) = 0" "arc_power (4 * 239 * BASE ^ (n - 1)) (239 * 239) n = 0"
  proof -
    have p: "0 \<le> BASE ^ k" "(5 * 5 :: int) ^ (2 * n) = 625 * 625 ^ k" "(239 * 239 :: int) ^ n = 57121 * 57121 ^ k"
      by (simp_all add: n power_mult)
    have "16 * 5 * BASE ^ k < 625 * 625 ^ k" "4 * 239 * BASE ^ k < 57121 * 57121 ^ k"
      using le zero_less_power [of "625 :: int" k] zero_less_power [of "57121 :: int" k] by linarith+
    then show "arc_power (16 * 5 * BASE ^ (n - 1)) (5 * 5) (2 * n) = 0" "arc_power (4 * 239 * BASE ^ (n - 1)) (239 * 239) n = 0"
      unfolding arc_power_def p(2,3) using p(1) by (simp_all only: n diff_Suc_1 div_pos_pos_trivial mult_nonneg_nonneg zero_le_numeral)
  qed
  have l: "(LEAST k. 0 < k \<and> arc_power W den k = 0) \<le> r \<and> arc_power W den (LEAST k. 0 < k \<and> arc_power W den k = 0) = 0"
    if "arc_power W den r = 0" "0 < r" for W den r
    using Least_le [of "\<lambda>k. 0 < k \<and> arc_power W den k = 0" r] LeastI [of "\<lambda>k. 0 < k \<and> arc_power W den k = 0" r] that by simp
  show "arc_rounds (16 * 5 * BASE ^ (n - 1)) (5 * 5) \<le> 2 * n" "arc_rounds (4 * 239 * BASE ^ (n - 1)) (239 * 239) \<le> n"
    "arc_power (16 * 5 * BASE ^ (n - 1)) (5 * 5) (arc_rounds (16 * 5 * BASE ^ (n - 1)) (5 * 5)) = 0"
    "arc_power (4 * 239 * BASE ^ (n - 1)) (239 * 239) (arc_rounds (4 * 239 * BASE ^ (n - 1)) (239 * 239)) = 0"
    using l [OF z(1)] l [OF z(2)] assms by (simp_all only: arc_rounds_def)
qed

end
