(* ===== verification/Prog2.thy ===== *)
theory Prog2
  imports PiSeries LibC
begin

text \<open>
  The guest program \<^verbatim>\<open>core-project/prog2\<close> as a whole: \<^verbatim>\<open>_main\<close> and the output functions of
  \<^verbatim>\<open>prog2.c\<close>, entered from \<^verbatim>\<open>crt1.s\<close> and \<^verbatim>\<open>__libc_start_main\<close> with the stack that the memory's
  constructor has set up. The result is the text written and the exit code. What \<^verbatim>\<open>malloc\<close> returns is
  not initialised: the first content of the three arrays is the parameter \<open>uninit\<close>; the two clock
  readings are \<open>T\<close>.
\<close>

subsection \<open>Output\<close>

definition out_dig :: "int \<Rightarrow> fault + byte list" where
  "out_dig dig = and_then (c_add dig 48) (\<lambda>c. Inr [word_of_int c])"

function print_val :: "int \<Rightarrow> fault + byte list" where
  "print_val v =
     and_then (if v > 9 then print_val (v sdiv 10) else Inr []) (\<lambda>out.
     and_then (c_mod v 10) (\<lambda>d.
     and_then (out_dig d) (\<lambda>b. Inr (out @ b))))"
  by pat_completeness auto
termination
  by (relation "measure nat") (auto simp: signed_divide_int_eq_divide_int)

declare print_val.simps [simp del]

text \<open>The digits are taken from the least significant on into an array that has one element more, and
  written from the last.\<close>

definition print_short :: "int \<Rightarrow> fault + byte list" where
  "print_short v =
     and_then (for_each (\<lambda>x (buf, v).
         and_then (c_mod v 10) (\<lambda>d.
         and_then (arr_store buf x d) (\<lambda>buf.
         and_then (c_div v 10) (\<lambda>v. Inr (buf, v))))) [0, 1] ([0, 0, 0], v)) (\<lambda>(buf, _).
     for_each (\<lambda>x out. and_then (arr_load buf x) (\<lambda>d. and_then (out_dig d) (\<lambda>b. Inr (out @ b)))) [1, 0] [])"

definition print_num :: "nat \<Rightarrow> int list \<Rightarrow> fault + byte list" where
  "print_num sz ds =
     and_then (for_each (\<lambda>x out. and_then (arr_load ds x) (\<lambda>d. and_then (print_short d) (\<lambda>b. Inr (out @ b))))
       [1..<sz] [0x33, 0x2e]) (\<lambda>out. Inr (out @ [10]))"

subsection \<open>The program\<close>

text \<open>\<^verbatim>\<open>((size + BASEDIGITS - 1) / BASEDIGITS) + 1\<close>\<close>

definition number_size :: "int \<Rightarrow> fault + nat" where
  "number_size n =
     and_then (c_add n 2) (\<lambda>a. and_then (c_sub a 1) (\<lambda>b. and_then (c_div b 2) (\<lambda>c. and_then (c_add c 1) (\<lambda>s. Inr (nat s)))))"

definition compute_pi :: "nat \<Rightarrow> (nat \<Rightarrow> nat \<Rightarrow> int) \<Rightarrow> (fault + int list) option" where
  "compute_pi sz uninit =
     (case for_each (\<lambda>x ds. arr_store ds x 0) [0..<sz] (map (uninit 0) [0..<sz]) of
        Inl f \<Rightarrow> Some (Inl f)
      | Inr ds \<Rightarrow> (case c_arctan sz 16 5 1 (ds, map (uninit 1) [0..<sz], map (uninit 2) [0..<sz]) of
          None \<Rightarrow> None
        | Some (Inl f) \<Rightarrow> Some (Inl f)
        | Some (Inr s) \<Rightarrow> (case c_arctan sz 4 239 (- 1) s of
            None \<Rightarrow> None
          | Some (Inl f) \<Rightarrow> Some (Inl f)
          | Some (Inr (ds, _)) \<Rightarrow> Some (Inr ds))))"

text \<open>The loops store every element of the three blocks that \<^verbatim>\<open>malloc\<close> returns, which takes
  whatever address the break has (\<^verbatim>\<open>libc.c\<close>): \<^verbatim>\<open>pi\<close> before the first reading of the clock,
  \<^verbatim>\<open>powers\<close> and \<^verbatim>\<open>term\<close> in the first pass of \<^verbatim>\<open>arctan\<close>. A block that reaches the
  stack is no object of the program: the stores would replace the arguments and then leave the memory, where
  \<^verbatim>\<open>Memory::work\<close> asserts.\<close>

definition block_fits :: "nat \<Rightarrow> addr \<Rightarrow> bool" where
  "block_fits sz p \<longleftrightarrow> unat p + 8 * sz \<le> unat stack_base"

text \<open>The part of \<^verbatim>\<open>_main\<close> that has a size: the three arrays, the number, the text and the time.\<close>

definition prog2_run :: "nat \<Rightarrow> addr \<Rightarrow> (nat \<Rightarrow> nat \<Rightarrow> int) \<Rightarrow> int \<times> int \<Rightarrow> (fault + byte list \<times> int) option" where
  "prog2_run sz brk uninit T =
     (let (p1, brk) = c_malloc (8 * word_of_nat sz) brk;
          (p2, brk) = c_malloc (8 * word_of_nat sz) brk;
          (p3, brk) = c_malloc (8 * word_of_nat sz) brk
      in if p1 = 0 \<or> p2 = 0 \<or> p3 = 0
         then Some (Inr (map of_char ''Unable to allocate enough memory.'' @ [10], 1))
         else if \<not> (block_fits sz p1 \<and> block_fits sz p2 \<and> block_fits sz p3)
         then Some (Inl Undefined_behaviour)
         else (case compute_pi sz uninit of None \<Rightarrow> None | Some (Inl f) \<Rightarrow> Some (Inl f) | Some (Inr ds) \<Rightarrow>
           Some (and_then (print_num sz ds) (\<lambda>out.
                 and_then (c_sub (snd T) (fst T)) (\<lambda>t.
                 and_then (print_val t) (\<lambda>v.
                 Inr (out @ map of_char ''Calculation time '' @ v @ map of_char '' cycles'' @ [10], 0)))))))"

definition prog2_main ::
  "(addr \<Rightarrow> byte) \<Rightarrow> int \<Rightarrow> addr \<Rightarrow> addr \<Rightarrow> (nat \<Rightarrow> nat \<Rightarrow> int) \<Rightarrow> int \<times> int \<Rightarrow> (fault + byte list \<times> int) option" where
  "prog2_main bytes argc argv brk uninit T =
     (if argc \<noteq> 2
      then Some (Inr (map of_char ''Syntax: ./prog2 <number>   - <number> indicates the number of digits to compute'' @ [10], 1))
      else case mem_d_read bytes (argv + 8) of Inl f \<Rightarrow> Some (Inl f) | Inr arg \<Rightarrow>
       (case c_atol bytes arg of None \<Rightarrow> None | Some (Inl f) \<Rightarrow> Some (Inl f) | Some (Inr n) \<Rightarrow>
         if n \<le> 0 then Some (Inr (map of_char ''Invalid argument - need <number>'' @ [10], 1))
         else (case number_size n of Inl f \<Rightarrow> Some (Inl f) | Inr sz \<Rightarrow> prog2_run sz brk uninit T)))"

text \<open>\<^verbatim>\<open>_start\<close> pops the number of arguments; the pointers are above it.\<close>

definition guest_start ::
  "(addr \<Rightarrow> byte) \<Rightarrow> addr \<Rightarrow> (nat \<Rightarrow> nat \<Rightarrow> int) \<Rightarrow> int \<times> int \<Rightarrow> (fault + byte list \<times> int) option" where
  "guest_start bytes brk uninit T = (case mem_d_read bytes stack_base of
     Inl f \<Rightarrow> Some (Inl f)
   | Inr argc \<Rightarrow> prog2_main bytes (sint argc) (stack_base + 8) brk uninit T)"

subsection \<open>The digits of the number\<close>

lemma print_short_two:
  assumes "0 \<le> d" "d < 100"
  shows "print_short d = Inr [word_of_int (d div 10 + 48), word_of_int (d mod 10 + 48)]"
proof -
  have m: "c_mod d 10 = Inr (d mod 10)" "c_div d 10 = Inr (d div 10)" "c_mod (d div 10) 10 = Inr (d div 10)" "\<exists>q. c_div (d div 10) 10 = Inr q"
    using assms c_mod_nonneg [of d 10] c_div_nonneg [of d 10] c_mod_nonneg [of "d div 10" 10] c_div_nonneg [of "d div 10" 10]
    by simp_all
  then obtain q where q: "c_div (d div 10) 10 = Inr q" by blast
  have "0 \<le> d mod 10" "d mod 10 < 10" "0 \<le> d div 10" "d div 10 < 10" using assms by simp_all
  then have "c_add (d mod 10) 48 = Inr (d mod 10 + 48)" "c_add (d div 10) 48 = Inr (d div 10 + 48)"
    by (simp_all add: c_add_def)
  then show ?thesis using m(1-3) q by (simp add: print_short_def out_dig_def)
qed

lemma uint_digit: "0 \<le> d \<Longrightarrow> d < 10 \<Longrightarrow> uint (word_of_int (d + 48) :: byte) = d + 48"
  unfolding uint_word_of_int by simp

lemma digit_char_digit: "0 \<le> d \<Longrightarrow> d < 10 \<Longrightarrow> digit_char (word_of_int (d + 48))"
  unfolding digit_char_range uint_digit by simp

lemma decimal_append_two:
  assumes "0 \<le> d" "d < 100"
  shows "decimal (qs @ [word_of_int (d div 10 + 48), word_of_int (d mod 10 + 48)]) = 100 * decimal qs + d"
proof -
  have d: "0 \<le> d div 10" "d div 10 < 10" "0 \<le> d mod 10" "d mod 10 < 10" using assms by simp_all
  have "decimal ((qs @ [word_of_int (d div 10 + 48)]) @ [word_of_int (d mod 10 + 48)]) = 100 * decimal qs + (10 * (d div 10) + d mod 10)"
    unfolding decimal_snoc uint_digit [OF d(1,2)] uint_digit [OF d(3,4)] by simp
  then show ?thesis by simp
qed

lemma print_num_digits:
  assumes "digits (d # ds)"
  shows "\<exists>qs. print_num (Suc (length ds)) (d # ds) = Inr ([0x33, 0x2e] @ qs @ [10]) \<and> length qs = 2 * length ds \<and>
    (\<forall>c \<in> set qs. digit_char c) \<and> decimal qs = num ds"
proof -
  let ?body = "\<lambda>x out. and_then (arr_load (d # ds) x) (\<lambda>d. and_then (print_short d) (\<lambda>b. Inr (out @ b)))"
  have "\<exists>qs. for_each ?body [1..<Suc k] [0x33, 0x2e] = Inr ([0x33, 0x2e] @ qs) \<and> length qs = 2 * k \<and>
      (\<forall>c \<in> set qs. digit_char c) \<and> decimal qs = num (take k ds)" if "k \<le> length ds" for k
    using that
  proof (induction k)
    case 0
    then show ?case by (simp add: decimal_def)
  next
    case (Suc k)
    then obtain qs where qs: "for_each ?body [1..<Suc k] [0x33, 0x2e] = Inr ([0x33, 0x2e] @ qs)" "length qs = 2 * k"
        "\<forall>c \<in> set qs. digit_char c" "decimal qs = num (take k ds)" by auto
    let ?e = "ds ! k"
    have "?e \<in> set ds" using Suc.prems by simp
    then have e: "0 \<le> ?e" "?e < 100" using assms by (auto simp: digits_def BASE_def)
    let ?two = "[word_of_int (?e div 10 + 48), word_of_int (?e mod 10 + 48)] :: byte list"
    have body: "?body (Suc k) ([0x33, 0x2e] @ qs) = Inr (([0x33, 0x2e] @ qs) @ ?two)"
      using Suc.prems by (simp add: print_short_two [OF e])
    have "[1..<Suc (Suc k)] = [1..<Suc k] @ [Suc k]" by simp
    then have "for_each ?body [1..<Suc (Suc k)] [0x33, 0x2e] = Inr ([0x33, 0x2e] @ qs @ ?two)"
      using body by (simp only: for_each_append qs(1) and_then_run for_each.simps append_assoc)
    moreover have "digit_char (word_of_int (?e div 10 + 48))" "digit_char (word_of_int (?e mod 10 + 48))"
      by (rule digit_char_digit; use e in simp)+
    then have "\<forall>c \<in> set ?two. digit_char c" by (simp only: list.set ball_simps simp_thms)
    moreover have "num (take (Suc k) ds) = 100 * num (take k ds) + ?e"
      using Suc.prems by (simp add: take_Suc_conv_app_nth num_snoc BASE_def)
    ultimately show ?case using qs decimal_append_two [OF e, of qs] by (intro exI [of _ "qs @ ?two"]) auto
  qed
  from this [of "length ds"] show ?thesis by (auto simp: print_num_def)
qed

lemma print_val_total:
  assumes "0 \<le> v" "v < 2 ^ 63"
  shows "\<exists>out. print_val v = Inr out"
  using assms
proof (induction v rule: print_val.induct)
  case (1 v)
  have d: "c_mod v 10 = Inr (v mod 10)" using c_mod_nonneg [of v 10] 1 by simp
  have "c_add (v mod 10) 48 = Inr (v mod 10 + 48)"
    using pos_mod_bound [of 10 v] pos_mod_sign [of 10 v] by (simp add: c_add_def)
  moreover have "\<exists>out. print_val (v sdiv 10) = Inr out" if "v > 9"
  proof (rule "1.IH" [OF that])
    have "v sdiv 10 = v div 10" using that by (simp add: signed_divide_int_eq_divide_int)
    then show "0 \<le> v sdiv 10" "v sdiv 10 < 2 ^ 63" using that 1 zdiv_mono2 [of v 1 10] by simp_all
  qed
  ultimately show ?case using d by (auto simp: print_val.simps [of v] out_dig_def)
qed

subsection \<open>The number\<close>

lemma error_small: "2 \<le> n \<Longrightarrow> 3 * real n + 2 \<le> 100 ^ (n - 1) / 10"
proof (induction n rule: nat_induct_at_least)
  case (Suc n)
  have "(100 :: real) ^ (Suc n - 1) = 100 * 100 ^ (n - 1)" using Suc.hyps by (simp add: power_eq_if)
  then show ?case using Suc by simp
qed simp

text \<open>The two calls of \<^verbatim>\<open>arctan\<close> return whatever the three arrays held before, and leave in \<^verbatim>\<open>pi\<close> the
  digits of a number whose distance to \<open>pi * 100 ^ (size - 1)\<close> is less than \<open>3 * size + 2\<close>.\<close>

lemma compute_pi_digits:
  assumes "2 \<le> n" "n \<le> 2 ^ 40"
  shows "\<exists>ds. compute_pi n uninit = Some (Inr ds) \<and> length ds = n \<and> digits ds \<and> hd ds = 3 \<and>
    \<bar>num ds - pi * 100 ^ (n - 1)\<bar> < 3 * n + 2"
proof -
  let ?B = "BASE ^ (n - 1)"
  let ?r1 = "arc_rounds (16 * 5 * ?B) (5 * 5)" and ?r2 = "arc_rounds (4 * 239 * ?B) (239 * 239)"
  let ?S1 = "arc_sum (16 * 5 * ?B) (5 * 5) ?r1" and ?S2 = "arc_sum (4 * 239 * ?B) (239 * 239) ?r2"
  have n: "0 < n" using assms(1) by simp
  have clear: "for_each (\<lambda>x ds. arr_store ds x 0) [0..<n] (map (uninit 0) [0..<n]) = Inr (replicate n 0)"
    using clear_loop [of "[]" "map (uninit 0) [0..<n]"] by simp
  have zero: "digits (replicate n 0)" by (simp add: digits_def)
  obtain d1 p1 t1 where c1: "c_arctan n 16 5 1 (replicate n 0, map (uninit 1) [0..<n], map (uninit 2) [0..<n]) = Some (Inr (d1, p1, t1))"
      "length d1 = n" "length p1 = n" "length t1 = n" "digits d1" "num d1 = (num (replicate n 0) + 1 * ?S1) mod BASE ^ n"
    using c_arctan_result [of "replicate n 0" n "map (uninit 1) [0..<n]" "map (uninit 2) [0..<n]" 5 16 1] zero n assms(2)
    by (auto simp: BASE_def)
  obtain d2 p2 t2 where c2: "c_arctan n 4 239 (- 1) (d1, p1, t1) = Some (Inr (d2, p2, t2))"
      "length d2 = n" "digits d2" "num d2 = (num d1 + - 1 * ?S2) mod BASE ^ n"
    using c_arctan_result [OF c1(2-5) n assms(2), of 239 4 "- 1"] by (auto simp: BASE_def)
  have d2: "num d2 = machin_sum n ?r1 ?r2 mod BASE ^ n"
    unfolding c2(4) c1(6) machin_sum_def by (simp add: mod_diff_left_eq)
  have "compute_pi n uninit = Some (Inr d2)" using c1(1) c2(1) by (simp add: compute_pi_def clear)
  note r = machin_rounds [OF n]
  define E where "E = 3 * real n + 2"
  have close: "\<bar>real_of_int (machin_sum n ?r1 ?r2) - pi * BASE ^ (n - 1)\<bar> < E"
    using machin_error [OF r(3,4)] r(1,2) unfolding E_def by linarith
  have small: "E \<le> real_of_int ?B / 10" using error_small [OF assms(1)] by (simp add: E_def BASE_def)
  have B: "0 < real_of_int ?B" by simp
  have "3.1 * real_of_int ?B < pi * ?B" "pi * ?B < 3.2 * real_of_int ?B"
    using pi_bounds B by (simp_all only: mult_less_cancel_right_pos)
  then have "3 * real_of_int ?B < real_of_int (machin_sum n ?r1 ?r2)" "real_of_int (machin_sum n ?r1 ?r2) < 4 * real_of_int ?B"
    using close small B by linarith+
  then have m: "3 * ?B < machin_sum n ?r1 ?r2" "machin_sum n ?r1 ?r2 < 4 * ?B"
    by (metis of_int_less_iff of_int_mult of_int_numeral)+
  have "BASE ^ n = BASE * ?B" using n by (metis power_minus_mult mult.commute)
  then have "num d2 = machin_sum n ?r1 ?r2"
    unfolding d2 using m zero_less_power [of BASE "n - 1"] by (intro mod_pos_pos_trivial) (simp_all add: BASE_def)
  moreover obtain d ds where d: "d2 = d # ds" "length ds = n - 1" using c2(2) n by (cases d2) simp_all
  moreover have "d = 3"
  proof -
    have "d * ?B + num ds = machin_sum n ?r1 ?r2" using d \<open>num d2 = machin_sum n ?r1 ?r2\<close> by simp
    moreover have "0 \<le> num ds" "num ds < ?B" using num_bounds [of ds] c2(3) d by simp_all
    ultimately have "3 * ?B < d * ?B + 1 * ?B" "d * ?B < 4 * ?B" using m by linarith+
    then have "3 * ?B < (d + 1) * ?B" "d * ?B < 4 * ?B" by (simp_all only: distrib_right)
    then show ?thesis by simp
  qed
  ultimately show ?thesis using close c2(2,3) \<open>compute_pi n uninit = Some (Inr d2)\<close>
    by (intro exI [of _ d2]) (simp add: E_def BASE_def)
qed

subsection \<open>From the stack to the text\<close>

lemma number_size_value:
  assumes "0 < n" "n < 2 ^ 62"
  shows "number_size n = Inr (Suc (nat ((n + 1) div 2)))"
proof -
  have "c_add n 2 = Inr (n + 2)" "c_sub (n + 2) 1 = Inr (n + 1)"
    using assms by (simp_all add: c_add_def c_sub_def)
  moreover have "c_div (n + 1) 2 = Inr ((n + 1) div 2)" using c_div_nonneg [of "n + 1" 2] assms by simp
  moreover have "c_add ((n + 1) div 2) 1 = Inr ((n + 1) div 2 + 1)" using assms by (simp add: c_add_def)
  moreover have "nat ((n + 1) div 2 + 1) = Suc (nat ((n + 1) div 2))" using assms by (simp add: nat_add_distrib)
  ultimately show ?thesis by (simp add: number_size_def)
qed

lemma scaled_error:
  fixes c d v e :: real
  assumes "0 < c" "v = 3 * c + d" "\<bar>v - pi * c\<bar> < e"
  shows "\<bar>3 + d / c - pi\<bar> < e / c"
proof -
  have "3 + d / c - pi = (v - pi * c) / c" using assms(1,2) by (simp add: field_simps)
  then show ?thesis using assms(1,3) by (simp add: divide_strict_right_mono)
qed

lemma three_blocks:
  assumes "0 < sz" "0 < unat brk" "unat brk + 24 * sz + 24 < 2 ^ 63"
    and "c_malloc (8 * word_of_nat sz) brk = (p1, b1)" "c_malloc (8 * word_of_nat sz) b1 = (p2, b2)"
    and "c_malloc (8 * word_of_nat sz) b2 = (p3, b3)"
  shows "p1 \<noteq> 0" "p2 \<noteq> 0" "p3 \<noteq> 0"
    and "unat brk + 24 * sz + 24 \<le> unat stack_base \<Longrightarrow> block_fits sz p1 \<and> block_fits sz p2 \<and> block_fits sz p3"
    and "unat stack_base < unat brk + 24 * sz \<Longrightarrow> \<not> block_fits sz p3"
proof -
  have n: "unat (8 * word_of_nat sz :: quad) = 8 * sz"
    using assms(3) unat_of_nat_64 [of "8 * sz"] by simp
  have m1: "p1 = brk" "unat brk + 8 * sz \<le> unat b1" "unat b1 < unat brk + 8 * sz + 8"
    using c_malloc_block [OF _ _ assms(4)] n assms(1,3) by simp_all
  moreover have m2: "p2 = b1" "unat b1 + 8 * sz \<le> unat b2" "unat b2 < unat b1 + 8 * sz + 8"
    using c_malloc_block [OF _ _ assms(5)] n assms(1,3) m1 by simp_all
  moreover have m3: "p3 = b2" using c_malloc_block [OF _ _ assms(6)] n assms(1,3) m1 m2 by simp
  moreover have "0 < unat b1" "0 < unat b2" using m1 m2 assms(2) by linarith+
  ultimately show "p1 \<noteq> 0" "p2 \<noteq> 0" "p3 \<noteq> 0" using assms(2) by auto
  show "block_fits sz p1 \<and> block_fits sz p2 \<and> block_fits sz p3" if "unat brk + 24 * sz + 24 \<le> unat stack_base"
    unfolding block_fits_def m1(1) m2(1) m3 using that m1(2,3) m2(2,3) by (intro conjI) linarith+
  show "\<not> block_fits sz p3" if "unat stack_base < unat brk + 24 * sz"
    unfolding block_fits_def m3 using that m1(2) m2(2) by linarith
qed

text \<open>With a number \<open>N\<close> in decimal digits as its argument the guest program runs to its end, exits with
  0, and the text it writes starts with the digits of a decimal fraction, \<open>N\<close> of them rounded up to an
  even number, that differs from \<open>pi\<close> only in its last few places; this holds from the stack that the
  constructor of the memory sets up, for every \<open>N\<close> whose three arrays fit under it.\<close>

lemma start_prints_pi:
  assumes "set_up_stack [name, ds] b0 = Inr b" and "ds \<noteq> []" "\<forall>c \<in> set ds. digit_char c" "0 < decimal ds"
    and "0 < unat brk" "int (unat brk) + 12 * decimal ds + 72 \<le> int (unat stack_base)"
    and "fst T \<le> snd T" "snd T - fst T < 2 ^ 63"
  shows "\<exists>qs more. guest_start b brk uninit T = Some (Inr ([0x33, 0x2e] @ qs @ [10] @ more, 0)) \<and>
    length qs = 2 * nat ((decimal ds + 1) div 2) \<and> (\<forall>c \<in> set qs. digit_char c) \<and>
    \<bar>3 + decimal qs / 10 ^ length qs - pi\<bar> < (3 * ((decimal ds + 1) div 2) + 5) / 10 ^ length qs"
proof -
  let ?N = "decimal ds"
  define k where "k = nat ((?N + 1) div 2)"
  let ?n = "Suc k"
  have stack: "unat stack_base = 67107840" by (simp add: stack_base_def mem_size_def)
  have N: "?N < 67107840" using assms(4,6) unfolding stack by linarith
  have k: "0 < k" "2 * int k \<le> ?N + 1" using assms(4) by (simp_all add: k_def)
  note st = set_up_stack_args [OF assms(1)]
  moreover have "1 < length [name, ds]" by simp
  ultimately obtain q where q1: "mem_d_read b (slot 1) = Inr q" "string_at b q ([name, ds] ! 1)" by blast
  then have q: "mem_d_read b (slot 1) = Inr q" "string_at b q ds" by simp_all
  have argc: "mem_d_read b stack_base = Inr 2" using st by simp
  have slot: "stack_base + 8 + 8 = slot 1" by (simp add: slot_def)
  have "string_at b q ([] @ [] @ ds @ [])" using q(2) by simp
  from c_atol_value [OF this _ _ assms(2,3)] have "c_atol b q = Some (checked ?N)" by simp
  moreover have big: "- (2 ^ 63) \<le> ?N" "?N < 2 ^ 62" "?N < 2 ^ 63" using assms(4) N by simp_all
  ultimately have atol: "c_atol b q = Some (Inr ?N)" by (simp only: checked_Inr)
  have size: "number_size ?N = Inr ?n" unfolding k_def by (rule number_size_value [OF assms(4) big(2)])
  obtain p1 b1 where a1: "c_malloc (8 * word_of_nat ?n) brk = (p1, b1)" by fastforce
  obtain p2 b2 where a2: "c_malloc (8 * word_of_nat ?n) b1 = (p2, b2)" by fastforce
  obtain p3 b3 where a3: "c_malloc (8 * word_of_nat ?n) b2 = (p3, b3)" by fastforce
  have "int (unat brk + 24 * ?n + 24) \<le> int 67107840"
    using assms(6) k(2) unfolding stack of_nat_add of_nat_mult of_nat_Suc of_nat_numeral by simp
  then have small: "unat brk + 24 * ?n + 24 \<le> 67107840" by (simp only: of_nat_le_iff)
  have room: "unat brk + 24 * ?n + 24 < 2 ^ 63" using small by simp
  note blocks = three_blocks [OF _ assms(5) room a1 a2 a3]
  have "block_fits ?n p1 \<and> block_fits ?n p2 \<and> block_fits ?n p3" by (rule blocks(4)) (use small stack in simp_all)
  then have fits: "\<not> \<not> (block_fits ?n p1 \<and> block_fits ?n p2 \<and> block_fits ?n p3)" by simp
  have "?n \<le> 67107840" by (rule order_trans [OF _ small]) simp
  then have "2 \<le> ?n" "?n \<le> 2 ^ 40" using k(1) by simp_all
  then obtain v where v: "compute_pi ?n uninit = Some (Inr v)" "length v = ?n" "digits v" "hd v = 3"
      "\<bar>num v - pi * 100 ^ (?n - 1)\<bar> < 3 * real ?n + 2"
    using compute_pi_digits [of ?n uninit] by blast
  then obtain tl where vt: "v = 3 # tl" "length tl = k" by (cases v) auto
  obtain qs where qs: "print_num ?n v = Inr ([0x33, 0x2e] @ qs @ [10])" "length qs = 2 * k"
      "\<forall>c \<in> set qs. digit_char c" "decimal qs = num tl"
    using print_num_digits [of 3 tl] v(3) vt by auto
  obtain w where w: "print_val (snd T - fst T) = Inr w" using print_val_total assms(7,8) by fastforce
  have t: "c_sub (snd T) (fst T) = Inr (snd T - fst T)" using assms(7,8) by (simp add: c_sub_def)
  let ?more = "map of_char ''Calculation time '' @ w @ map of_char '' cycles'' @ [10]"
  have "prog2_run ?n brk uninit T = Some (Inr ([0x33, 0x2e] @ qs @ [10] @ ?more, 0))"
    unfolding prog2_run_def Let_def a1 a2 a3 split_conv
    using blocks(1-3) fits v(1) qs(1) t w by (simp only: simp_thms if_False option.case sum.case and_then_run append_assoc)
  then have "prog2_main b 2 (stack_base + 8) brk uninit T = Some (Inr ([0x33, 0x2e] @ qs @ [10] @ ?more, 0))"
    unfolding prog2_main_def slot q(1) sum.case atol option.case size using assms(4) by simp
  then have run: "guest_start b brk uninit T = Some (Inr ([0x33, 0x2e] @ qs @ [10] @ ?more, 0))"
    by (simp add: guest_start_def argc)
  have p: "(100 :: real) ^ k = 10 ^ length qs" unfolding qs(2) power_mult by simp
  have "real_of_int (num v) = 3 * 10 ^ length qs + decimal qs" using vt qs(4) p by (simp add: BASE_def)
  moreover have "\<bar>num v - pi * 10 ^ length qs\<bar> < 3 * real ?n + 2" using v(5) p by simp
  ultimately have "\<bar>3 + decimal qs / 10 ^ length qs - pi\<bar> < (3 * real ?n + 2) / 10 ^ length qs"
    by (intro scaled_error) simp_all
  moreover have "3 * real ?n + 2 = real_of_int (3 * ((?N + 1) div 2) + 5)" using assms(4) by (simp add: k_def)
  ultimately have close: "\<bar>3 + decimal qs / 10 ^ length qs - pi\<bar> < (3 * ((?N + 1) div 2) + 5) / 10 ^ length qs"
    by (simp only:)
  show ?thesis
    by (intro exI conjI) (rule run, simp only: qs(2) k_def, rule qs(3), rule close)
qed

text \<open>A number whose arrays reach the stack is not refused: \<^verbatim>\<open>malloc\<close> never fails, and the stores
  leave the blocks.\<close>

lemma start_overruns:
  assumes "set_up_stack [name, ds] b0 = Inr b" and "ds \<noteq> []" "\<forall>c \<in> set ds. digit_char c"
    and "decimal ds < 2 ^ 56" "0 < unat brk" "unat brk < 2 ^ 31"
    and "int (unat stack_base) < int (unat brk) + 12 * decimal ds" "0 < decimal ds"
  shows "guest_start b brk uninit T = Some (Inl Undefined_behaviour)"
proof -
  let ?N = "decimal ds"
  define n where "n = Suc (nat ((?N + 1) div 2))"
  have n: "0 < n" "12 * ?N \<le> int (24 * n)" "int (24 * n) \<le> 12 * ?N + 36"
    using assms(8) by (simp_all add: n_def)
  note st = set_up_stack_args [OF assms(1)]
  moreover have "1 < length [name, ds]" by simp
  ultimately obtain q where "mem_d_read b (slot 1) = Inr q" "string_at b q ([name, ds] ! 1)" by blast
  then have q: "mem_d_read b (slot 1) = Inr q" "string_at b q ([] @ [] @ ds @ [])" by simp_all
  have argc: "mem_d_read b stack_base = Inr 2" using st by simp
  have slot: "stack_base + 8 + 8 = slot 1" by (simp add: slot_def)
  have "c_atol b q = Some (checked ?N)" using c_atol_value [OF q(2) _ _ assms(2,3)] by simp
  then have atol: "c_atol b q = Some (Inr ?N)" using assms(4,8) by (simp add: checked_Inr)
  have size: "number_size ?N = Inr n" unfolding n_def by (rule number_size_value) (use assms(4,8) in simp_all)
  obtain p1 b1 where a1: "c_malloc (8 * word_of_nat n) brk = (p1, b1)" by fastforce
  obtain p2 b2 where a2: "c_malloc (8 * word_of_nat n) b1 = (p2, b2)" by fastforce
  obtain p3 b3 where a3: "c_malloc (8 * word_of_nat n) b2 = (p3, b3)" by fastforce
  have "int (24 * n) < 2 ^ 60" using n(3) assms(4) by simp
  then have room: "unat brk + 24 * n + 24 < 2 ^ 63" using assms(6) by simp
  note blocks = three_blocks [OF n(1) assms(5) room a1 a2 a3]
  have "int (unat stack_base) < int (unat brk + 24 * n)" using assms(7) n(2) by simp
  then have "\<not> block_fits n p3" by (intro blocks(5)) (simp only: of_nat_less_iff)
  then have "prog2_run n brk uninit T = Some (Inl Undefined_behaviour)"
    unfolding prog2_run_def Let_def a1 a2 a3 split_conv using blocks(1-3) by simp
  then have "prog2_main b 2 (stack_base + 8) brk uninit T = Some (Inl Undefined_behaviour)"
    unfolding prog2_main_def slot q(1) sum.case atol option.case size using assms(8) by simp
  then show ?thesis by (simp add: guest_start_def argc)
qed

text \<open>C37: an invocation with no number, with more than one argument or with a number that is not positive ends
  with the usage or the error text and exit code 1; a number that does not fit a \<^verbatim>\<open>long\<close> overflows.\<close>

theorem prog2_rejects:
  assumes "set_up_stack argv b0 = Inr b"
  shows "(length argv \<noteq> 2 \<longrightarrow> guest_start b brk uninit T = Some (Inr
      (map of_char ''Syntax: ./prog2 <number>   - <number> indicates the number of digits to compute'' @ [10], 1))) \<and>
    (\<forall>name sg ds rest. argv = [name, sg @ ds @ rest] \<and> (sg = [] \<or> sg = [0x2d]) \<and> ds \<noteq> [] \<and>
      (\<forall>c \<in> set ds. digit_char c) \<and> (rest = [] \<or> \<not> digit_char (hd rest)) \<longrightarrow>
      (let n = if sg = [0x2d] then - decimal ds else decimal ds in
        (- (2 ^ 63) \<le> n \<and> n \<le> 0 \<longrightarrow> guest_start b brk uninit T =
           Some (Inr (map of_char ''Invalid argument - need <number>'' @ [10], 1))) \<and>
        (n < - (2 ^ 63) \<or> 2 ^ 63 \<le> n \<longrightarrow> guest_start b brk uninit T = Some (Inl Undefined_behaviour))))"
proof (intro conjI allI impI)
  note st = set_up_stack_args [OF assms]
  then have argc: "mem_d_read b stack_base = Inr (word_of_nat (length argv))" by blast
  {
    assume "length argv \<noteq> 2"
    moreover have "length argv \<le> 126" using assms by (simp add: set_up_stack_def split: if_splits)
    then have "sint (word_of_nat (length argv) :: quad) = int (length argv)"
      using sint_word_of_int_quad [of "int (length argv)"] by simp
    ultimately show "guest_start b brk uninit T = Some (Inr
      (map of_char ''Syntax: ./prog2 <number>   - <number> indicates the number of digits to compute'' @ [10], 1))"
      unfolding guest_start_def argc sum.case prog2_main_def by (simp only:) simp
  }
  fix name sg ds rest
  assume a: "argv = [name, sg @ ds @ rest] \<and> (sg = [] \<or> sg = [0x2d]) \<and> ds \<noteq> [] \<and>
      (\<forall>c \<in> set ds. digit_char c) \<and> (rest = [] \<or> \<not> digit_char (hd rest))"
  let ?n = "if sg = [0x2d] then - decimal ds else decimal ds"
  have "1 < length argv" using a by simp
  with st obtain q where q: "mem_d_read b (slot 1) = Inr q" "string_at b q (argv ! 1)" by blast
  have atol: "c_atol b q = Some (checked ?n)"
    by (rule c_atol_value [of b q "[]" sg ds rest]) (use q(2) a in auto)
  have slot: "stack_base + 8 + 8 = slot 1" by (simp add: slot_def)
  have run: "guest_start b brk uninit T = (case checked ?n of Inl f \<Rightarrow> Some (Inl f) | Inr n \<Rightarrow>
      if n \<le> 0 then Some (Inr (map of_char ''Invalid argument - need <number>'' @ [10], 1))
      else (case number_size n of Inl f \<Rightarrow> Some (Inl f) | Inr sz \<Rightarrow> prog2_run sz brk uninit T))"
    unfolding guest_start_def argc sum.case prog2_main_def slot q(1) atol option.case using a
    by (simp split: sum.split)
  show "let n = ?n in
        (- (2 ^ 63) \<le> n \<and> n \<le> 0 \<longrightarrow> guest_start b brk uninit T =
           Some (Inr (map of_char ''Invalid argument - need <number>'' @ [10], 1))) \<and>
        (n < - (2 ^ 63) \<or> 2 ^ 63 \<le> n \<longrightarrow> guest_start b brk uninit T = Some (Inl Undefined_behaviour))"
    unfolding Let_def run by (auto simp: checked_def simp del: list.map)
qed

theorem prog2_rejects_witness:
  "\<exists>b. guest_start b 0x2000000 (\<lambda>_ _. 7) (3, 45) =
     Some (Inr (map of_char ''Invalid argument - need <number>'' @ [10], 1))"
proof -
  have "unat (stack_base + 32 :: addr) = 67107872" "unat (stack_base + 35 :: addr) = 67107875"
    by (simp_all add: stack_base_def mem_size_def)
  then obtain b where b: "set_up_stack [[0x70], [0x2d, 0x31]] (\<lambda>_. 0) = Inr b"
    by (auto simp: set_up_stack_def and_then_def stack_base_def mem_size_def)
  have "guest_start b 0x2000000 (\<lambda>_ _. 7) (3, 45) =
     Some (Inr (map of_char ''Invalid argument - need <number>'' @ [10], 1))"
    using conjunct2 [OF prog2_rejects [OF b, where brk = "0x2000000" and uninit = "\<lambda>_ _. 7" and T = "(3, 45)"],
        rule_format, of "[0x70]" "[0x2d]" "[0x31]" "[]"]
    by (simp add: digit_char_range decimal_def Let_def del: list.map)
  then show ?thesis by blast
qed

end
