(* ===== verification/GuestRun.thy ===== *)
theory GuestRun
  imports GuestCalls Prog2
begin

text \<open>
  The guest program \<^verbatim>\<open>prog2\<close> with its system calls: every character goes through \<^verbatim>\<open>putchar\<close>
  or \<^verbatim>\<open>puts\<close> to the host, \<^verbatim>\<open>malloc\<close> moves the program break, and the run ends with
  \<^verbatim>\<open>exit\<close>. The functions of \<^verbatim>\<open>Prog2\<close> say what text is written; here it is shown that the host
  gets that text.

  \<open>sp\<close> and \<open>ts\<close> are the addresses of the local variables of \<^verbatim>\<open>putchar\<close> and \<^verbatim>\<open>time\<close>.
\<close>

subsection \<open>Output\<close>

definition put_byte :: "host \<Rightarrow> addr \<Rightarrow> quad \<Rightarrow> os \<Rightarrow> fault + os" where
  "put_byte h sp c st = and_then (c_putchar h sp c st) (\<lambda>(_, st). Inr st)"

definition OutDig :: "host \<Rightarrow> addr \<Rightarrow> int \<Rightarrow> os \<Rightarrow> fault + os" where
  "OutDig h sp dig st = and_then (c_add dig 48) (\<lambda>c. put_byte h sp (word_of_int c) st)"

function PrintVal :: "host \<Rightarrow> addr \<Rightarrow> int \<Rightarrow> os \<Rightarrow> fault + os" where
  "PrintVal h sp v st =
     and_then (if v > 9 then PrintVal h sp (v sdiv 10) st else Inr st) (\<lambda>st.
     and_then (c_mod v 10) (\<lambda>d. OutDig h sp d st))"
  by pat_completeness auto
termination
  by (relation "measure (\<lambda>(h, sp, v, st). nat v)") (auto simp: signed_divide_int_eq_divide_int)

declare PrintVal.simps [simp del]

definition PrintShort :: "host \<Rightarrow> addr \<Rightarrow> int \<Rightarrow> os \<Rightarrow> fault + os" where
  "PrintShort h sp v st =
     and_then (for_each (\<lambda>x (buf, v).
         and_then (c_mod v 10) (\<lambda>d.
         and_then (arr_store buf x d) (\<lambda>buf.
         and_then (c_div v 10) (\<lambda>v. Inr (buf, v))))) [0, 1] ([0, 0, 0], v)) (\<lambda>(buf, _).
     for_each (\<lambda>x st. and_then (arr_load buf x) (\<lambda>d. OutDig h sp d st)) [1, 0] st)"

definition PrintNum :: "host \<Rightarrow> addr \<Rightarrow> nat \<Rightarrow> int list \<Rightarrow> os \<Rightarrow> fault + os" where
  "PrintNum h sp sz ds st =
     and_then (put_byte h sp 0x33 st) (\<lambda>st.
     and_then (put_byte h sp 0x2e st) (\<lambda>st.
     and_then (for_each (\<lambda>x st. and_then (arr_load ds x) (\<lambda>d. PrintShort h sp d st)) [1..<sz] st) (\<lambda>st.
     put_byte h sp 10 st)))"

text \<open>Running \<open>p\<close> writes the text \<open>r\<close>, or faults as \<open>r\<close> does, and touches nothing but its local variable.\<close>

definition touched :: "addr \<Rightarrow> nat \<Rightarrow> os \<Rightarrow> os \<Rightarrow> bool" where
  "touched sp n st st' \<longleftrightarrow> (\<forall>a. unat (a - sp) \<ge> n \<longrightarrow> os_bytes st' a = os_bytes st a) \<and>
     brk_val (os_glob st') = brk_val (os_glob st)"

definition writes :: "addr \<Rightarrow> (os \<Rightarrow> fault + os) \<Rightarrow> fault + byte list \<Rightarrow> bool" where
  "writes sp p r \<longleftrightarrow> (\<forall>st. case r of
       Inl f \<Rightarrow> p st = Inl f
     | Inr text \<Rightarrow> \<exists>st'. p st = Inr st' \<and> os_out st' = os_out st @ text \<and> touched sp 8 st st')"

lemma touched_trans: "touched sp n st st' \<Longrightarrow> touched sp n st' st'' \<Longrightarrow> touched sp n st st''"
  by (simp add: touched_def)

lemma writes_Inl: "writes sp p (Inl f) \<Longrightarrow> p st = Inl f"
  by (simp add: writes_def)

lemma writes_Inr: "writes sp p (Inr t) \<Longrightarrow> \<exists>st'. p st = Inr st' \<and> os_out st' = os_out st @ t \<and> touched sp 8 st st'"
  by (simp add: writes_def)

lemma writes_nothing: "writes sp Inr (Inr [])"
  by (simp add: writes_def touched_def)

lemma writes_then:
  assumes "writes sp p r" and "writes sp q r'"
  shows "writes sp (\<lambda>st. and_then (p st) q) (and_then r (\<lambda>t. and_then r' (\<lambda>t'. Inr (t @ t'))))"
proof (cases r)
  case (Inl f)
  then show ?thesis using writes_Inl [of sp p f] assms(1) by (simp add: writes_def and_then_def)
next
  case r: (Inr t)
  show ?thesis
  proof (cases r')
    case (Inl f)
    have "and_then (p st) q = Inl f" for st
      using writes_Inr [of sp p t st] writes_Inl [of sp q f] assms Inl r by (auto simp: and_then_def)
    then show ?thesis using r Inl by (simp add: writes_def and_then_def)
  next
    case (Inr t')
    have "\<exists>st'. and_then (p st) q = Inr st' \<and> os_out st' = os_out st @ t @ t' \<and> touched sp 8 st st'" for st
    proof -
      obtain st1 where "p st = Inr st1" "os_out st1 = os_out st @ t" "touched sp 8 st st1"
        using writes_Inr [of sp p t st] assms(1) r by blast
      moreover obtain st2 where "q st1 = Inr st2" "os_out st2 = os_out st1 @ t'" "touched sp 8 st1 st2"
        using writes_Inr [of sp q t' st1] assms(2) Inr by blast
      ultimately show ?thesis using touched_trans by simp
    qed
    then show ?thesis using r Inr by (simp add: writes_def and_then_def)
  qed
qed

lemma writes_after:
  assumes "\<And>v. r = Inr v \<Longrightarrow> writes sp (p v) (t v)"
  shows "writes sp (\<lambda>st. and_then r (\<lambda>v. p v st)) (and_then r t)"
  using assms by (cases r) (simp_all add: and_then_def writes_def)

lemma writes_for_each:
  assumes "\<And>x. x \<in> set xs \<Longrightarrow> writes sp (p x) (t x)"
  shows "writes sp (for_each p xs) (for_each (\<lambda>x out. and_then (t x) (\<lambda>b. Inr (out @ b))) xs [])"
  using assms
proof (induction xs rule: rev_induct)
  case Nil
  then show ?case by (simp add: writes_def touched_def)
next
  case (snoc x xs)
  have "writes sp (\<lambda>st. and_then (for_each p xs st) (p x))
      (and_then (for_each (\<lambda>x out. and_then (t x) (\<lambda>b. Inr (out @ b))) xs []) (\<lambda>u. and_then (t x) (\<lambda>b. Inr (u @ b))))"
    by (rule writes_then) (use snoc in simp_all)
  moreover have "for_each p (xs @ [x]) = (\<lambda>st. and_then (for_each p xs st) (p x))"
    by (rule ext) (simp add: for_each_append and_then_def split: sum.split)
  moreover have "for_each (\<lambda>x out. and_then (t x) (\<lambda>b. Inr (out @ b))) (xs @ [x]) [] =
      and_then (for_each (\<lambda>x out. and_then (t x) (\<lambda>b. Inr (out @ b))) xs []) (\<lambda>u. and_then (t x) (\<lambda>b. Inr (u @ b)))"
    by (simp add: for_each_append and_then_def split: sum.split)
  ultimately show ?case by simp
qed

lemma put_byte_writes:
  assumes "sp mod 8 = 0"
  shows "writes sp (put_byte h sp c) (Inr [ucast c])"
proof -
  have "\<exists>st'. put_byte h sp c st = Inr st' \<and> os_out st' = os_out st @ [ucast c] \<and> touched sp 8 st st'" for st
    using putchar_writes [OF assms, of h c st] by (auto simp: put_byte_def touched_def)
  then show ?thesis by (simp add: writes_def)
qed

lemma OutDig_writes:
  assumes "sp mod 8 = 0"
  shows "writes sp (OutDig h sp d) (out_dig d)"
proof -
  have "(ucast (word_of_int c :: quad) :: byte) = word_of_int c" for c
    by (simp add: unsigned_of_int word_of_int_eq_iff)
  then have "writes sp (put_byte h sp (word_of_int c)) (Inr [word_of_int c])" for c
    using put_byte_writes [OF assms, of h "word_of_int c"] by simp
  then show ?thesis unfolding OutDig_def [abs_def] out_dig_def by (rule writes_after)
qed

lemma PrintVal_writes:
  assumes "sp mod 8 = 0"
  shows "writes sp (PrintVal h sp v) (print_val v)"
proof (induction v rule: print_val.induct)
  case (1 v)
  let ?p = "if v > 9 then PrintVal h sp (v sdiv 10) else Inr" and ?t = "if v > 9 then print_val (v sdiv 10) else Inr []"
  have "writes sp ?p ?t" using 1 writes_nothing by simp
  moreover have "writes sp (\<lambda>st. and_then (c_mod v 10) (\<lambda>d. OutDig h sp d st)) (and_then (c_mod v 10) out_dig)"
    by (rule writes_after) (rule OutDig_writes [OF assms])
  ultimately have "writes sp (\<lambda>st. and_then (?p st) (\<lambda>st. and_then (c_mod v 10) (\<lambda>d. OutDig h sp d st)))
      (and_then ?t (\<lambda>t. and_then (and_then (c_mod v 10) out_dig) (\<lambda>t'. Inr (t @ t'))))"
    by (rule writes_then)
  moreover have "PrintVal h sp v = (\<lambda>st. and_then (?p st) (\<lambda>st. and_then (c_mod v 10) (\<lambda>d. OutDig h sp d st)))"
    by (rule ext) (subst PrintVal.simps, simp)
  moreover have "print_val v = and_then ?t (\<lambda>t. and_then (and_then (c_mod v 10) out_dig) (\<lambda>t'. Inr (t @ t')))"
    by (subst print_val.simps) (simp add: and_then_assoc)
  ultimately show ?case by simp
qed

lemma PrintShort_writes:
  assumes "sp mod 8 = 0"
  shows "writes sp (PrintShort h sp v) (print_short v)"
proof -
  have load: "(\<lambda>x out. and_then (arr_load buf x) (\<lambda>d. and_then (out_dig d) (\<lambda>b. Inr (out @ b)))) =
      (\<lambda>x out. and_then (and_then (arr_load buf x) out_dig) (\<lambda>b. Inr (out @ b)))" for buf
    by (simp add: and_then_assoc)
  show ?thesis
    unfolding PrintShort_def [abs_def] print_short_def load
  proof (rule writes_after)
    fix v :: "int list \<times> int"
    obtain buf w where v: "v = (buf, w)" by (cases v)
    show "writes sp (\<lambda>st. case v of (buf, _) \<Rightarrow> for_each (\<lambda>x st. and_then (arr_load buf x) (\<lambda>d. OutDig h sp d st)) [1, 0] st)
       (case v of (buf, _) \<Rightarrow> for_each (\<lambda>x out. and_then (and_then (arr_load buf x) out_dig) (\<lambda>b. Inr (out @ b))) [1, 0] [])"
      unfolding v prod.case by (rule writes_for_each) (rule writes_after, rule OutDig_writes [OF assms])
  qed
qed

lemma for_each_collect:
  "for_each (\<lambda>x out. and_then (t x) (\<lambda>b. Inr (out @ b))) xs ys =
     and_then (for_each (\<lambda>x out. and_then (t x) (\<lambda>b. Inr (out @ b))) xs []) (\<lambda>u. Inr (ys @ u))"
proof (induction xs arbitrary: ys)
  case (Cons x xs)
  show ?case
  proof (cases "t x")
    case (Inr b)
    show ?thesis using Cons.IH [of "ys @ b"] Cons.IH [of b] by (simp add: Inr and_then_assoc)
  qed simp
qed simp

lemma PrintNum_writes:
  assumes "sp mod 8 = 0"
  shows "writes sp (PrintNum h sp sz ds) (print_num sz ds)"
proof -
  let ?body = "\<lambda>x st. and_then (arr_load ds x) (\<lambda>d. PrintShort h sp d st)" and ?text = "\<lambda>x. and_then (arr_load ds x) print_short"
  let ?loop = "for_each (\<lambda>x out. and_then (?text x) (\<lambda>b. Inr (out @ b))) [1..<sz] []"
  note byte = put_byte_writes [OF assms, of h]
  have loop: "writes sp (for_each ?body [1..<sz]) ?loop"
    by (rule writes_for_each) (rule writes_after, rule PrintShort_writes [OF assms])
  note tail = writes_then [OF loop byte [of 10]]
  have "writes sp (PrintNum h sp sz ds)
      (and_then (Inr [ucast (0x33 :: quad)]) (\<lambda>t. and_then (and_then (Inr [ucast (0x2e :: quad)]) (\<lambda>t.
         and_then (and_then ?loop (\<lambda>t. and_then (Inr [ucast (10 :: quad)]) (\<lambda>t'. Inr (t @ t')))) (\<lambda>t'. Inr (t @ t'))))
         (\<lambda>t'. Inr (t @ t'))))"
    unfolding PrintNum_def [abs_def] by (rule writes_then [OF byte writes_then [OF byte tail]])
  moreover have "print_num sz ds = and_then ?loop (\<lambda>t. Inr ([0x33, 0x2e] @ t @ [10]))"
    unfolding print_num_def and_then_assoc [symmetric] for_each_collect [of ?text _ "[0x33, 0x2e]"]
    by (simp add: and_then_assoc)
  ultimately show ?thesis by (simp add: and_then_assoc)
qed

subsection \<open>The program\<close>

text \<open>Where the local variables of \<^verbatim>\<open>putchar\<close> and \<^verbatim>\<open>time\<close> and the string literals lie in the
  memory.\<close>

record places =
  put_at :: addr
  time_at :: addr
  lit_at :: "byte list \<Rightarrow> addr"

definition msg_usage :: "byte list" where
  "msg_usage = map of_char ''Syntax: ./prog2 <number>   - <number> indicates the number of digits to compute'' @ [10]"
definition msg_invalid :: "byte list" where
  "msg_invalid = map of_char ''Invalid argument - need <number>'' @ [10]"
definition msg_memory :: "byte list" where
  "msg_memory = map of_char ''Unable to allocate enough memory.'' @ [10]"
definition msg_time :: "byte list" where
  "msg_time = map of_char ''Calculation time ''"
definition msg_cycles :: "byte list" where
  "msg_cycles = map of_char '' cycles'' @ [10]"

definition run_then :: "(fault + 'a) option \<Rightarrow> ('a \<Rightarrow> (fault + 'b) option) \<Rightarrow> (fault + 'b) option" where
  "run_then r k = (case r of None \<Rightarrow> None | Some (Inl f) \<Rightarrow> Some (Inl f) | Some (Inr x) \<Rightarrow> k x)"

definition put_text :: "host \<Rightarrow> places \<Rightarrow> byte list \<Rightarrow> os \<Rightarrow> (fault + os) option" where
  "put_text h L msg st = run_then (c_puts h (lit_at L msg) st) (\<lambda>(_, st). Some (Inr st))"

text \<open>\<^verbatim>\<open>_main\<close> from its first \<^verbatim>\<open>malloc\<close> on: the exit code and the state. The clock is read by the
  host \<open>h\<close> first and by \<open>h'\<close> after the computation; \<open>uninit\<close> is what the three blocks hold when
  they are new. The blocks are lists beside \<open>os_bytes\<close>: they are taken to lie outside the literals and the two
  local variables, and each that does not fit under the stack is a fault.\<close>

definition main_sized :: "host \<Rightarrow> host \<Rightarrow> places \<Rightarrow> nat \<Rightarrow> addr \<Rightarrow> (nat \<Rightarrow> nat \<Rightarrow> int) \<Rightarrow> os \<Rightarrow> (fault + int \<times> os) option" where
  "main_sized h h' L sz brk uninit st =
     run_then (Some (malloc_call h (8 * word_of_nat sz) brk st)) (\<lambda>(p1, brk, st).
     run_then (Some (malloc_call h (8 * word_of_nat sz) brk st)) (\<lambda>(p2, brk, st).
     run_then (Some (malloc_call h (8 * word_of_nat sz) brk st)) (\<lambda>(p3, brk, st).
     if p1 = 0 \<or> p2 = 0 \<or> p3 = 0
     then run_then (put_text h L msg_memory st) (\<lambda>st. Some (Inr (1, st)))
     else if \<not> (block_fits sz p1 \<and> block_fits sz p2 \<and> block_fits sz p3)
     then Some (Inl Undefined_behaviour)
     else
     run_then (Some (c_time h (time_at L) st)) (\<lambda>(T1, st).
     run_then (compute_pi sz uninit) (\<lambda>ds.
     run_then (Some (c_time h' (time_at L) st)) (\<lambda>(T2, st).
     run_then (Some (PrintNum h' (put_at L) sz ds st)) (\<lambda>st.
     run_then (put_text h' L msg_time st) (\<lambda>st.
     run_then (Some (c_sub (sint T2) (sint T1))) (\<lambda>t.
     run_then (Some (PrintVal h' (put_at L) t st)) (\<lambda>st.
     run_then (put_text h' L msg_cycles st) (\<lambda>st. Some (Inr (0, st)))))))))))))"

definition main_call ::
  "host \<Rightarrow> host \<Rightarrow> places \<Rightarrow> int \<Rightarrow> addr \<Rightarrow> addr \<Rightarrow> (nat \<Rightarrow> nat \<Rightarrow> int) \<Rightarrow> os \<Rightarrow> (fault + int \<times> os) option" where
  "main_call h h' L argc argv brk uninit st =
     (if argc \<noteq> 2 then run_then (put_text h L msg_usage st) (\<lambda>st. Some (Inr (1, st)))
      else run_then (Some (mem_d_read (os_bytes st) (argv + 8))) (\<lambda>arg.
       run_then (c_atol (os_bytes st) arg) (\<lambda>n.
       if n \<le> 0 then run_then (put_text h L msg_invalid st) (\<lambda>st. Some (Inr (1, st)))
       else run_then (Some (number_size n)) (\<lambda>sz. main_sized h h' L sz brk uninit st))))"

text \<open>\<^verbatim>\<open>_start\<close> and \<^verbatim>\<open>__libc_start_main\<close>: the program break is asked for, \<^verbatim>\<open>_main\<close> runs,
  \<^verbatim>\<open>exit\<close> ends the run with its result.\<close>

definition libc_start_main ::
  "host \<Rightarrow> host \<Rightarrow> places \<Rightarrow> int \<Rightarrow> addr \<Rightarrow> (nat \<Rightarrow> nat \<Rightarrow> int) \<Rightarrow> os \<Rightarrow> (fault + int \<times> os) option" where
  "libc_start_main h h' L argc argv uninit st =
     run_then (Some (initial_brk h st)) (\<lambda>(brk, st).
     run_then (main_call h h' L argc argv brk uninit st) (\<lambda>(code, st).
     run_then (Some (c_exit h' (word_of_int code) st)) (\<lambda>(_, st). Some (Inr (code, st)))))"

definition start_run :: "host \<Rightarrow> host \<Rightarrow> places \<Rightarrow> (nat \<Rightarrow> nat \<Rightarrow> int) \<Rightarrow> os \<Rightarrow> (fault + int \<times> os) option" where
  "start_run h h' L uninit st =
     run_then (Some (mem_d_read (os_bytes st) stack_base)) (\<lambda>argc.
     libc_start_main h h' L (sint argc) (stack_base + 8) uninit st)"

subsection \<open>The program writes its text\<close>

lemma run_then_simps [simp]:
  "run_then None k = None" "run_then (Some (Inl f)) k = Some (Inl f)" "run_then (Some (Inr x)) k = k x"
  by (simp_all add: run_then_def)

definition messages :: "byte list list" where
  "messages = [msg_usage, msg_invalid, msg_memory, msg_time, msg_cycles]"

text \<open>The local variables are where a \<^verbatim>\<open>long long\<close> and a \<^verbatim>\<open>struct timespec\<close> can be, and every literal is
  in the memory, apart from both.\<close>

definition away :: "places \<Rightarrow> addr \<Rightarrow> bool" where
  "away L a \<longleftrightarrow> 8 \<le> unat (a - put_at L) \<and> 16 \<le> unat (a - time_at L)"

definition placed :: "places \<Rightarrow> (addr \<Rightarrow> byte) \<Rightarrow> bool" where
  "placed L bytes \<longleftrightarrow> put_at L mod 8 = 0 \<and> time_at L mod 8 = 0 \<and> time_at L \<le> mem_size - 16 \<and>
     (\<forall>m \<in> set messages. string_at bytes (lit_at L m) m \<and>
       (\<forall>i \<le> length m. away L (lit_at L m + word_of_nat i)))"

lemma messages_no_zero: "m \<in> set messages \<Longrightarrow> 0 \<notin> set m"
  by (auto simp: messages_def msg_usage_def msg_invalid_def msg_memory_def msg_time_def msg_cycles_def)

text \<open>\<open>wrote L text st st'\<close>: the step from \<open>st\<close> to \<open>st'\<close> gives \<open>text\<close> to the host and stores
  only into the local variables.\<close>

definition wrote :: "places \<Rightarrow> byte list \<Rightarrow> os \<Rightarrow> os \<Rightarrow> bool" where
  "wrote L text st st' \<longleftrightarrow> os_out st' = os_out st @ text \<and> (\<forall>a. away L a \<longrightarrow> os_bytes st' a = os_bytes st a)"

lemma wrote_trans: "wrote L t st st' \<Longrightarrow> wrote L t' st' st'' \<Longrightarrow> wrote L (t @ t') st st''"
  by (simp add: wrote_def)

lemma placed_wrote: "placed L (os_bytes st) \<Longrightarrow> wrote L t st st' \<Longrightarrow> placed L (os_bytes st')"
  by (auto simp: placed_def wrote_def string_at_def)

lemma writes_wrote: "writes (put_at L) p (Inr t) \<Longrightarrow> \<exists>st'. p st = Inr st' \<and> wrote L t st st'"
  by (fastforce simp: writes_def touched_def wrote_def away_def)

lemma put_text_wrote:
  assumes "placed L (os_bytes st)" and "m \<in> set messages"
  shows "\<exists>st'. put_text h L m st = Some (Inr st') \<and> wrote L m st st'"
proof -
  have "string_at (os_bytes st) (lit_at L m) m" using assms by (simp add: placed_def)
  from puts_writes [OF this messages_no_zero [OF assms(2)], of h] show ?thesis
    by (auto simp: put_text_def wrote_def)
qed

lemma time_wrote:
  assumes "placed L (os_bytes st)"
  shows "\<exists>st'. c_time h (time_at L) st = Inr (now h, st') \<and> wrote L [] st st'"
  using time_reads_clock [of "time_at L" h st] assms by (fastforce simp: placed_def wrote_def away_def)

lemma malloc_wrote:
  assumes "c_malloc n brk = (p, b)"
  shows "\<exists>st'. malloc_call h n brk st = Inr (p, b, st') \<and> wrote L [] st st'"
proof -
  obtain r st' where "guest_syscall h NR_brk b 0 0 st = Inr (r, st')" using guest_brk_total by blast
  then show ?thesis using guest_brk [of h b 0 0 st r st'] assms by (auto simp: malloc_call_def wrote_def)
qed

lemma initial_brk_value:
  assumes "unat (brk_val (os_glob st)) < 2 ^ 31"
  shows "\<exists>st'. initial_brk h st = Inr (brk_val (os_glob st), st') \<and> wrote L [] st st' \<and>
    os_bytes st' = os_bytes st"
proof -
  obtain r st' where r: "guest_syscall h NR_brk 0 0 0 st = Inr (r, st')" using guest_brk_total by blast
  let ?b = "brk_val (os_glob st)"
  have "uint ?b < 2 ^ 31" using assms by (simp only: unat_eq_nat_uint nat_less_iff uint_ge_0) simp
  moreover have "- (2 ^ 31) \<le> uint ?b" by (rule order_trans [OF _ uint_ge_0]) simp
  ultimately have "signed_take_bit 31 (uint ?b) = uint ?b" by (intro signed_take_bit_int_eq_self)
  then have "sint (ucast ?b :: cint) = uint ?b" by (simp add: sint_uint unsigned_ucast_eq signed_take_bit_take_bit)
  then have "word_of_int (sint (ucast ?b :: cint)) = ?b" by simp
  then have "(signed (ucast ?b :: cint) :: quad) = ?b" by (simp only: of_int_sint)
  then show ?thesis using guest_brk [OF r] r by (auto simp: initial_brk_def wrote_def max_def)
qed

text \<open>A run \<open>p\<close> does what \<open>r\<close> says: it does not end, it faults, or it has the exit code and gives the
  text to the host.\<close>

definition does :: "places \<Rightarrow> (fault + byte list \<times> int) option \<Rightarrow> (fault + int \<times> os) option \<Rightarrow> os \<Rightarrow> bool" where
  "does L r p st \<longleftrightarrow> (case r of None \<Rightarrow> p = None | Some (Inl f) \<Rightarrow> p = Some (Inl f)
     | Some (Inr (text, code)) \<Rightarrow> \<exists>st'. p = Some (Inr (code, st')) \<and> wrote L text st st')"

lemma does_simps:
  "does L None p st \<longleftrightarrow> p = None" "does L (Some (Inl f)) p st \<longleftrightarrow> p = Some (Inl f)"
  "does L (Some (Inr (text, code))) p st \<longleftrightarrow> (\<exists>st'. p = Some (Inr (code, st')) \<and> wrote L text st st')"
  by (simp_all add: does_def)

lemma does_message:
  assumes "placed L (os_bytes st)" and "m \<in> set messages"
  shows "does L (Some (Inr (m, c))) (run_then (put_text h L m st) (\<lambda>st. Some (Inr (c, st)))) st"
  using put_text_wrote [OF assms, of h] by (auto simp: does_simps)

lemma does_after:
  assumes "wrote L t st st'" and "does L (Some r) p st'"
  shows "does L (Some (and_then r (\<lambda>(t', c). Inr (t @ t', c)))) p st"
  using assms wrote_trans by (cases r) (fastforce simp: does_simps split: prod.splits)+

text \<open>The output after the computation.\<close>

lemma report_does:
  assumes "placed L (os_bytes st)"
  shows "does L (Some (and_then (print_num sz ds) (\<lambda>out. and_then (c_sub b a) (\<lambda>t. and_then (print_val t) (\<lambda>v.
       Inr (out @ msg_time @ v @ msg_cycles, 0))))))
     (run_then (Some (PrintNum h (put_at L) sz ds st)) (\<lambda>st.
      run_then (put_text h L msg_time st) (\<lambda>st.
      run_then (Some (c_sub b a)) (\<lambda>t.
      run_then (Some (PrintVal h (put_at L) t st)) (\<lambda>st.
      run_then (put_text h L msg_cycles st) (\<lambda>st. Some (Inr (0, st)))))))) st"
proof (cases "print_num sz ds")
  case (Inl f)
  have "PrintNum h (put_at L) sz ds st = Inl f"
    by (rule writes_Inl) (use PrintNum_writes [of "put_at L" h sz ds] assms Inl in \<open>simp add: placed_def\<close>)
  then show ?thesis using Inl by (simp add: does_simps)
next
  case num: (Inr out)
  have sp: "put_at L mod 8 = 0" using assms by (simp add: placed_def)
  obtain st1 where s1: "PrintNum h (put_at L) sz ds st = Inr st1" "wrote L out st st1"
    using writes_wrote [of L "PrintNum h (put_at L) sz ds" out st] PrintNum_writes [OF sp, of h sz ds] num by auto
  note p1 = placed_wrote [OF assms s1(2)]
  obtain st2 where s2: "put_text h L msg_time st1 = Some (Inr st2)" "wrote L msg_time st1 st2"
    using put_text_wrote [OF p1, of msg_time h] by (auto simp: messages_def)
  note p2 = placed_wrote [OF p1 s2(2)]
  show ?thesis
  proof (cases "c_sub b a")
    case (Inl f)
    then show ?thesis using num s1 s2 by (simp add: does_simps)
  next
    case t: (Inr t)
    show ?thesis
    proof (cases "print_val t")
      case (Inl f)
      have "PrintVal h (put_at L) t st2 = Inl f"
        by (rule writes_Inl) (use PrintVal_writes [OF sp, of h t] Inl in simp)
      then show ?thesis using num t Inl s1 s2 by (simp add: does_simps)
    next
      case v: (Inr v)
      obtain st3 where s3: "PrintVal h (put_at L) t st2 = Inr st3" "wrote L v st2 st3"
        using writes_wrote [of L "PrintVal h (put_at L) t" v st2] PrintVal_writes [OF sp, of h t] v by auto
      obtain st4 where s4: "put_text h L msg_cycles st3 = Some (Inr st4)" "wrote L msg_cycles st3 st4"
        using put_text_wrote [OF placed_wrote [OF p2 s3(2)], of msg_cycles h] by (auto simp: messages_def)
      have "wrote L (out @ msg_time @ v @ msg_cycles) st st4"
        by (intro wrote_trans [OF s1(2)] wrote_trans [OF s2(2)] wrote_trans [OF s3(2) s4(2)])
      then show ?thesis using num t v s1 s2 s3 s4 by (simp add: does_simps)
    qed
  qed
qed

lemma main_sized_does:
  assumes "placed L (os_bytes st)"
  shows "does L (prog2_run sz brk uninit (sint (now h), sint (now h'))) (main_sized h h' L sz brk uninit st) st"
proof -
  obtain p1 b1 where a1: "c_malloc (8 * word_of_nat sz) brk = (p1, b1)" by fastforce
  obtain p2 b2 where a2: "c_malloc (8 * word_of_nat sz) b1 = (p2, b2)" by fastforce
  obtain p3 b3 where a3: "c_malloc (8 * word_of_nat sz) b2 = (p3, b3)" by fastforce
  obtain s1 where s1: "malloc_call h (8 * word_of_nat sz) brk st = Inr (p1, b1, s1)" "wrote L [] st s1"
    using malloc_wrote [OF a1] by blast
  obtain s2 where s2: "malloc_call h (8 * word_of_nat sz) b1 s1 = Inr (p2, b2, s2)" "wrote L [] s1 s2"
    using malloc_wrote [OF a2] by blast
  obtain s3 where s3: "malloc_call h (8 * word_of_nat sz) b2 s2 = Inr (p3, b3, s3)" "wrote L [] s2 s3"
    using malloc_wrote [OF a3] by blast
  have w3: "wrote L [] st s3" using wrote_trans [OF s1(2) wrote_trans [OF s2(2) s3(2)]] by simp
  have p3: "placed L (os_bytes s3)" by (rule placed_wrote [OF assms w3])
  obtain s4 where s4: "c_time h (time_at L) s3 = Inr (now h, s4)" "wrote L [] s3 s4" using time_wrote [OF p3] by blast
  have p4: "placed L (os_bytes s4)" by (rule placed_wrote [OF p3 s4(2)])
  obtain s5 where s5: "c_time h' (time_at L) s4 = Inr (now h', s5)" "wrote L [] s4 s5" using time_wrote [OF p4] by blast
  have p5: "placed L (os_bytes s5)" by (rule placed_wrote [OF p4 s5(2)])
  have w5: "wrote L [] st s5" using wrote_trans [OF w3 wrote_trans [OF s4(2) s5(2)]] by simp
  have "does L (Some (Inr (msg_memory, 1))) (run_then (put_text h L msg_memory s3) (\<lambda>st. Some (Inr (1, st)))) s3"
    by (rule does_message [OF p3]) (simp add: messages_def)
  from does_after [OF w3 this] have no_memory:
    "does L (Some (Inr (msg_memory, 1))) (run_then (put_text h L msg_memory s3) (\<lambda>st. Some (Inr (1, st)))) st" by simp
  have same: "and_then r (\<lambda>(t', c). Inr ([] @ t', c)) = (r :: fault + byte list \<times> int)" for r by (cases r) auto
  note report = does_after [OF w5 report_does [OF p5, of sz _ "sint (now h')" "sint (now h)" h'], unfolded same]
  show ?thesis
    unfolding prog2_run_def main_sized_def Let_def a1 a2 a3 s1(1) s2(1) s3(1) split_conv run_then_simps fst_conv snd_conv
      msg_memory_def [symmetric] msg_time_def [symmetric] msg_cycles_def [symmetric]
    using no_memory report unfolding s4(1) s5(1)
    by (auto simp: s4(1) s5(1) does_simps split: option.split sum.split)
qed

lemma main_call_does:
  assumes "placed L (os_bytes st)"
  shows "does L (prog2_main (os_bytes st) argc argv brk uninit (sint (now h), sint (now h')))
     (main_call h h' L argc argv brk uninit st) st"
proof -
  have usage: "does L (Some (Inr (msg_usage, 1))) (run_then (put_text h L msg_usage st) (\<lambda>st. Some (Inr (1, st)))) st"
    by (rule does_message [OF assms]) (simp add: messages_def)
  have invalid: "does L (Some (Inr (msg_invalid, 1))) (run_then (put_text h L msg_invalid st) (\<lambda>st. Some (Inr (1, st)))) st"
    by (rule does_message [OF assms]) (simp add: messages_def)
  show ?thesis
    unfolding prog2_main_def main_call_def msg_usage_def [symmetric] msg_invalid_def [symmetric]
    using usage invalid main_sized_does [OF assms] by (auto simp: does_simps split: option.split sum.split)
qed

lemma exit_stops:
  "\<exists>r st'. c_exit h n st = Inr (r, st') \<and> os_out st' = os_out st \<and> os_bytes st' = os_bytes st \<and>
     last (sys_log (os_glob st')) = Sim_stop"
  by (simp add: c_exit_def guest_syscall_def core_syscall_def NR_defs Let_def)

lemma does_exit:
  assumes "does L r m s1" and "wrote L [] st s1"
  shows "does L r (run_then m (\<lambda>(code, st). run_then (Some (c_exit h (word_of_int code) st)) (\<lambda>(_, st). Some (Inr (code, st))))) st"
proof (cases r)
  case (Some v)
  show ?thesis
  proof (cases v)
    case (Inr w)
    obtain t code where w: "w = (t, code)" by (cases w)
    obtain s2 where s2: "m = Some (Inr (code, s2))" "wrote L t s1 s2"
      using assms(1) Some Inr w by (auto simp: does_simps)
    obtain x s3 where s3: "c_exit h (word_of_int code) s2 = Inr (x, s3)" "os_out s3 = os_out s2" "os_bytes s3 = os_bytes s2"
      using exit_stops [of h "word_of_int code" s2] by blast
    have "wrote L t st s3" using assms(2) s2(2) s3(2,3) by (simp add: wrote_def)
    then show ?thesis using Some Inr w s2(1) s3(1) by (simp add: does_simps)
  qed (use assms(1) Some in \<open>simp add: does_simps\<close>)
qed (use assms(1) in \<open>simp add: does_simps\<close>)

lemma start_main_does:
  assumes "placed L (os_bytes st)" and "unat (brk_val (os_glob st)) < 2 ^ 31"
  shows "does L (prog2_main (os_bytes st) argc argv (brk_val (os_glob st)) uninit (sint (now h), sint (now h')))
     (libc_start_main h h' L argc argv uninit st) st"
    and "libc_start_main h h' L argc argv uninit st = Some (Inr (code, st')) \<Longrightarrow> last (sys_log (os_glob st')) = Sim_stop"
proof -
  obtain s1 where s1: "initial_brk h st = Inr (brk_val (os_glob st), s1)" "wrote L [] st s1" "os_bytes s1 = os_bytes st"
    using initial_brk_value [OF assms(2)] by blast
  let ?m = "main_call h h' L argc argv (brk_val (os_glob st)) uninit s1"
  have run: "libc_start_main h h' L argc argv uninit st =
      run_then ?m (\<lambda>(code, st). run_then (Some (c_exit h' (word_of_int code) st)) (\<lambda>(_, st). Some (Inr (code, st))))"
    by (simp add: libc_start_main_def s1(1))
  have "does L (prog2_main (os_bytes st) argc argv (brk_val (os_glob st)) uninit (sint (now h), sint (now h'))) ?m s1"
    using main_call_does [of L s1] assms(1) s1(3) by simp
  then show "does L (prog2_main (os_bytes st) argc argv (brk_val (os_glob st)) uninit (sint (now h), sint (now h')))
     (libc_start_main h h' L argc argv uninit st) st"
    unfolding run by (rule does_exit) (rule s1(2))
  show "last (sys_log (os_glob st')) = Sim_stop" if ends: "libc_start_main h h' L argc argv uninit st = Some (Inr (code, st'))"
  proof -
    obtain c s2 where m: "?m = Some (Inr (c, s2))"
      using ends unfolding run by (auto simp: run_then_def split: option.splits sum.splits)
    then show ?thesis using ends exit_stops [of h' "word_of_int c" s2] unfolding run by auto
  qed
qed

lemma start_run_does:
  assumes "placed L (os_bytes st)" and "unat (brk_val (os_glob st)) < 2 ^ 31"
  shows "does L (guest_start (os_bytes st) (brk_val (os_glob st)) uninit (sint (now h), sint (now h')))
     (start_run h h' L uninit st) st"
  using start_main_does(1) [OF assms] by (auto simp: start_run_def guest_start_def does_simps split: sum.split)

lemma start_run_stops:
  assumes "placed L (os_bytes st)" and "unat (brk_val (os_glob st)) < 2 ^ 31"
    and "start_run h h' L uninit st = Some (Inr (code, st'))"
  shows "last (sys_log (os_glob st')) = Sim_stop"
  using assms(3) start_main_does(2) [OF assms(1,2)]
  by (auto simp: start_run_def run_then_def split: option.splits sum.splits)

subsection \<open>Properties of the guest\<close>

text \<open>C12: what the program hands to the host through the system calls is the text that the functions of
  the program compute, and the run ends, faults or has the exit code as they say, with the simulation
  stopped by \<^verbatim>\<open>exit\<close>. A number whose arrays reach the stack is a fault on both sides. The literals and
  the two local variables do not overlap, the three arrays are apart from them, and the program break fits the
  \<^verbatim>\<open>int\<close> that \<^verbatim>\<open>brk\<close> returns.\<close>

theorem calls_refine_text:
  assumes "placed L (os_bytes st)" and "unat (brk_val (os_glob st)) < 2 ^ 31"
  shows "case guest_start (os_bytes st) (brk_val (os_glob st)) uninit (sint (now h), sint (now h')) of
      None \<Rightarrow> start_run h h' L uninit st = None
    | Some (Inl f) \<Rightarrow> start_run h h' L uninit st = Some (Inl f)
    | Some (Inr (out, code)) \<Rightarrow> \<exists>st'. start_run h h' L uninit st = Some (Inr (code, st')) \<and>
        os_out st' = os_out st @ out \<and> last (sys_log (os_glob st')) = Sim_stop"
  using start_run_does [OF assms, of uninit h h'] start_run_stops [OF assms, of h h' uninit]
  by (fastforce simp: does_def wrote_def split: option.splits sum.splits prod.splits)

text \<open>C8: from the stack that the constructor of the memory sets up for \<^verbatim>\<open>prog2 N\<close>, the host is
  given a text that starts with the digits of a decimal fraction, \<open>N\<close> of them rounded up to an even number,
  that differs from \<open>pi\<close> only in its last few places, and the run stops with exit code 0; this holds for
  every \<open>N\<close> whose three arrays fit between the first program break and the stack.\<close>

theorem prog2_prints_pi:
  assumes "set_up_stack [name, ds] b0 = Inr (os_bytes st)" and "placed L (os_bytes st)"
    and "ds \<noteq> []" "\<forall>c \<in> set ds. digit_char c" "0 < decimal ds" and "0 < unat (brk_val (os_glob st))"
    and "int (unat (brk_val (os_glob st))) + 12 * decimal ds + 72 \<le> int (unat stack_base)"
    and "sint (now h) \<le> sint (now h')" "sint (now h') - sint (now h) < 2 ^ 63"
  shows "\<exists>st' qs more. start_run h h' L uninit st = Some (Inr (0, st')) \<and> last (sys_log (os_glob st')) = Sim_stop \<and>
    os_out st' = os_out st @ [0x33, 0x2e] @ qs @ [10] @ more \<and>
    length qs = 2 * nat ((decimal ds + 1) div 2) \<and> (\<forall>c \<in> set qs. digit_char c) \<and>
    \<bar>3 + decimal qs / 10 ^ length qs - pi\<bar> < (3 * ((decimal ds + 1) div 2) + 5) / 10 ^ length qs"
proof -
  have "int (unat (brk_val (os_glob st))) < 67107840" using assms(5,7) unfolding stack_base_nat by linarith
  moreover have "int n < 67107840 \<Longrightarrow> n < 2 ^ 31" for n by simp
  ultimately have small: "unat (brk_val (os_glob st)) < 2 ^ 31" by blast
  obtain qs more where qs: "guest_start (os_bytes st) (brk_val (os_glob st)) uninit (sint (now h), sint (now h')) =
      Some (Inr ([0x33, 0x2e] @ qs @ [10] @ more, 0))"
    and rest: "length qs = 2 * nat ((decimal ds + 1) div 2)" "\<forall>c \<in> set qs. digit_char c"
      "\<bar>3 + decimal qs / 10 ^ length qs - pi\<bar> < (3 * ((decimal ds + 1) div 2) + 5) / 10 ^ length qs"
    using start_prints_pi [OF assms(1,3-7), of "(sint (now h), sint (now h'))" uninit] assms(8,9) by auto
  obtain st' where "start_run h h' L uninit st = Some (Inr (0, st'))" "wrote L ([0x33, 0x2e] @ qs @ [10] @ more) st st'"
    using start_run_does [OF assms(2) small, of uninit h h'] unfolding qs does_simps by blast
  then show ?thesis using rest start_run_stops [OF assms(2) small] unfolding wrote_def by blast
qed

text \<open>A layout for the examples: every literal starts on the page of the number of its length.\<close>

definition sample_places :: places where
  "sample_places = \<lparr>put_at = 0x3000000, time_at = 0x3000100, lit_at = (\<lambda>m. word_of_nat (4096 * length m))\<rparr>"

definition sample_bytes :: "addr \<Rightarrow> byte" where
  "sample_bytes a = (case find (\<lambda>m. length m = unat a div 4096) messages of
     None \<Rightarrow> 0 | Some m \<Rightarrow> if unat a mod 4096 < length m then m ! (unat a mod 4096) else 0)"

lemma message_lengths: "map length messages = [80, 33, 34, 17, 8]"
  by (simp add: messages_def msg_usage_def msg_invalid_def msg_memory_def msg_time_def msg_cycles_def)

lemma sample_placed:
  assumes "\<And>x. x < stack_base \<Longrightarrow> bytes x = sample_bytes x"
  shows "placed sample_places bytes"
proof -
  have lit: "string_at bytes (lit_at sample_places m) m \<and>
      (\<forall>i \<le> length m. away sample_places (lit_at sample_places m + word_of_nat i))" if m: "m \<in> set messages" for m
  proof -
    have "length m \<in> set (map length messages)" using m by simp
    then have len: "length m \<le> 80" unfolding message_lengths by auto
    have "distinct (map length messages)" unfolding message_lengths by simp
    then have found: "find (\<lambda>m'. length m' = length m) messages = Some m"
      using m by (auto simp: find_Some_iff in_set_conv_nth distinct_conv_nth)
    have at: "unat (lit_at sample_places m + word_of_nat i) = 4096 * length m + i" if "i \<le> length m" for i
    proof -
      have "lit_at sample_places m + word_of_nat i = word_of_nat (4096 * length m + i)" by (simp add: sample_places_def)
      then show ?thesis using that len unat_of_nat_64 [of "4096 * length m + i"] by simp
    qed
    have val: "bytes (lit_at sample_places m + word_of_nat i) = (if i < length m then m ! i else 0)" if "i \<le> length m" for i
    proof -
      have "lit_at sample_places m + word_of_nat i < stack_base"
        unfolding word_less_nat_alt stack_base_nat at [OF that] using that len by simp
      moreover have "(4096 * length m + i) div 4096 = length m" "(4096 * length m + i) mod 4096 = i" using that len by simp_all
      ultimately show ?thesis using found by (simp add: assms sample_bytes_def at [OF that])
    qed
    have "away sample_places (lit_at sample_places m + word_of_nat i)" if "i \<le> length m" for i
    proof -
      have "unat (lit_at sample_places m + word_of_nat i) < unat (0x3000000 :: addr)"
        "unat (lit_at sample_places m + word_of_nat i) < unat (0x3000100 :: addr)"
        unfolding at [OF that] using that len by simp_all
      from unat_diff_before [OF this(1), of 8] unat_diff_before [OF this(2), of 16] show ?thesis
        by (simp add: away_def sample_places_def)
    qed
    then show ?thesis using val by (simp add: string_at_def)
  qed
  then show ?thesis by (simp add: placed_def) (simp add: sample_places_def mem_size_def)
qed

lemma sample_start: "\<exists>b. set_up_stack [[0x70], [0x31, 0x30]] sample_bytes = Inr b \<and> placed sample_places b"
proof -
  have "unat (stack_base + 32 :: addr) = 67107872" "unat (stack_base + 34 :: addr) = 67107874"
    by (simp_all add: stack_base_def mem_size_def)
  then obtain b where b: "set_up_stack [[0x70], [0x31, 0x30]] sample_bytes = Inr b"
    by (auto simp: set_up_stack_def and_then_def stack_base_def mem_size_def)
  then show ?thesis using sample_placed set_up_stack_args [OF b] by blast
qed

text \<open>The machine for the examples: the stack of \<^verbatim>\<open>p 10\<close>, the first program break in the middle of the
  memory.\<close>

definition sample_os :: "(addr \<Rightarrow> byte) \<Rightarrow> os" where
  "sample_os b = \<lparr>os_glob = globals_init\<lparr>brk_val := 0x2000000\<rparr>, os_bytes = b, os_out = []\<rparr>"

lemma sample_os_simps [simp]:
  "os_bytes (sample_os b) = b" "os_out (sample_os b) = []" "brk_val (os_glob (sample_os b)) = 0x2000000"
  by (simp_all add: sample_os_def)

theorem calls_refine_text_witness:
  "\<exists>st'. start_run \<lparr>host_write = (\<lambda>_ _ n. n), now = 3\<rparr> \<lparr>host_write = (\<lambda>_ _ n. n), now = 45\<rparr> sample_places (\<lambda>_ _. 7)
       (sample_os (store64 stack_base 1 sample_bytes)) = Some (Inr (1, st')) \<and>
     os_out st' = msg_usage \<and> last (sys_log (os_glob st')) = Sim_stop"
proof -
  let ?b = "store64 stack_base 1 sample_bytes"
  have "placed sample_places ?b" by (rule sample_placed) (simp add: store64_other word_less_nat_alt)
  then have placed: "placed sample_places (os_bytes (sample_os ?b))" by simp
  have al: "stack_base mod 8 = 0" by (simp add: stack_base_def mem_size_def)
  have "mem_d_read ?b stack_base = Inr 1" using mem_d_read_write [OF mem_d_write_store64 [OF al] al] by simp
  then have "guest_start ?b 0x2000000 (\<lambda>_ _. 7) (3, 45) = Some (Inr (msg_usage, 1))"
    by (simp only: guest_start_def prog2_main_def msg_usage_def sum.case) simp
  then show ?thesis
    using calls_refine_text [OF placed, where uninit = "\<lambda>_ _. 7" and h = "\<lparr>host_write = (\<lambda>_ _ n. n), now = 3\<rparr>"
      and h' = "\<lparr>host_write = (\<lambda>_ _ n. n), now = 45\<rparr>"]
    by simp
qed

theorem prog2_prints_pi_witness:
  "\<exists>b st' qs more. start_run \<lparr>host_write = (\<lambda>_ _ n. n), now = 3\<rparr> \<lparr>host_write = (\<lambda>_ _ n. n), now = 45\<rparr> sample_places
       (\<lambda>_ _. 7) (sample_os b) = Some (Inr (0, st')) \<and> last (sys_log (os_glob st')) = Sim_stop \<and>
     os_out st' = [0x33, 0x2e] @ qs @ [10] @ more \<and> length qs = 10 \<and> \<bar>3 + decimal qs / 10 ^ 10 - pi\<bar> < 20 / 10 ^ 10"
proof -
  obtain b where b: "set_up_stack [[0x70], [0x31, 0x30]] sample_bytes = Inr (os_bytes (sample_os b))"
    and placed: "placed sample_places (os_bytes (sample_os b))" using sample_start by auto
  have d: "decimal [0x31, 0x30] = 10" by (simp add: decimal_def)
  have "\<exists>st' qs more. start_run \<lparr>host_write = (\<lambda>_ _ n. n), now = 3\<rparr> \<lparr>host_write = (\<lambda>_ _ n. n), now = 45\<rparr> sample_places
      (\<lambda>_ _. 7) (sample_os b) = Some (Inr (0, st')) \<and> last (sys_log (os_glob st')) = Sim_stop \<and>
    os_out st' = os_out (sample_os b) @ [0x33, 0x2e] @ qs @ [10] @ more \<and>
    length qs = 2 * nat ((10 + 1) div 2) \<and> (\<forall>c \<in> set qs. digit_char c) \<and>
    \<bar>3 + decimal qs / 10 ^ length qs - pi\<bar> < real_of_int (3 * ((10 + 1) div 2) + 5) / 10 ^ length qs"
    by (rule prog2_prints_pi [OF b placed, unfolded d]) (simp_all add: digit_char_range)
  then show ?thesis by (intro exI [of _ b]) (elim ex_forward, auto)
qed

end
