(* ===== verification/Sram.thy ===== *)
theory Sram
  imports Prelude
begin

text \<open>
  The pipelined memory of the warm-up project (\<^verbatim>\<open>warmup-project/sram.h\<close>), for one port: an
  array of rows and a ring of \<^verbatim>\<open>Delay\<close> output registers. On an enabled edge the row is written,
  when asked to, and read into the slot the ring pointer stands at; then the pointer moves on and
  the slot it reaches is driven on \<^verbatim>\<open>dout\<close>.
\<close>

text \<open>\<^verbatim>\<open>delay\<close>: the factor for several ports is a \<^verbatim>\<open>double\<close>, here in tenths.\<close>

definition sram_delay :: "int \<Rightarrow> nat \<Rightarrow> int" where
  "sram_delay depthLog2 ports =
     (if depthLog2 - 8 > 0 then depthLog2 - 8 else 1)
     * (if ports > 1 then (if ports > 2 then (if ports > 3 then 100 else 20) else 14) else 10) div 10"

record ('i, 'a) sram =
  rows :: "'i \<Rightarrow> 'a"
  ring :: "'a list"
  pipe_ptr :: nat
  dout :: 'a

record ('i, 'a) sram_in =
  ena :: bool
  we :: bool
  addr_in :: 'i
  din :: 'a

definition sram_new :: "nat \<Rightarrow> 'a \<Rightarrow> ('i, 'a) sram" where
  "sram_new delay z = \<lparr>rows = (\<lambda>_. z), ring = replicate delay z, pipe_ptr = 0, dout = z\<rparr>"

definition sram_work :: "('i, 'a) sram_in \<Rightarrow> ('i, 'a) sram \<Rightarrow> ('i, 'a) sram" where
  "sram_work i m =
     (let m = (if \<not> ena i then m
               else (let m = (if we i then m\<lparr>rows := (rows m)(addr_in i := din i)\<rparr> else m)
                     in m\<lparr>ring := (ring m)[pipe_ptr m := rows m (addr_in i)]\<rparr>));
          m = m\<lparr>pipe_ptr := (pipe_ptr m + 1) mod length (ring m)\<rparr>
      in m\<lparr>dout := ring m ! pipe_ptr m\<rparr>)"

definition sram_inv :: "nat \<Rightarrow> ('i, 'a) sram \<Rightarrow> bool" where
  "sram_inv d m \<longleftrightarrow> 0 < d \<and> length (ring m) = d \<and> pipe_ptr m < d"

lemma sram_work_fields:
  "rows (sram_work i m) = (if ena i \<and> we i then (rows m)(addr_in i := din i) else rows m)"
  "ring (sram_work i m) = (if ena i then (ring m)[pipe_ptr m := rows (sram_work i m) (addr_in i)] else ring m)"
  "pipe_ptr (sram_work i m) = (pipe_ptr m + 1) mod length (ring m)"
  "dout (sram_work i m) = ring (sram_work i m) ! pipe_ptr (sram_work i m)"
  by (simp_all add: sram_work_def Let_def)

lemma sram_inv_work: "sram_inv d m \<Longrightarrow> sram_inv d (sram_work i m)"
  by (auto simp: sram_inv_def sram_work_fields)

lemma sram_inv_new [simp]: "sram_inv d (sram_new d z) \<longleftrightarrow> 0 < d"
  by (simp add: sram_inv_def sram_new_def)

lemma sram_fold_ptr:
  assumes "sram_inv d m"
  shows "pipe_ptr (fold sram_work is m) = (pipe_ptr m + length is) mod d \<and> sram_inv d (fold sram_work is m)"
  using assms
proof (induction "is" arbitrary: m)
  case Nil
  then show ?case by (simp add: sram_inv_def)
next
  case (Cons i "is")
  have "pipe_ptr (sram_work i m) = (pipe_ptr m + 1) mod d"
    using Cons.prems by (simp add: sram_work_fields sram_inv_def)
  then show ?case using Cons.IH [OF sram_inv_work [OF Cons.prems]]
    by (simp add: mod_add_left_eq)
qed

text \<open>A slot is not touched while the pointer is elsewhere.\<close>

lemma sram_fold_slot:
  assumes "sram_inv d m" and "p < d" and "\<forall>k < length is. (pipe_ptr m + k) mod d \<noteq> p"
  shows "ring (fold sram_work is m) ! p = ring m ! p"
  using assms
proof (induction "is" arbitrary: m)
  case Nil
  then show ?case by simp
next
  case (Cons i "is")
  have ptr: "pipe_ptr (sram_work i m) = (pipe_ptr m + 1) mod d"
    using Cons.prems(1) by (simp add: sram_work_fields sram_inv_def)
  have "pipe_ptr m \<noteq> p" using Cons.prems(1,3) by (auto simp: sram_inv_def dest: spec [of _ 0])
  then have slot: "ring (sram_work i m) ! p = ring m ! p" by (simp add: sram_work_fields)
  have "\<forall>k < length is. (pipe_ptr (sram_work i m) + k) mod d \<noteq> p"
  proof (intro allI impI)
    fix k assume "k < length is"
    then have "(pipe_ptr m + Suc k) mod d \<noteq> p" using Cons.prems(3) by auto
    then show "(pipe_ptr (sram_work i m) + k) mod d \<noteq> p" by (simp add: ptr mod_add_left_eq)
  qed
  from Cons.IH [OF sram_inv_work [OF Cons.prems(1)] Cons.prems(2) this] slot show ?case by simp
qed

lemma sram_read_later:
  assumes "sram_inv d m" and "ena i" and "length is = d - 1"
  shows "dout (fold sram_work is (sram_work i m)) =
    (if we i then din i else rows m (addr_in i))"
proof -
  let ?m = "sram_work i m"
  have d: "0 < d" "pipe_ptr m < d" "length (ring m) = d" using assms(1) by (simp_all add: sram_inv_def)
  have inv: "sram_inv d ?m" by (rule sram_inv_work [OF assms(1)])
  have ptr: "pipe_ptr ?m = (pipe_ptr m + 1) mod d" using d by (simp add: sram_work_fields)
  have slot: "ring ?m ! pipe_ptr m = (if we i then din i else rows m (addr_in i))"
    using assms(2) d by (simp add: sram_work_fields)
  have wrapped: "(pipe_ptr m + 1 + (d - 1)) mod d = pipe_ptr m" using d by simp
  show ?thesis
  proof (cases "is" rule: rev_cases)
    case Nil
    then have "d = 1" using assms(3) d by simp
    then show ?thesis using slot ptr d Nil by (simp add: sram_work_fields(4) [of i m])
  next
    case (snoc js j)
    have len: "Suc (length js) = d - 1" using assms(3) snoc by simp
    let ?f = "fold sram_work js ?m"
    have other: "(pipe_ptr ?m + k) mod d \<noteq> pipe_ptr m" if "k < d - 1" for k
    proof -
      have "(pipe_ptr ?m + k) mod d = (pipe_ptr m + Suc k) mod d" by (simp add: ptr mod_add_left_eq)
      moreover have "(pipe_ptr m + Suc k) mod d \<noteq> pipe_ptr m"
        using that d by (cases "pipe_ptr m + Suc k < d") (auto simp: mod_if)
      ultimately show ?thesis by simp
    qed
    have "ring (fold sram_work is ?m) ! pipe_ptr m = ring ?m ! pipe_ptr m"
      by (rule sram_fold_slot [OF inv d(2)]) (use other assms(3) in simp)
    moreover have "pipe_ptr (fold sram_work is ?m) = pipe_ptr m"
      using sram_fold_ptr [OF inv, of "is"] wrapped assms(3) by (simp add: ptr mod_add_left_eq)
    moreover have "dout (fold sram_work is ?m) = ring (fold sram_work is ?m) ! pipe_ptr (fold sram_work is ?m)"
      by (simp add: snoc sram_work_fields(4) [of j])
    ultimately show ?thesis using slot by simp
  qed
qed

text \<open>What is read on an enabled edge appears on the output after \<^verbatim>\<open>Delay\<close> - 1 more edges,
  whatever these do; a write on the same edge is read through.\<close>

lemma sram_latency:
  assumes "sram_inv d m" and "ena i" and "length is = d - 1"
  shows "dout (fold sram_work is (sram_work i m)) =
    (if we i then din i else rows m (addr_in i))"
  using assms by (rule sram_read_later)

end
