(* ===== verification/WarmCache.thy ===== *)
theory WarmCache
  imports Sram
begin

text \<open>
  The cache of the warm-up project (\<^verbatim>\<open>warmup-project/cache.h\<close>, class \<^verbatim>\<open>CacheProject\<close>): a
  controller in front of two sets of data, state and tag memories, for one port. A signal that the
  controller writes is seen by everybody, itself included, from the next clock edge on, so
  \<^verbatim>\<open>port_available\<close> is read with its old value; a plain member changes at once. With
  \<^verbatim>\<open>depthLog2\<close> = 4 and one port the memories have a delay of one edge.

  The six memories share their enable, write, address and data signals in pairs: the signals of
  \<open>lane\<close> go to the memory of both sets.
\<close>

type_synonym index = "4 word"
type_synonym block = "512 word"

record warm_in =
  in_ena :: bool
  in_addr :: addr
  in_is_insert :: bool
  in_has_data :: bool
  in_data :: block
  in_needs_data :: bool
  in_update_state :: bool
  in_new_state :: byte

type_synonym 'a lane = "(index, 'a) sram_in"

record warm_ctl =
  servaddr :: addr
  newstate :: byte
  temptag0 :: quad
  temptag1 :: quad
  newdata :: block
  waitdelay :: int
  deassertoutput :: bool
  operation :: nat
  opstate :: nat
  victim_set :: nat
  port_available :: bool
  data_lane :: "block lane"
  state_lane :: "byte lane"
  tag_lane :: "quad lane"
  out_ready :: bool
  out_addr :: addr
  out_data :: block
  out_token :: addr
  out_state :: byte

record warm =
  ctl :: warm_ctl
  data_set1 :: "(index, block) sram"
  state_set1 :: "(index, byte) sram"
  tag_set1 :: "(index, quad) sram"
  data_set2 :: "(index, block) sram"
  state_set2 :: "(index, byte) sram"
  tag_set2 :: "(index, quad) sram"

text \<open>The outputs of the six memories, as the controller reads them.\<close>

record warm_douts =
  data1 :: block
  state1 :: byte
  tag1 :: quad
  data2 :: block
  state2 :: byte
  tag2 :: quad

definition index_of :: "addr \<Rightarrow> index" where
  "index_of a = ucast (drop_bit 6 (a AND 0x3C0))"

definition tag_of :: "addr \<Rightarrow> quad" where
  "tag_of a = a AND NOT 0x3FF"

definition Delay :: int where "Delay = sram_delay 4 1"

definition set_ena :: "bool \<Rightarrow> 'a lane \<Rightarrow> 'a lane" where
  "set_ena b l = l\<lparr>ena := b\<rparr>"

definition set_we :: "bool \<Rightarrow> 'a lane \<Rightarrow> 'a lane" where
  "set_we b l = l\<lparr>we := b\<rparr>"

definition write_lane :: "index \<Rightarrow> 'a \<Rightarrow> 'a lane \<Rightarrow> 'a lane" where
  "write_lane a v l = \<lparr>ena = True, we = True, addr_in = a, din = v\<rparr>"

definition read_lane :: "index \<Rightarrow> 'a lane \<Rightarrow> 'a lane" where
  "read_lane a l = l\<lparr>ena := True, addr_in := a\<rparr>"

definition idle_lane :: "'a lane \<Rightarrow> 'a lane" where
  "idle_lane l = l\<lparr>ena := False, we := False\<rparr>"

definition temptag :: "warm_ctl \<Rightarrow> quad" where
  "temptag c = (if victim_set c = 0 then temptag0 c else temptag1 c)"

definition state_dout :: "warm_ctl \<Rightarrow> warm_douts \<Rightarrow> byte" where
  "state_dout c q = (if victim_set c = 0 then state1 q else state2 q)"

subsection \<open>The operations\<close>

text \<open>The answer of an operation; it leaves the controller free.\<close>

definition answer :: "byte \<Rightarrow> addr \<Rightarrow> warm_ctl \<Rightarrow> warm_ctl" where
  "answer st a c = c\<lparr>out_ready := True, deassertoutput := True, out_state := st,
     out_token := servaddr c, out_addr := a, operation := 0, opstate := 0, waitdelay := 0\<rparr>"

definition finish_insert :: "warm_douts \<Rightarrow> warm_ctl \<Rightarrow> warm_ctl" where
  "finish_insert q c = answer (state_dout c q) (temptag c)
     (c\<lparr>state_lane := idle_lane (state_lane c), data_lane := idle_lane (data_lane c),
        tag_lane := idle_lane (tag_lane c)\<rparr>)"

definition finish_read :: "warm_douts \<Rightarrow> warm_ctl \<Rightarrow> warm_ctl" where
  "finish_read q c =
     (let c = c\<lparr>temptag0 := tag1 q, temptag1 := tag2 q\<rparr>;
          c = (if temptag0 c = tag_of (servaddr c)
               then (answer (state1 q) (temptag0 c) c)
                      \<lparr>victim_set := (victim_set c + 1) mod 2, out_data := data1 q\<rparr>
               else if temptag1 c = tag_of (servaddr c)
               then (answer (state2 q) (temptag1 c) c)
                      \<lparr>victim_set := (victim_set c + 1) mod 2, out_data := data2 q\<rparr>
               else (answer 0xff (temptag c) c)
                      \<lparr>out_data := if victim_set c = 0 then data1 q else data2 q\<rparr>)
      in c\<lparr>data_lane := set_ena False (data_lane c), state_lane := set_ena False (state_lane c),
           tag_lane := set_ena False (tag_lane c)\<rparr>)"

text \<open>The second phase of a write probe, of an update: tags have been read.\<close>

definition probe_tags :: "warm_douts \<Rightarrow> warm_ctl \<Rightarrow> warm_ctl" where
  "probe_tags q c = c\<lparr>tag_lane := idle_lane (tag_lane c), out_ready := False, deassertoutput := False,
     temptag0 := tag1 q, temptag1 := tag2 q\<rparr>"

definition hit :: "warm_ctl \<Rightarrow> bool" where
  "hit c \<longleftrightarrow> temptag0 c = tag_of (servaddr c) \<or> temptag1 c = tag_of (servaddr c)"

definition write_step :: "warm_douts \<Rightarrow> warm_ctl \<Rightarrow> warm_ctl" where
  "write_step q c =
     (if opstate c = 1
      then (let c = probe_tags q c; k = index_of (servaddr c) in
            if hit c
            then c\<lparr>victim_set := (victim_set c + 1) mod 2,
                   state_lane := write_lane k (newstate c) (state_lane c),
                   data_lane := write_lane k (newdata c) (data_lane c),
                   opstate := 2, waitdelay := Delay, port_available := False\<rparr>
            else answer 0xff (temptag c) c)
      else if opstate c = 2
      then answer (state_dout c q) (temptag c)
             (c\<lparr>state_lane := idle_lane (state_lane c), data_lane := idle_lane (data_lane c)\<rparr>)
      else c)"

definition update_step :: "warm_douts \<Rightarrow> warm_ctl \<Rightarrow> warm_ctl" where
  "update_step q c =
     (if opstate c = 1
      then (let c = probe_tags q c; k = index_of (servaddr c) in
            if hit c
            then c\<lparr>state_lane := write_lane k (newstate c) (state_lane c),
                   opstate := 2, waitdelay := Delay, port_available := False\<rparr>
            else answer 0xff (temptag c) c)
      else if opstate c = 2
      then answer (state_dout c q) (temptag c) (c\<lparr>state_lane := idle_lane (state_lane c)\<rparr>)
      else c)"

text \<open>A new request, when the port was available.\<close>

definition accept :: "warm_in \<Rightarrow> warm_ctl \<Rightarrow> warm_ctl" where
  "accept i c =
     (let k = index_of (in_addr i);
          start = (\<lambda>n s c. c\<lparr>operation := n, opstate := s, waitdelay := Delay, servaddr := in_addr i,
                    port_available := False, out_ready := False\<rparr>)
      in if in_is_insert i \<and> in_has_data i \<and> in_update_state i
         then (start 1 0 c)\<lparr>newstate := in_new_state i, newdata := in_data i,
                data_lane := write_lane k (in_data i) (data_lane c),
                state_lane := write_lane k (in_new_state i) (state_lane c),
                tag_lane := write_lane k (tag_of (in_addr i)) (tag_lane c)\<rparr>
         else if in_needs_data i
         then (start 2 0 c)\<lparr>data_lane := read_lane k (data_lane c),
                state_lane := read_lane k (state_lane c), tag_lane := read_lane k (tag_lane c)\<rparr>
         else if in_has_data i \<and> in_update_state i
         then (start 3 1 c)\<lparr>newstate := in_new_state i, newdata := in_data i,
                tag_lane := read_lane k (tag_lane c)\<rparr>
         else if in_update_state i
         then (start 4 1 c)\<lparr>newstate := in_new_state i, tag_lane := read_lane k (tag_lane c)\<rparr>
         else c)"

definition cache_work :: "warm_in \<Rightarrow> warm_douts \<Rightarrow> warm_ctl \<Rightarrow> warm_ctl" where
  "cache_work i q c =
     (let available = port_available c;
          c = (if deassertoutput c then c\<lparr>out_ready := False, deassertoutput := False\<rparr> else c)
      in if waitdelay c > 0
         then c\<lparr>waitdelay := waitdelay c - 1, port_available := False, out_ready := False\<rparr>
         else (let c = (if waitdelay c = 0
                        then (let c = c\<lparr>port_available := True\<rparr> in
                              if operation c = 1 then finish_insert q c
                              else if operation c = 2 then finish_read q c
                              else if operation c = 3 then write_step q c
                              else if operation c = 4 then update_step q c
                              else c)
                        else c)
               in if in_ena i \<and> available then accept i c else c))"

subsection \<open>The module on a clock edge\<close>

definition douts :: "warm \<Rightarrow> warm_douts" where
  "douts w = \<lparr>data1 = dout (data_set1 w), state1 = dout (state_set1 w), tag1 = dout (tag_set1 w),
     data2 = dout (data_set2 w), state2 = dout (state_set2 w), tag2 = dout (tag_set2 w)\<rparr>"

definition warm_edge :: "warm_in \<Rightarrow> warm \<Rightarrow> warm" where
  "warm_edge i w =
     \<lparr>ctl = cache_work i (douts w) (ctl w),
      data_set1 = sram_work (data_lane (ctl w)) (data_set1 w),
      state_set1 = sram_work (state_lane (ctl w)) (state_set1 w),
      tag_set1 = sram_work (tag_lane (ctl w)) (tag_set1 w),
      data_set2 = sram_work (data_lane (ctl w)) (data_set2 w),
      state_set2 = sram_work (state_lane (ctl w)) (state_set2 w),
      tag_set2 = sram_work (tag_lane (ctl w)) (tag_set2 w)\<rparr>"

text \<open>
  The constructor sets \<^verbatim>\<open>set\<close> and \<^verbatim>\<open>port_available\<close> only; the first values of the other
  members that the controller tests are arguments.
\<close>

definition lane_new :: "'a \<Rightarrow> 'a lane" where
  "lane_new z = \<lparr>ena = False, we = False, addr_in = 0, din = z\<rparr>"

definition warm_new :: "int \<Rightarrow> nat \<Rightarrow> nat \<Rightarrow> bool \<Rightarrow> warm" where
  "warm_new wd oper opst deassert =
     \<lparr>ctl = \<lparr>servaddr = 0, newstate = 0, temptag0 = 0, temptag1 = 0, newdata = 0, waitdelay = wd,
        deassertoutput = deassert, operation = oper, opstate = opst, victim_set = 0,
        port_available = True, data_lane = lane_new 0, state_lane = lane_new 0, tag_lane = lane_new 0,
        out_ready = False, out_addr = 0, out_data = 0, out_token = 0, out_state = 0\<rparr>,
      data_set1 = sram_new 1 0, state_set1 = sram_new 1 0, tag_set1 = sram_new 1 0,
      data_set2 = sram_new 1 0, state_set2 = sram_new 1 0, tag_set2 = sram_new 1 0\<rparr>"

subsection \<open>The two sets are one\<close>

definition sets_equal :: "warm \<Rightarrow> bool" where
  "sets_equal w \<longleftrightarrow> data_set1 w = data_set2 w \<and> state_set1 w = state_set2 w \<and> tag_set1 w = tag_set2 w"

lemma sets_equal_edge: "sets_equal w \<Longrightarrow> sets_equal (warm_edge i w)"
  by (simp add: sets_equal_def warm_edge_def)

subsection \<open>Insert, then read\<close>

text \<open>The controller is free, the lanes are off, the memories have their delay of one.\<close>

definition warm_idle :: "warm \<Rightarrow> bool" where
  "warm_idle w \<longleftrightarrow> waitdelay (ctl w) = 0 \<and> operation (ctl w) = 0 \<and> port_available (ctl w) \<and>
     \<not> ena (data_lane (ctl w)) \<and> \<not> ena (state_lane (ctl w)) \<and> \<not> ena (tag_lane (ctl w)) \<and>
     \<not> we (data_lane (ctl w)) \<and> \<not> we (state_lane (ctl w)) \<and> \<not> we (tag_lane (ctl w)) \<and>
     victim_set (ctl w) < 2 \<and>
     sram_inv 1 (data_set1 w) \<and> sram_inv 1 (state_set1 w) \<and> sram_inv 1 (tag_set1 w) \<and>
     sram_inv 1 (data_set2 w) \<and> sram_inv 1 (state_set2 w) \<and> sram_inv 1 (tag_set2 w)"

lemma Delay_1 [simp]: "Delay = 1"
  by (simp add: Delay_def sram_delay_def)

text \<open>With a delay of one edge the output is the row itself.\<close>

lemma sram1_work:
  assumes "sram_inv 1 m"
  shows "rows (sram_work i m) = (if ena i \<and> we i then (rows m)(addr_in i := din i) else rows m)"
    and "ena i \<Longrightarrow> dout (sram_work i m) = (if we i then din i else rows m (addr_in i))"
    and "sram_inv 1 (sram_work i m)"
  using sram_read_later [OF assms, of i "[]"] sram_inv_work [OF assms] by (simp_all add: sram_work_fields(1))

lemma lane_fields [simp]:
  "ena (idle_lane l) = False" "we (idle_lane l) = False"
  "ena (write_lane a v l) = True" "we (write_lane a v l) = True"
  "addr_in (write_lane a v l) = a" "din (write_lane a v l) = v"
  "ena (read_lane a l) = True" "we (read_lane a l) = we l" "addr_in (read_lane a l) = a"
  "ena (set_ena b l) = b" "we (set_ena b l) = we l"
  by (simp_all add: idle_lane_def write_lane_def read_lane_def set_ena_def)

lemma warm_edge_fields [simp]:
  "ctl (warm_edge i w) = cache_work i (douts w) (ctl w)"
  "data_set1 (warm_edge i w) = sram_work (data_lane (ctl w)) (data_set1 w)"
  "state_set1 (warm_edge i w) = sram_work (state_lane (ctl w)) (state_set1 w)"
  "tag_set1 (warm_edge i w) = sram_work (tag_lane (ctl w)) (tag_set1 w)"
  "data_set2 (warm_edge i w) = sram_work (data_lane (ctl w)) (data_set2 w)"
  "state_set2 (warm_edge i w) = sram_work (state_lane (ctl w)) (state_set2 w)"
  "tag_set2 (warm_edge i w) = sram_work (tag_lane (ctl w)) (tag_set2 w)"
  by (simp_all add: warm_edge_def)

lemma cache_work_idle:
  assumes "waitdelay c = 0" "operation c = 0" "port_available c"
  shows "cache_work i q c = (let c' = (if deassertoutput c then c\<lparr>out_ready := False, deassertoutput := False\<rparr> else c)
     in if in_ena i then accept i (c'\<lparr>port_available := True\<rparr>) else c'\<lparr>port_available := True\<rparr>)"
  using assms by (simp add: cache_work_def Let_def)

lemma cache_work_wait:
  assumes "waitdelay c = 1"
  shows "cache_work i q c = (let c' = (if deassertoutput c then c\<lparr>out_ready := False, deassertoutput := False\<rparr> else c)
     in c'\<lparr>waitdelay := 0, port_available := False, out_ready := False\<rparr>)"
  using assms by (simp add: cache_work_def Let_def)

text \<open>The states between the edges of an insertion and of a read.\<close>

definition mems_ok :: "warm \<Rightarrow> bool" where
  "mems_ok w \<longleftrightarrow> sram_inv 1 (data_set1 w) \<and> sram_inv 1 (state_set1 w) \<and> sram_inv 1 (tag_set1 w) \<and>
     sram_inv 1 (data_set2 w) \<and> sram_inv 1 (state_set2 w) \<and> sram_inv 1 (tag_set2 w)"

lemma mems_ok_edge: "mems_ok w \<Longrightarrow> mems_ok (warm_edge i w)"
  by (simp add: mems_ok_def sram_inv_work)

definition inserting :: "int \<Rightarrow> addr \<Rightarrow> block \<Rightarrow> byte \<Rightarrow> warm_ctl \<Rightarrow> bool" where
  "inserting n a v s c \<longleftrightarrow> waitdelay c = n \<and> operation c = 1 \<and> \<not> port_available c \<and> servaddr c = a \<and>
     victim_set c < 2 \<and>
     (\<exists>l. data_lane c = write_lane (index_of a) v l) \<and> (\<exists>l. state_lane c = write_lane (index_of a) s l) \<and>
     (\<exists>l. tag_lane c = write_lane (index_of a) (tag_of a) l)"

lemma insert_first:
  assumes "warm_idle w" "in_ena i" "in_is_insert i" "in_has_data i" "in_update_state i"
  shows "inserting 1 (in_addr i) (in_data i) (in_new_state i) (ctl (warm_edge i w))"
proof -
  have c: "waitdelay (ctl w) = 0" "operation (ctl w) = 0" "port_available (ctl w)" "victim_set (ctl w) < 2"
    using assms(1) by (simp_all add: warm_idle_def)
  show ?thesis using assms(2-) c(4)
    by (auto simp: cache_work_idle [OF c(1-3)] accept_def inserting_def Let_def)
qed

lemma insert_second:
  assumes "inserting 1 a v s (ctl w)"
  shows "inserting 0 a v s (ctl (warm_edge i w))"
proof -
  have c: "waitdelay (ctl w) = 1" using assms by (simp add: inserting_def)
  show ?thesis using assms by (simp add: cache_work_wait [OF c] inserting_def Let_def)
qed

lemma insert_third:
  assumes "inserting 0 a v s (ctl w)" and "mems_ok w"
  shows "warm_idle (warm_edge i w) \<and> out_ready (ctl (warm_edge i w)) \<and> out_token (ctl (warm_edge i w)) = a"
  using assms
  by (auto simp: inserting_def cache_work_def finish_insert_def answer_def warm_idle_def mems_ok_def Let_def
      intro: sram_inv_work)


text \<open>The rows of a memory pair after three edges of an insertion.\<close>

lemma insert_rows:
  assumes "warm_idle w" "in_ena i" "in_is_insert i" "in_has_data i" "in_update_state i"
    and "w3 = warm_edge k (warm_edge j (warm_edge i w))" and "x = index_of (in_addr i)"
  shows "warm_idle w3 \<and> out_ready (ctl w3) \<and> out_token (ctl w3) = in_addr i
    \<and> rows (data_set1 w3) = (rows (data_set1 w))(x := in_data i)
    \<and> rows (data_set2 w3) = (rows (data_set2 w))(x := in_data i)
    \<and> rows (state_set1 w3) = (rows (state_set1 w))(x := in_new_state i)
    \<and> rows (state_set2 w3) = (rows (state_set2 w))(x := in_new_state i)
    \<and> rows (tag_set1 w3) = (rows (tag_set1 w))(x := tag_of (in_addr i))
    \<and> rows (tag_set2 w3) = (rows (tag_set2 w))(x := tag_of (in_addr i))"
proof -
  define w1 where "w1 = warm_edge i w"
  define w2 where "w2 = warm_edge j w1"
  have w3: "w3 = warm_edge k w2" by (simp add: assms(6) w1_def w2_def)
  have ok: "mems_ok w" "mems_ok w1" "mems_ok w2"
    using assms(1) mems_ok_edge by (auto simp: warm_idle_def mems_ok_def [of w] w1_def w2_def)
  have one: "inserting 1 (in_addr i) (in_data i) (in_new_state i) (ctl w1)"
    unfolding w1_def by (rule insert_first [OF assms(1-5)])
  have two: "inserting 0 (in_addr i) (in_data i) (in_new_state i) (ctl w2)"
    unfolding w2_def by (rule insert_second [OF one])
  have off: "\<not> ena (data_lane (ctl w))" "\<not> ena (state_lane (ctl w))" "\<not> ena (tag_lane (ctl w))"
    using assms(1) by (simp_all add: warm_idle_def)
  obtain ld ls lt where l1: "data_lane (ctl w1) = write_lane x (in_data i) ld"
      "state_lane (ctl w1) = write_lane x (in_new_state i) ls"
      "tag_lane (ctl w1) = write_lane x (tag_of (in_addr i)) lt"
    using one by (auto simp: inserting_def assms(7))
  obtain ld' ls' lt' where l2: "data_lane (ctl w2) = write_lane x (in_data i) ld'"
      "state_lane (ctl w2) = write_lane x (in_new_state i) ls'"
      "tag_lane (ctl w2) = write_lane x (tag_of (in_addr i)) lt'"
    using two by (auto simp: inserting_def assms(7))
  have "rows (data_set1 w1) = rows (data_set1 w)" "rows (data_set2 w1) = rows (data_set2 w)"
    "rows (state_set1 w1) = rows (state_set1 w)" "rows (state_set2 w1) = rows (state_set2 w)"
    "rows (tag_set1 w1) = rows (tag_set1 w)" "rows (tag_set2 w1) = rows (tag_set2 w)"
    using off by (simp_all add: w1_def sram_work_fields(1))
  moreover have "rows (data_set1 w3) = (rows (data_set1 w1))(x := in_data i)"
    "rows (data_set2 w3) = (rows (data_set2 w1))(x := in_data i)"
    "rows (state_set1 w3) = (rows (state_set1 w1))(x := in_new_state i)"
    "rows (state_set2 w3) = (rows (state_set2 w1))(x := in_new_state i)"
    "rows (tag_set1 w3) = (rows (tag_set1 w1))(x := tag_of (in_addr i))"
    "rows (tag_set2 w3) = (rows (tag_set2 w1))(x := tag_of (in_addr i))"
    using l1 l2 by (simp_all add: w3 w2_def [THEN arg_cong, of data_set1] w2_def [THEN arg_cong, of data_set2]
        w2_def [THEN arg_cong, of state_set1] w2_def [THEN arg_cong, of state_set2]
        w2_def [THEN arg_cong, of tag_set1] w2_def [THEN arg_cong, of tag_set2] sram_work_fields(1))
  ultimately show ?thesis using insert_third [OF two ok(3), of k] w3 by simp
qed

definition reading :: "int \<Rightarrow> addr \<Rightarrow> warm_ctl \<Rightarrow> bool" where
  "reading n a c \<longleftrightarrow> waitdelay c = n \<and> operation c = 2 \<and> \<not> port_available c \<and> servaddr c = a \<and>
     victim_set c < 2 \<and>
     ena (data_lane c) \<and> \<not> we (data_lane c) \<and> addr_in (data_lane c) = index_of a \<and>
     ena (state_lane c) \<and> \<not> we (state_lane c) \<and> addr_in (state_lane c) = index_of a \<and>
     ena (tag_lane c) \<and> \<not> we (tag_lane c) \<and> addr_in (tag_lane c) = index_of a"

lemma read_first:
  assumes "warm_idle w" "in_ena i" "in_needs_data i" "\<not> in_is_insert i"
  shows "reading 1 (in_addr i) (ctl (warm_edge i w))"
proof -
  have c: "waitdelay (ctl w) = 0" "operation (ctl w) = 0" "port_available (ctl w)" "victim_set (ctl w) < 2"
    "\<not> we (data_lane (ctl w))" "\<not> we (state_lane (ctl w))" "\<not> we (tag_lane (ctl w))"
    using assms(1) by (simp_all add: warm_idle_def)
  show ?thesis using assms(2-) c(4-)
    by (auto simp: cache_work_idle [OF c(1-3)] accept_def reading_def Let_def)
qed

lemma read_second:
  assumes "reading 1 a (ctl w)"
  shows "reading 0 a (ctl (warm_edge i w))"
proof -
  have c: "waitdelay (ctl w) = 1" using assms by (simp add: reading_def)
  show ?thesis using assms by (simp add: cache_work_wait [OF c] reading_def Let_def)
qed

text \<open>What the memories show at the end of the wait.\<close>

lemma read_douts:
  assumes "reading 1 a (ctl w)" and "mems_ok w" and "x = index_of a"
  shows "douts (warm_edge i w) = \<lparr>data1 = rows (data_set1 w) x, state1 = rows (state_set1 w) x,
     tag1 = rows (tag_set1 w) x, data2 = rows (data_set2 w) x, state2 = rows (state_set2 w) x,
     tag2 = rows (tag_set2 w) x\<rparr>"
  using assms by (simp add: douts_def reading_def mems_ok_def sram1_work(2))

lemma read_hits:
  assumes "warm_idle w" "in_ena r" "in_needs_data r" "\<not> in_is_insert r"
    and "w3 = warm_edge k (warm_edge j (warm_edge r w))" and "x = index_of (in_addr r)"
    and "rows (tag_set1 w) x = tag_of (in_addr r)"
  shows "out_ready (ctl w3) \<and> out_token (ctl w3) = in_addr r \<and> out_addr (ctl w3) = tag_of (in_addr r) \<and>
    out_data (ctl w3) = rows (data_set1 w) x \<and> out_state (ctl w3) = rows (state_set1 w) x"
proof -
  define w1 where "w1 = warm_edge r w"
  define w2 where "w2 = warm_edge j w1"
  have ok: "mems_ok w1"
    using assms(1) mems_ok_edge by (auto simp: warm_idle_def mems_ok_def [of w] w1_def)
  have one: "reading 1 (in_addr r) (ctl w1)" unfolding w1_def by (rule read_first [OF assms(1-4)])
  have two: "reading 0 (in_addr r) (ctl w2)" unfolding w2_def by (rule read_second [OF one])
  have off: "\<not> ena (data_lane (ctl w))" "\<not> ena (state_lane (ctl w))" "\<not> ena (tag_lane (ctl w))"
    using assms(1) by (simp_all add: warm_idle_def)
  then have same: "rows (data_set1 w1) = rows (data_set1 w)" "rows (state_set1 w1) = rows (state_set1 w)"
    "rows (tag_set1 w1) = rows (tag_set1 w)"
    by (simp_all add: w1_def sram_work_fields(1))
  have q: "data1 (douts w2) = rows (data_set1 w) x" "state1 (douts w2) = rows (state_set1 w) x"
    "tag1 (douts w2) = tag_of (in_addr r)"
    using read_douts [OF one ok refl, of j] same assms(6,7) by (simp_all add: w2_def)
  have "ctl w3 = cache_work k (douts w2) (ctl w2)" by (simp add: assms(5) w1_def w2_def)
  moreover have "waitdelay (ctl w2) = 0" "operation (ctl w2) = 2" "\<not> port_available (ctl w2)"
    "servaddr (ctl w2) = in_addr r"
    using two by (simp_all add: reading_def)
  ultimately show ?thesis using q by (simp add: cache_work_def finish_read_def answer_def Let_def)
qed

lemma read_misses:
  assumes "warm_idle w" "in_ena r" "in_needs_data r" "\<not> in_is_insert r"
    and "w3 = warm_edge k (warm_edge j (warm_edge r w))" and "x = index_of (in_addr r)"
    and "rows (tag_set1 w) x \<noteq> tag_of (in_addr r)" "rows (tag_set2 w) x \<noteq> tag_of (in_addr r)"
  shows "out_ready (ctl w3) \<and> out_token (ctl w3) = in_addr r \<and> out_state (ctl w3) = 0xff"
proof -
  define w1 where "w1 = warm_edge r w"
  define w2 where "w2 = warm_edge j w1"
  have ok: "mems_ok w1"
    using assms(1) mems_ok_edge by (auto simp: warm_idle_def mems_ok_def [of w] w1_def)
  have one: "reading 1 (in_addr r) (ctl w1)" unfolding w1_def by (rule read_first [OF assms(1-4)])
  have two: "reading 0 (in_addr r) (ctl w2)" unfolding w2_def by (rule read_second [OF one])
  have "\<not> ena (tag_lane (ctl w))" using assms(1) by (simp add: warm_idle_def)
  then have same: "rows (tag_set1 w1) = rows (tag_set1 w)" "rows (tag_set2 w1) = rows (tag_set2 w)"
    by (simp_all add: w1_def sram_work_fields(1))
  have q: "tag1 (douts w2) \<noteq> tag_of (in_addr r)" "tag2 (douts w2) \<noteq> tag_of (in_addr r)"
    using read_douts [OF one ok refl, of j] same assms(6-8) by (simp_all add: w2_def)
  have "ctl w3 = cache_work k (douts w2) (ctl w2)" by (simp add: assms(5) w1_def w2_def)
  moreover have "waitdelay (ctl w2) = 0" "operation (ctl w2) = 2" "\<not> port_available (ctl w2)"
    "servaddr (ctl w2) = in_addr r"
    using two by (simp_all add: reading_def)
  ultimately show ?thesis using q by (simp add: cache_work_def finish_read_def answer_def Let_def)
qed

subsection \<open>Properties\<close>

definition warm_insert_in :: "addr \<Rightarrow> block \<Rightarrow> warm_in" where
  "warm_insert_in a v = \<lparr>in_ena = True, in_addr = a, in_is_insert = True, in_has_data = True,
     in_data = v, in_needs_data = False, in_update_state = True, in_new_state = 3\<rparr>"

definition warm_read_in :: "addr \<Rightarrow> warm_in" where
  "warm_read_in a = \<lparr>in_ena = True, in_addr = a, in_is_insert = False, in_has_data = False,
     in_data = 0, in_needs_data = True, in_update_state = False, in_new_state = 0\<rparr>"

lemma warm_idle_new: "warm_idle (warm_new 0 0 0 False)"
  by (simp add: warm_idle_def warm_new_def lane_new_def)

text \<open>C25: a block that is inserted into the free cache and read on the next occasion is found:
  three edges after each request the answer is ready, the read with the inserted data and state, the
  tag, and the address of the read as its token; requests in between are ignored.\<close>

theorem insert_then_read:
  assumes "warm_idle w" "in_ena i" "in_is_insert i" "in_has_data i" "in_update_state i"
    and "in_ena r" "in_needs_data r" "\<not> in_is_insert r"
    and "tag_of (in_addr r) = tag_of (in_addr i)" "index_of (in_addr r) = index_of (in_addr i)"
    and "w6 = fold warm_edge [i, i2, i3, r, r2, r3] w"
  shows "out_ready (ctl w6) \<and> out_token (ctl w6) = in_addr r \<and> out_addr (ctl w6) = tag_of (in_addr i) \<and>
    out_data (ctl w6) = in_data i \<and> out_state (ctl w6) = in_new_state i"
proof -
  define w3 where "w3 = warm_edge i3 (warm_edge i2 (warm_edge i w))"
  note ins = insert_rows [OF assms(1-5) w3_def refl]
  have w6: "w6 = warm_edge r3 (warm_edge r2 (warm_edge r w3))" by (simp only: assms(11) w3_def fold.simps comp_apply id_apply)
  have idle: "warm_idle w3" using ins by blast
  have tag: "rows (tag_set1 w3) (index_of (in_addr r)) = tag_of (in_addr r)"
    using ins assms(9,10) by simp
  from read_hits [OF idle assms(6-8) w6 refl tag] ins assms(9,10) show ?thesis by simp
qed

theorem insert_then_read_witness:
  "out_data (ctl (fold warm_edge [warm_insert_in 0x1040 9, warm_read_in 0, warm_read_in 0,
     warm_read_in 0x1044, warm_read_in 0, warm_read_in 0] (warm_new 0 0 0 False))) = 9"
  using insert_then_read [OF warm_idle_new, of "warm_insert_in 0x1040 9" "warm_read_in 0x1044" _
      "warm_read_in 0" "warm_read_in 0" "warm_read_in 0" "warm_read_in 0", OF _ _ _ _ _ _ _ _ _ refl]
  by (simp add: warm_insert_in_def warm_read_in_def tag_of_def index_of_def del: fold_simps)

text \<open>C33: the two sets share all control and data signals, so after any sequence of clock edges,
  from any first values of the members the constructor leaves alone, they hold the same rows: the
  second set adds no capacity.\<close>

theorem sets_always_equal: "sets_equal (fold warm_edge is (warm_new wd oper opst deassert))"
proof (induction "is" rule: rev_induct)
  case Nil
  then show ?case by (simp add: sets_equal_def warm_new_def)
next
  case (snoc i "is")
  then show ?case by (simp add: sets_equal_edge)
qed

text \<open>Inserting a second block with the same index evicts the first although there are two
  sets: reading the first one then is a miss.\<close>

lemma conflict_evicts:
  assumes "warm_idle w" "in_ena a" "in_is_insert a" "in_has_data a" "in_update_state a"
    and "in_ena b" "in_is_insert b" "in_has_data b" "in_update_state b"
    and "in_ena r" "in_needs_data r" "\<not> in_is_insert r" "in_addr r = in_addr a"
    and "index_of (in_addr b) = index_of (in_addr a)" "tag_of (in_addr b) \<noteq> tag_of (in_addr a)"
    and "w9 = fold warm_edge [a, a2, a3, b, b2, b3, r, r2, r3] w"
  shows "out_ready (ctl w9) \<and> out_token (ctl w9) = in_addr a \<and> out_state (ctl w9) = 0xff"
proof -
  define w3 where "w3 = warm_edge a3 (warm_edge a2 (warm_edge a w))"
  define w6 where "w6 = warm_edge b3 (warm_edge b2 (warm_edge b w3))"
  have idle3: "warm_idle w3" using insert_rows [OF assms(1-5) w3_def refl] by blast
  note ins = insert_rows [OF idle3 assms(6-9) w6_def refl]
  have idle6: "warm_idle w6" using ins by blast
  have w9: "w9 = warm_edge r3 (warm_edge r2 (warm_edge r w6))"
    by (simp only: assms(16) w3_def w6_def fold.simps comp_apply id_apply)
  have tags: "rows (tag_set1 w6) (index_of (in_addr r)) \<noteq> tag_of (in_addr r)"
    "rows (tag_set2 w6) (index_of (in_addr r)) \<noteq> tag_of (in_addr r)"
    using ins assms(13-15) by simp_all
  from read_misses [OF idle6 assms(10-12) w9 refl tags] assms(13) show ?thesis by simp
qed

end
