(* ===== verification/Wrapper.thy ===== *)
theory Wrapper
  imports WarmCache GuestC
begin

text \<open>
  The glue between a simulator written in C and the warm-up cache (\<^verbatim>\<open>warmup-project/wrapper.cpp\<close>,
  \<^verbatim>\<open>wrapper.h\<close>, \<^verbatim>\<open>top.h\<close>), with \<^verbatim>\<open>ENABLE_SYSTEMC_CACHE\<close>: a table of requests, the signals of
  the one port, and the data every block should have, against which answers are checked.
  \<^verbatim>\<open>sc_start(clockcycle)\<close> is one clock edge, on which the cache sees the signals as they were last
  written. A \<^verbatim>\<open>long long\<close> is a word of 64 bits.
\<close>

record sysc_request =
  r_insert :: bool
  r_has_data :: bool
  r_needs_data :: bool
  physAddress :: quad
  r_update_state :: bool
  r_new_state :: byte
  r_sent :: bool
  reply_ready :: bool
  reply_state :: byte
  reply_tag :: quad

record wrapper =
  w_cache :: warm
  w_port :: warm_in
  base_port :: nat
  w_available :: bool
  requests :: "quad \<Rightarrow> sysc_request option"
  cache_data :: "int \<Rightarrow> quad"
  mix_input :: quad

definition block_of :: "quad \<Rightarrow> int" where
  "block_of a = sint a sdiv 64"

text \<open>\<^verbatim>\<open>((x)<<(k)) | ((x)>>(32-(k)))\<close> on a signed number of 64 bits\<close>

definition rot :: "quad \<Rightarrow> nat \<Rightarrow> quad" where
  "rot x k = push_bit k x OR signed_drop_bit (32 - k) x"

definition mix_round :: "nat \<Rightarrow> quad \<times> quad \<times> quad \<Rightarrow> quad \<times> quad \<times> quad" where
  "mix_round k s = (case s of (a, b, c) \<Rightarrow> ((a - c) XOR rot c k, b, c + b))"

text \<open>The six rounds rotate the roles of the three numbers.\<close>

definition turn :: "quad \<times> quad \<times> quad \<Rightarrow> quad \<times> quad \<times> quad" where
  "turn s = (case s of (a, b, c) \<Rightarrow> (b, c, a))"

definition hashme :: "quad \<Rightarrow> quad \<Rightarrow> quad \<times> quad" where
  "hashme a m =
     (let s = fold (\<lambda>k s. turn (mix_round k s)) [4, 6, 8, 16, 19, 4] (a, NOT m, m + 1) in (fst s, m + 1))"

definition systemc_clock :: "wrapper \<Rightarrow> fault + wrapper" where
  "systemc_clock s =
     (let w = warm_edge (w_port s) (w_cache s); c = ctl w;
          s = s\<lparr>w_cache := w, base_port := 0, w_port := (w_port s)\<lparr>in_ena := False\<rparr>, w_available := port_available c\<rparr>
      in if \<not> out_ready c then Inr s
         else (case requests s (out_token c) of
           None \<Rightarrow> Inl Assertion_failed
         | Some r \<Rightarrow>
             (let r = r\<lparr>reply_ready := True, reply_state := out_state c\<rparr>;
                  d = cache_data s (block_of (out_token c));
                  done = (\<lambda>tag. Inr (s\<lparr>requests := (requests s)(out_token c \<mapsto> r\<lparr>reply_tag := tag\<rparr>)\<rparr>))
              in if out_state c = 0xff then done 0
                 else if r_needs_data r \<and> d \<noteq> 0 \<and> ucast (out_data c) \<noteq> d then Inl Assertion_failed
                 else done (out_addr c))))"

text \<open>A request that is not in the table would be read uninitialised. The search for a free port
  starts behind the last one used since the clock edge.\<close>

definition systemc_request_submit :: "quad \<Rightarrow> wrapper \<Rightarrow> fault + wrapper" where
  "systemc_request_submit k s = (case requests s k of
     None \<Rightarrow> Inl Undefined_behaviour
   | Some r \<Rightarrow>
       if \<not> (base_port s < 1 \<and> w_available s) then Inl Assertion_failed
       else if physAddress r = 0
       then Inr (s\<lparr>requests := (requests s)(k \<mapsto> r\<lparr>reply_ready := True, reply_tag := 0, reply_state := 0\<rparr>)\<rparr>)
       else if r_has_data r \<and> r_needs_data r then Inl Assertion_failed
       else (let (value, m) = (if r_has_data r then hashme (physAddress r) (mix_input s) else (0, mix_input s));
                 port = (w_port s)\<lparr>in_ena := True, in_is_insert := r_insert r, in_has_data := r_has_data r,
                   in_data := (if r_has_data r then scast value else in_data (w_port s)),
                   in_needs_data := r_needs_data r, in_addr := physAddress r,
                   in_update_state := r_update_state r, in_new_state := r_new_state r\<rparr>;
                 d = (if r_has_data r then (cache_data s)(block_of (physAddress r) := value) else cache_data s)
             in Inr (s\<lparr>w_port := port, mix_input := m, cache_data := d, base_port := 1\<rparr>)))"

text \<open>The reset reaches the cache only as a signal that its handler does not look at.\<close>

definition wrapper_new :: "warm \<Rightarrow> warm_in \<Rightarrow> wrapper" where
  "wrapper_new w i = \<lparr>w_cache = w, w_port = i, base_port = 0, w_available = False, requests = Map.empty,
     cache_data = (\<lambda>_. 0), mix_input = 0xfeeddeadbeeff00d\<rparr>"

fun clocks :: "nat \<Rightarrow> wrapper \<Rightarrow> fault + wrapper" where
  "clocks 0 s = Inr s"
| "clocks (Suc n) s = and_then (systemc_clock s) (clocks n)"

text \<open>The half cycles of \<^verbatim>\<open>systemc_reset\<close> hold one positive edge; \<^verbatim>\<open>testbench.c\<close> then runs six
  clocks without a request.\<close>

definition systemc_reset :: "wrapper \<Rightarrow> wrapper" where
  "systemc_reset s = s\<lparr>w_cache := warm_edge (w_port s) (w_cache s)\<rparr>"

definition testbench_main :: "wrapper \<Rightarrow> fault + wrapper" where
  "testbench_main s = clocks 6 (systemc_reset s)"

subsection \<open>Edges without an answer\<close>

definition cache_quiet :: "warm \<Rightarrow> bool" where
  "cache_quiet w \<longleftrightarrow> waitdelay (ctl w) = 0 \<and> operation (ctl w) = 0 \<and> port_available (ctl w) \<and>
     (out_ready (ctl w) \<longrightarrow> deassertoutput (ctl w))"

lemma quiet_edge:
  assumes "cache_quiet w" and "\<not> in_ena i"
  shows "cache_quiet (warm_edge i w) \<and> \<not> out_ready (ctl (warm_edge i w))"
proof -
  have c: "waitdelay (ctl w) = 0" "operation (ctl w) = 0" "port_available (ctl w)" "out_ready (ctl w) \<longrightarrow> deassertoutput (ctl w)"
    using assms(1) by (simp_all add: cache_quiet_def)
  show ?thesis using assms(2) c by (auto simp: cache_quiet_def cache_work_idle [OF c(1-3)] Let_def)
qed


lemma wait_silent: "waitdelay (ctl w) = 1 \<Longrightarrow> \<not> out_ready (ctl (warm_edge j w))"
  by (simp add: cache_work_wait Let_def)

lemma request_waits:
  assumes "warm_idle w" "in_ena i" "in_is_insert i \<and> in_has_data i \<and> in_update_state i \<or> in_needs_data i"
  shows "\<not> out_ready (ctl (warm_edge i w))" "\<not> out_ready (ctl (warm_edge j (warm_edge i w)))"
proof -
  have c: "waitdelay (ctl w) = 0" "operation (ctl w) = 0" "port_available (ctl w)"
    using assms(1) by (simp_all add: warm_idle_def)
  have one: "\<not> out_ready (ctl (warm_edge i w))" "waitdelay (ctl (warm_edge i w)) = 1"
    using assms(2,3) by (auto simp: cache_work_idle [OF c] accept_def Let_def)
  show "\<not> out_ready (ctl (warm_edge i w))" by (rule one(1))
  show "\<not> out_ready (ctl (warm_edge j (warm_edge i w)))" by (rule wait_silent [OF one(2)])
qed

lemma clock_silent:
  assumes "\<not> out_ready (ctl (warm_edge (w_port s) (w_cache s)))"
  shows "systemc_clock s = Inr (s\<lparr>w_cache := warm_edge (w_port s) (w_cache s), base_port := 0,
    w_port := (w_port s)\<lparr>in_ena := False\<rparr>, w_available := port_available (ctl (warm_edge (w_port s) (w_cache s)))\<rparr>)"
  using assms by (simp add: systemc_clock_def Let_def)

text \<open>Without requests nothing fails: the clocks of the test bench leave the table as it is.\<close>

lemma clocks_quiet:
  assumes "cache_quiet (w_cache s)" and "\<not> in_ena (w_port s)"
  shows "\<exists>s'. clocks n s = Inr s' \<and> requests s' = requests s \<and> cache_data s' = cache_data s \<and> cache_quiet (w_cache s')"
  using assms
proof (induction n arbitrary: s)
  case (Suc n)
  note q = quiet_edge [OF Suc.prems]
  let ?s = "s\<lparr>w_cache := warm_edge (w_port s) (w_cache s), base_port := 0, w_port := (w_port s)\<lparr>in_ena := False\<rparr>,
      w_available := port_available (ctl (warm_edge (w_port s) (w_cache s)))\<rparr>"
  have "systemc_clock s = Inr ?s" by (rule clock_silent) (use q in blast)
  then show ?case using Suc.IH [of ?s] q by simp
qed simp

lemma testbench_runs:
  assumes "cache_quiet (w_cache s)" and "\<not> in_ena (w_port s)"
  shows "\<exists>s'. testbench_main s = Inr s' \<and> requests s' = requests s \<and> cache_data s' = cache_data s"
  using clocks_quiet [of "systemc_reset s" 6] quiet_edge [OF assms] assms(2)
  by (auto simp: testbench_main_def systemc_reset_def simp del: clocks.simps)

text \<open>Three clocks after a request that the free cache takes: the third brings the answer.\<close>

lemma three_clocks:
  assumes "warm_idle (w_cache s)" and p: "in_ena (w_port s)"
      "in_is_insert (w_port s) \<and> in_has_data (w_port s) \<and> in_update_state (w_port s) \<or> in_needs_data (w_port s)"
    and w: "w = warm_edge ((w_port s)\<lparr>in_ena := False\<rparr>) (warm_edge ((w_port s)\<lparr>in_ena := False\<rparr>) (warm_edge (w_port s) (w_cache s)))"
    and "out_ready (ctl w)" "requests s (out_token (ctl w)) = Some r"
    and "r_needs_data r \<longrightarrow> ucast (out_data (ctl w)) = cache_data s (block_of (out_token (ctl w)))"
  shows "\<exists>s'. clocks 3 s = Inr s' \<and> w_cache s' = w \<and> base_port s' = 0 \<and> w_available s' = port_available (ctl w) \<and>
    cache_data s' = cache_data s \<and>
    requests s' = (requests s)(out_token (ctl w) \<mapsto> r\<lparr>reply_ready := True, reply_state := out_state (ctl w),
      reply_tag := if out_state (ctl w) = 0xff then 0 else out_addr (ctl w)\<rparr>)"
proof -
  let ?i = "(w_port s)\<lparr>in_ena := False\<rparr>"
  note q = request_waits [OF assms(1) p]
  let ?s1 = "s\<lparr>w_cache := warm_edge (w_port s) (w_cache s), base_port := 0, w_port := ?i,
      w_available := port_available (ctl (warm_edge (w_port s) (w_cache s)))\<rparr>"
  have s1: "systemc_clock s = Inr ?s1" by (rule clock_silent [OF q(1)])
  let ?s2 = "?s1\<lparr>w_cache := warm_edge ?i (warm_edge (w_port s) (w_cache s)),
      w_available := port_available (ctl (warm_edge ?i (warm_edge (w_port s) (w_cache s))))\<rparr>"
  have s2: "systemc_clock ?s1 = Inr ?s2" using clock_silent [of ?s1] q(2) by simp
  have "\<exists>s'. systemc_clock ?s2 = Inr s' \<and> w_cache s' = w \<and> base_port s' = 0 \<and> w_available s' = port_available (ctl w) \<and>
    cache_data s' = cache_data s \<and>
    requests s' = (requests s)(out_token (ctl w) \<mapsto> r\<lparr>reply_ready := True, reply_state := out_state (ctl w),
      reply_tag := if out_state (ctl w) = 0xff then 0 else out_addr (ctl w)\<rparr>)"
    using assms(5-7) by (auto simp add: systemc_clock_def Let_def w [symmetric])
  with s1 s2 show ?thesis by (simp add: numeral_3_eq_3)
qed

lemma low_of_signed: "ucast (scast (v :: quad) :: block) = v"
  by (rule bit_word_eqI) (simp add: bit_simps)

subsection \<open>Property\<close>

text \<open>C39: the integrity check of the wrapper agrees with the cache: a block that is inserted through
  \<^verbatim>\<open>systemc_request_submit\<close> and read back under the same key is answered after three clocks each,
  without a failed assertion, with the state it was given and its tag.\<close>

theorem wrapper_roundtrip:
  assumes "warm_idle (w_cache s)" "w_available s" "base_port s = 0"
    and "requests s A = Some ri" "physAddress ri = A" "A \<noteq> 0"
    and "r_insert ri" "r_has_data ri" "\<not> r_needs_data ri" "r_update_state ri" "r_new_state ri \<noteq> 0xff"
    and "physAddress rr = A" "r_needs_data rr" "\<not> r_has_data rr" "\<not> r_insert rr"
  shows "\<exists>s1 s2 r. and_then (systemc_request_submit A s) (clocks 3) = Inr s1 \<and>
    and_then (systemc_request_submit A (s1\<lparr>requests := (requests s1)(A \<mapsto> rr)\<rparr>)) (clocks 3) = Inr s2 \<and>
    requests s2 A = Some r \<and> reply_ready r \<and> reply_state r = r_new_state ri \<and> reply_tag r = tag_of A"
proof -
  obtain v m where h: "hashme A (mix_input s) = (v, m)" by fastforce
  let ?p = "(w_port s)\<lparr>in_ena := True, in_is_insert := True, in_has_data := True, in_data := scast v,
      in_needs_data := False, in_addr := A, in_update_state := True, in_new_state := r_new_state ri\<rparr>"
  let ?t = "s\<lparr>w_port := ?p, mix_input := m, cache_data := (cache_data s)(block_of A := v), base_port := 1\<rparr>"
  have sub: "systemc_request_submit A s = Inr ?t"
    using assms(2-10) h by (simp add: systemc_request_submit_def)
  define w3 where "w3 = warm_edge (?p\<lparr>in_ena := False\<rparr>) (warm_edge (?p\<lparr>in_ena := False\<rparr>) (warm_edge ?p (w_cache s)))"
  have ins: "warm_idle w3" "out_ready (ctl w3)" "out_token (ctl w3) = A"
      "rows (data_set1 w3) (index_of A) = scast v" "rows (state_set1 w3) (index_of A) = r_new_state ri"
      "rows (tag_set1 w3) (index_of A) = tag_of A"
    using insert_rows [OF assms(1), of ?p w3 _ _ "index_of A"] w3_def by simp_all
  have "\<exists>s1. clocks 3 ?t = Inr s1 \<and> w_cache s1 = w3 \<and> base_port s1 = 0 \<and> w_available s1 = port_available (ctl w3) \<and>
      cache_data s1 = cache_data ?t \<and>
      requests s1 = (requests ?t)(out_token (ctl w3) \<mapsto> ri\<lparr>reply_ready := True, reply_state := out_state (ctl w3),
        reply_tag := if out_state (ctl w3) = 0xff then 0 else out_addr (ctl w3)\<rparr>)"
    by (rule three_clocks) (use assms ins w3_def in simp_all)
  then obtain s1 where s1: "clocks 3 ?t = Inr s1" "w_cache s1 = w3" "base_port s1 = 0"
      "w_available s1" "cache_data s1 = cache_data ?t"
    using ins(1) by (auto simp: warm_idle_def)
  let ?s = "s1\<lparr>requests := (requests s1)(A \<mapsto> rr)\<rparr>"
  let ?q = "(w_port s1)\<lparr>in_ena := True, in_is_insert := False, in_has_data := False,
      in_needs_data := True, in_addr := A, in_update_state := r_update_state rr, in_new_state := r_new_state rr\<rparr>"
  let ?u = "?s\<lparr>w_port := ?q, base_port := 1\<rparr>"
  have sub2: "systemc_request_submit A ?s = Inr ?u"
    using assms(6,12-) s1(3,4) by (simp add: systemc_request_submit_def)
  define w6 where "w6 = warm_edge (?q\<lparr>in_ena := False\<rparr>) (warm_edge (?q\<lparr>in_ena := False\<rparr>) (warm_edge ?q w3))"
  have rd: "out_ready (ctl w6)" "out_token (ctl w6) = A" "out_addr (ctl w6) = tag_of A"
      "out_data (ctl w6) = scast v" "out_state (ctl w6) = r_new_state ri"
    using read_hits [OF ins(1), of ?q w6 _ _ "index_of A"] ins w6_def by simp_all
  have "\<exists>s2. clocks 3 ?u = Inr s2 \<and> w_cache s2 = w6 \<and> base_port s2 = 0 \<and> w_available s2 = port_available (ctl w6) \<and>
      cache_data s2 = cache_data ?u \<and>
      requests s2 = (requests ?u)(out_token (ctl w6) \<mapsto> rr\<lparr>reply_ready := True, reply_state := out_state (ctl w6),
        reply_tag := if out_state (ctl w6) = 0xff then 0 else out_addr (ctl w6)\<rparr>)"
    by (rule three_clocks) (use s1 ins(1) rd w6_def in \<open>simp_all add: low_of_signed\<close>)
  then obtain s2 where s2: "clocks 3 ?u = Inr s2"
      "requests s2 A = Some (rr\<lparr>reply_ready := True, reply_state := r_new_state ri, reply_tag := tag_of A\<rparr>)"
    using rd assms(11) by auto
  show ?thesis
    by (intro exI [of _ s1] exI [of _ s2]
        exI [of _ "rr\<lparr>reply_ready := True, reply_state := r_new_state ri, reply_tag := tag_of A\<rparr>"] conjI)
      (use sub s1 sub2 s2 in simp_all)
qed

definition sample_sysc :: "bool \<Rightarrow> sysc_request" where
  "sample_sysc b = \<lparr>r_insert = b, r_has_data = b, r_needs_data = \<not> b, physAddress = 0x1040,
     r_update_state = b, r_new_state = 3, r_sent = False, reply_ready = False, reply_state = 0, reply_tag = 0\<rparr>"

theorem wrapper_roundtrip_witness:
  "\<exists>s1 s2 r. and_then (systemc_request_submit 0x1040 ((wrapper_new (warm_new 0 0 0 False) (warm_read_in 0))
       \<lparr>w_available := True, requests := [0x1040 \<mapsto> sample_sysc True]\<rparr>)) (clocks 3) = Inr s1 \<and>
     and_then (systemc_request_submit 0x1040 (s1\<lparr>requests := (requests s1)(0x1040 \<mapsto> sample_sysc False)\<rparr>)) (clocks 3) = Inr s2 \<and>
     requests s2 0x1040 = Some r \<and> reply_ready r \<and> reply_state r = 3 \<and> reply_tag r = 0x1000"
proof -
  let ?s = "(wrapper_new (warm_new 0 0 0 False) (warm_read_in 0))\<lparr>w_available := True, requests := [0x1040 \<mapsto> sample_sysc True]\<rparr>"
  have "\<exists>s1 s2 r. and_then (systemc_request_submit 0x1040 ?s) (clocks 3) = Inr s1 \<and>
     and_then (systemc_request_submit 0x1040 (s1\<lparr>requests := (requests s1)(0x1040 \<mapsto> sample_sysc False)\<rparr>)) (clocks 3) = Inr s2 \<and>
     requests s2 0x1040 = Some r \<and> reply_ready r \<and> reply_state r = r_new_state (sample_sysc True) \<and> reply_tag r = tag_of 0x1040"
    by (rule wrapper_roundtrip) (simp_all add: wrapper_new_def sample_sysc_def warm_idle_new)
  moreover have "tag_of 0x1040 = 0x1000" "r_new_state (sample_sysc True) = 3"
    by (simp_all add: tag_of_def sample_sysc_def)
  ultimately show ?thesis by (simp only:)
qed

end
