(* ===== verification/Homework.thy ===== *)
theory Homework
  imports GuestC
begin

text \<open>
  The measuring programs of the first homework: the decoding of the processor's cache description and its
  printing (\<^verbatim>\<open>HW/cache.c\<close>), and the loops around the time stamp counter (\<^verbatim>\<open>HW/hw1_userRDTSC.c\<close>,
  \<^verbatim>\<open>HW/KernMod/hw1_kernmod.c\<close>). The instructions \<^verbatim>\<open>cpuid\<close> and \<^verbatim>\<open>rdtsc\<close> are parameters.
\<close>

subsection \<open>The description of a cache\<close>

text \<open>Overflow of an \<^verbatim>\<open>int\<close> is undefined.\<close>

definition c_int :: "int \<Rightarrow> fault + int" where
  "c_int v = (if - (2 ^ 31) \<le> v \<and> v < 2 ^ 31 then Inr v else Inl Undefined_behaviour)"

record cache_info =
  info_level :: nat
  blk_size :: int
  num_sets :: int
  assoc :: int
  info_size :: int

definition populate_cache_struct :: "nat \<Rightarrow> cint \<times> cint \<Rightarrow> fault + cache_info" where
  "populate_cache_struct level res = (case res of (ebx, ecx) \<Rightarrow>
     and_then (c_int (sint (ebx AND 0xFFF) + 1)) (\<lambda>b.
     and_then (c_int (sint ecx + 1)) (\<lambda>n.
     and_then (c_int (sint (signed_drop_bit 22 ebx) + 1)) (\<lambda>w.
     and_then (c_int (sint (signed_drop_bit 12 ebx AND 0x3FF) + 1)) (\<lambda>p.
     and_then (c_int (b * n)) (\<lambda>s.
     and_then (c_int (s * w)) (\<lambda>s.
     and_then (c_int (s * p)) (\<lambda>s.
     Inr \<lparr>info_level = level, blk_size = b, num_sets = n, assoc = w, info_size = s\<rparr>))))))))"

text \<open>The loop of \<^verbatim>\<open>print\<close>: \<^verbatim>\<open>temp\<close> has the last value of \<^verbatim>\<open>size\<close> that was not zero, none before the first
  pass, and \<^verbatim>\<open>idx\<close> counts the passes from -1.\<close>

function print_loop :: "int \<Rightarrow> int option \<Rightarrow> int \<Rightarrow> int option \<times> int" where
  "print_loop v temp idx = (if v > 0 then print_loop (v sdiv 1024) (Some v) (idx + 1) else (temp, idx))"
  by pat_completeness auto
termination
  by (relation "measure (\<lambda>(v, _). nat v)") (auto simp: signed_divide_int_eq_divide_int)

declare print_loop.simps [simp del]

text \<open>\<^verbatim>\<open>label\<close> has two elements. The result is the number printed and its unit.\<close>

definition print_size :: "int \<Rightarrow> fault + int \<times> string" where
  "print_size v = (case print_loop v None (- 1) of
     (None, _) \<Rightarrow> Inl Undefined_behaviour
   | (Some temp, idx) \<Rightarrow>
       if idx > - 1
       then (if idx = 0 then Inl Undefined_behaviour
             else and_then (arr_load [''KB'', ''MB''] (nat (idx - 1))) (\<lambda>l. Inr (temp, l)))
       else Inr (temp, ''B''))"

text \<open>The levels are listed up to the first whose two registers have no bit in common.\<close>

fun cache_levels :: "(nat \<Rightarrow> cint \<times> cint) \<Rightarrow> nat list \<Rightarrow> fault + (cache_info \<times> int \<times> string) list" where
  "cache_levels cpuid [] = Inr []"
| "cache_levels cpuid (l # ls) =
     (if fst (cpuid l) AND snd (cpuid l) = 0 then Inr []
      else and_then (populate_cache_struct l (cpuid l)) (\<lambda>c.
           and_then (print_size (info_size c)) (\<lambda>s.
           and_then (cache_levels cpuid ls) (\<lambda>r. Inr ((c, s) # r)))))"

definition cache_sizes :: "(nat \<Rightarrow> cint \<times> cint) \<Rightarrow> fault + (cache_info \<times> int \<times> string) list" where
  "cache_sizes cpuid = cache_levels cpuid [1, 2, 3]"

text \<open>The accesses of \<^verbatim>\<open>calc_latencies\<close> to its array of \<^verbatim>\<open>int\<close>; \<open>heap\<close> is what \<^verbatim>\<open>malloc\<close> returns
  for a number of bytes. \<^verbatim>\<open>memset\<close> is given the size of the pointer.\<close>

definition calc_latencies :: "(nat \<Rightarrow> int list option) \<Rightarrow> int \<Rightarrow> fault + int list" where
  "calc_latencies heap L1_size = (case heap (unat ((word_of_int L1_size :: quad) div 4)) of
     None \<Rightarrow> Inl Undefined_behaviour
   | Some arr \<Rightarrow>
       and_then (arr_store arr 0 0x01010101) (\<lambda>arr.
       and_then (arr_store arr 1 0x01010101) (\<lambda>arr.
       and_then (c_int (L1_size - 1)) (\<lambda>last.
       let i = unat ((word_of_int last :: quad) div 4) in
       and_then (arr_load arr i) (\<lambda>v.
       and_then (c_int (v + 1)) (arr_store arr i))))))"

subsection \<open>The time stamp counter\<close>

text \<open>The measured loop: \<open>k\<close> times \<^verbatim>\<open>++x\<close> on the signed \<open>x\<close>, which is set to 0 once, before the
  first pass.\<close>

fun spin :: "nat \<Rightarrow> int \<Rightarrow> fault + int" where
  "spin 0 x = Inr x"
| "spin (Suc k) x = and_then (c_int (x + 1)) (spin k)"

text \<open>\<open>n\<close> passes store the halves of the counter before and after the measured loop into arrays of
  length \<open>len\<close>; \<open>tsc\<close> is the counter at its \<open>2 * i\<close>-th and next reading.\<close>

type_synonym readings = "(quad list \<times> quad list) \<times> (quad list \<times> quad list)"

definition measure_step :: "nat \<Rightarrow> (nat \<Rightarrow> quad) \<Rightarrow> nat \<Rightarrow> int \<times> readings \<Rightarrow> fault + int \<times> readings" where
  "measure_step k tsc i s = (case s of (x, (hs, ls), (he, le)) \<Rightarrow>
     and_then (arr_store hs i (drop_bit 32 (tsc (2 * i)))) (\<lambda>hs.
     and_then (arr_store ls i (take_bit 32 (tsc (2 * i)))) (\<lambda>ls.
     and_then (spin k x) (\<lambda>x.
     and_then (arr_store he i (drop_bit 32 (tsc (2 * i + 1)))) (\<lambda>he.
     and_then (arr_store le i (take_bit 32 (tsc (2 * i + 1)))) (\<lambda>le.
     Inr (x, (hs, ls), (he, le))))))))"

definition join_halves :: "quad \<Rightarrow> quad \<Rightarrow> quad" where
  "join_halves high low = push_bit 32 high OR low"

definition total_step :: "readings \<Rightarrow> nat \<Rightarrow> quad list \<Rightarrow> fault + quad list" where
  "total_step m i out = (case m of ((hs, ls), (he, le)) \<Rightarrow>
     and_then (arr_load hs i) (\<lambda>h. and_then (arr_load ls i) (\<lambda>l.
     and_then (arr_load he i) (\<lambda>h'. and_then (arr_load le i) (\<lambda>l'.
     Inr (out @ [join_halves h' l' - join_halves h l]))))))"

definition tsc_totals :: "nat \<Rightarrow> nat \<Rightarrow> nat \<Rightarrow> (nat \<Rightarrow> quad) \<Rightarrow> fault + quad list" where
  "tsc_totals k len n tsc =
     and_then (for_each (measure_step k tsc) [0..<n]
       (0, (replicate len 0, replicate len 0), (replicate len 0, replicate len 0))) (\<lambda>(_, m).
     for_each (total_step m) [0..<n] [])"

text \<open>The user program has arrays of ten elements for ten passes, the kernel module five for seven. Each pass
  counts to 1234567890. The result is the differences of the counter, which the programs then divide by a clock
  frequency in floating point and print.\<close>

definition user_totals :: "(nat \<Rightarrow> quad) \<Rightarrow> fault + quad list" where
  "user_totals tsc = tsc_totals 1234567890 10 10 tsc"

definition timer_init :: "(nat \<Rightarrow> quad) \<Rightarrow> fault + quad list" where
  "timer_init tsc = tsc_totals 1234567890 5 7 tsc"

subsection \<open>Facts\<close>

lemma print_loop_end: "\<not> 0 < v \<Longrightarrow> print_loop v t i = (t, i)"
  by (simp add: print_loop.simps [of v])

lemma print_loop_step: "0 < v \<Longrightarrow> print_loop v t i = print_loop (v div 1024) (Some v) (i + 1)"
  by (simp add: print_loop.simps [of v] signed_divide_int_eq_divide_int)

text \<open>The size of a cache is printed in KB or MB, rounded down, when it is at least 1 KB and less than
  1 GB; outside of that \<^verbatim>\<open>print\<close> reads \<^verbatim>\<open>label\<close> out of bounds, or a variable it has not set.\<close>

lemma print_size_range:
  "print_size v = (if v < 1024 \<or> 2 ^ 30 \<le> v then Inl Undefined_behaviour
     else if v < 2 ^ 20 then Inr (v div 1024, ''KB'') else Inr (v div 2 ^ 20, ''MB''))"
proof -
  have d: "v div 1024 div 1024 = v div 2 ^ 20" "v div 2 ^ 20 div 1024 = v div 2 ^ 30"
    by (simp_all flip: zdiv_zmult2_eq)
  have dd: "v div 1024 div 1024 = v div 1048576" "v div 1048576 div 1024 = v div 1073741824" using d by simp_all
  consider "v \<le> 0" | "0 < v" "v < 1024" | "1024 \<le> v" "v < 2 ^ 20" | "2 ^ 20 \<le> v" "v < 2 ^ 30" | "2 ^ 30 \<le> v" by linarith
  then show ?thesis
  proof cases
    case 1
    then show ?thesis by (simp add: print_size_def print_loop_end)
  next
    case 2
    then have "print_loop v None (- 1) = (Some v, 0)" by (simp add: print_loop_step print_loop_end)
    then show ?thesis using 2 by (simp add: print_size_def)
  next
    case 3
    then have "0 < v div 1024" "v div 1024 div 1024 = 0" unfolding d by (simp_all add: pos_imp_zdiv_pos_iff)
    then have "print_loop v None (- 1) = (Some (v div 1024), 1)"
      using 3 by (simp add: print_loop_step [of v] print_loop_step [of "v div 1024"] print_loop_end)
    then show ?thesis using 3 by (simp add: print_size_def)
  next
    case 4
    then have "0 < v div 1024" "0 < v div 2 ^ 20" "v div 2 ^ 20 div 1024 = 0" unfolding d by (simp_all add: pos_imp_zdiv_pos_iff)
    then have "print_loop v None (- 1) = (Some (v div 2 ^ 20), 2)"
      using 4 by (simp add: print_loop_step [of v] print_loop_step [of "v div 1024"] dd print_loop_step [of "v div 1048576"] print_loop_end)
    then show ?thesis using 4 by (simp add: print_size_def)
  next
    case 5
    have far: "snd (print_loop x t i) \<ge> i" for x t i
      by (induction x t i rule: print_loop.induct) (subst print_loop.simps, force)
    have some: "\<exists>y j. print_loop x (Some z) i = (Some y, j)" for x z i
      by (induction x "Some z" i arbitrary: z rule: print_loop.induct) (subst print_loop.simps, auto)
    from 5 have p: "0 < v div 1024" "0 < v div 2 ^ 20" "0 < v div 2 ^ 30" by (simp_all add: pos_imp_zdiv_pos_iff)
    then have "print_loop v None (- 1) = print_loop (v div 2 ^ 30 div 1024) (Some (v div 2 ^ 30)) 3"
      using 5 by (simp add: print_loop_step [of v] print_loop_step [of "v div 1024"] dd print_loop_step [of "v div 1048576"]
          print_loop_step [of "v div 1073741824"])
    moreover obtain y j where "print_loop (v div 2 ^ 30 div 1024) (Some (v div 2 ^ 30)) 3 = (Some y, j)" using some by blast
    moreover from this have "3 \<le> j" using far [of 3] by (metis snd_conv)
    ultimately show ?thesis using 5 by (simp add: print_size_def arr_load_def)
  qed
qed

lemma sint_positive: "uint (w :: cint) < 2 ^ 31 \<Longrightarrow> sint w = uint w"
  by (simp add: sint_uint signed_take_bit_int_eq_self_iff order_trans [OF _ uint_ge_0])

lemma uint_of_sint: "0 \<le> sint (w :: cint) \<Longrightarrow> uint w = sint w"
  using sint_lt [of w] by (simp add: uint_sint take_bit_int_eq_self_iff)

lemma sint_mask: "uint (w :: cint) < 2 ^ 31 \<Longrightarrow> sint (w AND mask n) = uint w mod 2 ^ n"
proof -
  assume w: "uint w < 2 ^ 31"
  have "uint (w AND mask n) = uint (take_bit n w)" by (simp only: take_bit_eq_mask)
  also have "\<dots> = take_bit n (uint w)" by (rule unsigned_take_bit_eq)
  also have "\<dots> = uint w mod 2 ^ n" by (rule take_bit_eq_mod)
  finally have u: "uint (w AND mask n) = uint w mod 2 ^ n" .
  have "uint w mod 2 ^ n \<le> uint w" by (rule zmod_le_nonneg_dividend) simp
  then show ?thesis using w u sint_positive [of "w AND mask n"] by simp
qed

lemma sint_shift: "uint (w :: cint) < 2 ^ 31 \<Longrightarrow> sint (signed_drop_bit n w) = uint w div 2 ^ n"
  by (simp add: sint_signed_drop_bit_eq sint_positive drop_bit_eq_div)

lemma c_int_factor:
  assumes "0 < a" "0 < b"
  shows "and_then (c_int a) (\<lambda>s. c_int (s * b)) = c_int (a * b)"
proof -
  have "a * 1 \<le> a * b" using assms by (intro mult_left_mono) simp_all
  then have "a < 2 ^ 31" if "a * b < 2 ^ 31" using that by (metis mult_1_right le_less_trans)
  then show ?thesis using assms by (cases "a * b < 2 ^ 31") (simp_all add: c_int_def and_then_def)
qed

text \<open>The fields of leaf 4 of \<^verbatim>\<open>cpuid\<close> for a cache of at most 512 ways (line size less one in bits 0 to
  11, partitions less one in bits 12 to 21, ways less one from bit 22 on, sets less one in the other register)
  give the size as the product of the four numbers, where that is an \<^verbatim>\<open>int\<close>; otherwise it overflows.\<close>

lemma cache_description:
  assumes "L < 2 ^ 12" "P < 2 ^ 10" "W < 2 ^ 9" "S < 2 ^ 31 - 1" "0 \<le> L" "0 \<le> P" "0 \<le> W" "0 \<le> S"
  shows "populate_cache_struct level (word_of_int (L + P * 2 ^ 12 + W * 2 ^ 22), word_of_int S) =
    and_then (c_int ((L + 1) * (S + 1) * (W + 1) * (P + 1))) (\<lambda>s.
      Inr \<lparr>info_level = level, blk_size = L + 1, num_sets = S + 1, assoc = W + 1, info_size = s\<rparr>)"
proof -
  let ?e = "word_of_int (L + P * 2 ^ 12 + W * 2 ^ 22) :: cint" and ?c = "word_of_int S :: cint"
  have small: "0 \<le> L + P * 2 ^ 12 + W * 2 ^ 22" "L + P * 2 ^ 12 + W * 2 ^ 22 < 2 ^ 31" using assms by simp_all
  have e: "uint ?e = L + P * 2 ^ 12 + W * 2 ^ 22"
    unfolding uint_word_of_int using small by (intro mod_pos_pos_trivial) simp_all
  have c: "uint ?c = S" unfolding uint_word_of_int using assms by (intro mod_pos_pos_trivial) simp_all
  have e31: "uint ?e < 2 ^ 31" unfolding e by (rule small(2))
  have m: "0xFFF = (mask 12 :: cint)" "0x3FF = (mask 10 :: cint)" by (simp_all add: mask_eq_exp_minus_1)
  have f1: "sint (?e AND 0xFFF) = L"
  proof -
    have "(L + P * 2 ^ 12 + W * 2 ^ 22) mod 2 ^ 12 = (L + (P + W * 2 ^ 10) * 2 ^ 12) mod 2 ^ 12" by (simp add: algebra_simps)
    also have "\<dots> = L mod 2 ^ 12" by (rule mod_mult_self1)
    also have "\<dots> = L" using assms by simp
    finally show ?thesis unfolding m(1) sint_mask [OF e31] e .
  qed
  have q12: "(L + P * 2 ^ 12 + W * 2 ^ 22) div 2 ^ 12 = P + W * 2 ^ 10"
  proof -
    have "(L + P * 2 ^ 12 + W * 2 ^ 22) div 2 ^ 12 = (L + (P + W * 2 ^ 10) * 2 ^ 12) div 2 ^ 12" by (simp add: algebra_simps)
    also have "\<dots> = P + W * 2 ^ 10 + L div 2 ^ 12" by (rule div_mult_self1) simp
    also have "\<dots> = P + W * 2 ^ 10" using assms by simp
    finally show ?thesis .
  qed
  have f2: "sint (signed_drop_bit 22 ?e) = W"
  proof -
    have "(L + P * 2 ^ 12 + W * 2 ^ 22) div 2 ^ 22 = (L + P * 2 ^ 12 + W * 2 ^ 22) div 2 ^ 12 div 2 ^ 10"
      by (simp flip: zdiv_zmult2_eq)
    also have "\<dots> = W" unfolding q12 using assms by simp
    finally show ?thesis unfolding sint_shift [OF e31] e .
  qed
  have f3: "sint (signed_drop_bit 12 ?e AND 0x3FF) = P"
  proof -
    have d: "sint (signed_drop_bit 12 ?e) = P + W * 2 ^ 10" unfolding sint_shift [OF e31] e q12 ..
    have pos: "0 \<le> P + W * 2 ^ 10" "P + W * 2 ^ 10 < 2 ^ 31" using assms by simp_all
    have u: "uint (signed_drop_bit 12 ?e) = P + W * 2 ^ 10"
      using uint_of_sint [of "signed_drop_bit 12 ?e"] pos(1) unfolding d by simp
    then have "uint (signed_drop_bit 12 ?e) < 2 ^ 31" using pos(2) by simp
    from sint_mask [OF this, of 10] have "sint (signed_drop_bit 12 ?e AND mask 10) = (P + W * 2 ^ 10) mod 2 ^ 10"
      unfolding u .
    then show ?thesis unfolding m(2) using assms by simp
  qed
  have f4: "sint ?c = S" using sint_positive [of ?c] c assms(4) by simp
  have i: "c_int (L + 1) = Inr (L + 1)" "c_int (S + 1) = Inr (S + 1)" "c_int (W + 1) = Inr (W + 1)" "c_int (P + 1) = Inr (P + 1)"
    using assms by (simp_all add: c_int_def)
  have f: "and_then (c_int ((L + 1) * (S + 1))) (\<lambda>s. and_then (c_int (s * (W + 1))) (\<lambda>s. and_then (c_int (s * (P + 1))) k)) =
      and_then (c_int ((L + 1) * (S + 1) * (W + 1) * (P + 1))) k" for k :: "int \<Rightarrow> fault + cache_info"
    using c_int_factor [of "(L + 1) * (S + 1)" "W + 1"] c_int_factor [of "(L + 1) * (S + 1) * (W + 1)" "P + 1"] assms(5-8)
    by (simp add: and_then_assoc [symmetric])
  show ?thesis
    unfolding populate_cache_struct_def split_conv f1 f2 f3 f4 i and_then_run f ..
qed

lemma join_split: "join_halves (drop_bit 32 t) (take_bit 32 t) = t"
  by (rule bit_word_eqI) (auto simp: join_halves_def bit_simps)

lemma spin_value:
  assumes "0 \<le> x" "x < 2 ^ 31"
  shows "spin k x = (if x + int k < 2 ^ 31 then Inr (x + int k) else Inl Undefined_behaviour)"
  using assms
proof (induction k arbitrary: x)
  case (Suc k)
  show ?case
  proof (cases "x + 1 < 2 ^ 31")
    case True
    then show ?thesis using Suc.IH [of "x + 1"] Suc.prems by (simp add: c_int_def add.assoc)
  next
    case False
    then show ?thesis using Suc.prems by (simp add: c_int_def)
  qed
qed simp

declare spin.simps [simp del]

definition measured :: "(nat \<Rightarrow> quad) \<Rightarrow> nat \<Rightarrow> readings" where
  "measured tsc n = ((map (\<lambda>i. drop_bit 32 (tsc (2 * i))) [0..<n], map (\<lambda>i. take_bit 32 (tsc (2 * i))) [0..<n]),
     (map (\<lambda>i. drop_bit 32 (tsc (2 * i + 1))) [0..<n], map (\<lambda>i. take_bit 32 (tsc (2 * i + 1))) [0..<n]))"

definition pad :: "nat \<Rightarrow> readings \<Rightarrow> readings" where
  "pad m s = (case s of ((a, b), (c, d)) \<Rightarrow> ((a @ replicate m 0, b @ replicate m 0), (c @ replicate m 0, d @ replicate m 0)))"

lemma measure_step_run:
  assumes "0 \<le> x" "x < 2 ^ 31"
  shows "measure_step k tsc n (x, pad m (measured tsc n)) =
    (if 0 < m \<and> x + int k < 2 ^ 31 then Inr (x + int k, pad (m - 1) (measured tsc (Suc n))) else Inl Undefined_behaviour)"
  using spin_value [OF assms, of k]
  by (cases m) (auto simp: measure_step_def pad_def measured_def arr_store_def list_update_append)

lemma measure_loop:
  "for_each (measure_step k tsc) [0..<n] (0, pad len (measured tsc 0)) =
     (if n \<le> len \<and> int n * int k < 2 ^ 31 then Inr (int n * int k, pad (len - n) (measured tsc n))
      else Inl Undefined_behaviour)"
proof (induction n)
  case (Suc n)
  have le: "int n * int k \<le> int (Suc n) * int k" by (intro mult_right_mono) simp_all
  show ?case
  proof (cases "n \<le> len \<and> int n * int k < 2 ^ 31")
    case True
    have "measure_step k tsc n (int n * int k, pad (len - n) (measured tsc n)) =
        (if 0 < len - n \<and> int (Suc n) * int k < 2 ^ 31
         then Inr (int (Suc n) * int k, pad (len - Suc n) (measured tsc (Suc n))) else Inl Undefined_behaviour)"
      using measure_step_run [of "int n * int k" k tsc n "len - n"] True by (simp add: algebra_simps)
    then show ?thesis using Suc True by (auto simp: for_each_append)
  next
    case False
    then have "\<not> (Suc n \<le> len \<and> int (Suc n) * int k < 2 ^ 31)" using le by linarith
    then show ?thesis using Suc False by (simp only: upt_Suc_append le0 for_each_append if_False) simp
  qed
qed simp

lemma total_loop:
  assumes "n \<le> k"
  shows "for_each (total_step (pad m (measured tsc k))) [0..<n] [] = Inr (map (\<lambda>i. tsc (2 * i + 1) - tsc (2 * i)) [0..<n])"
  using assms
proof (induction n)
  case (Suc n)
  then have "total_step (pad m (measured tsc k)) n out = Inr (out @ [tsc (2 * n + 1) - tsc (2 * n)])" for out
    by (simp add: total_step_def pad_def measured_def nth_append join_split)
  with Suc show ?case by (simp add: for_each_append)
qed simp

text \<open>C40: the measuring loop reports the differences of the counter over its \<open>n\<close> passes exactly when its
  arrays have an element for each pass and the passes together count \<^verbatim>\<open>x\<close> no further than an
  \<^verbatim>\<open>int\<close> goes; otherwise its behaviour is undefined. So neither program is defined: \<^verbatim>\<open>x\<close> is
  never reset and overflows in the second pass of both, and the kernel module, with seven passes and arrays of
  five, would leave its arrays however short the measured loop was.\<close>

theorem measuring_loops:
  "tsc_totals k len n tsc =
     (if n \<le> len \<and> n * k < 2 ^ 31 then Inr (map (\<lambda>i. tsc (2 * i + 1) - tsc (2 * i)) [0..<n])
      else Inl Undefined_behaviour) \<and>
   user_totals tsc = Inl Undefined_behaviour \<and> timer_init tsc = Inl Undefined_behaviour \<and>
   tsc_totals k 5 7 tsc = Inl Undefined_behaviour"
proof -
  have "tsc_totals k len n tsc =
     (if n \<le> len \<and> n * k < 2 ^ 31 then Inr (map (\<lambda>i. tsc (2 * i + 1) - tsc (2 * i)) [0..<n])
      else Inl Undefined_behaviour)" for k len n
  proof -
    have "(0, (replicate len 0, replicate len 0), (replicate len 0, replicate len 0)) = (0 :: int, pad len (measured tsc 0))"
      by (simp add: pad_def measured_def)
    moreover have "int n * int k < 2 ^ 31 \<longleftrightarrow> n * k < 2 ^ 31"
      unfolding of_nat_mult [symmetric] by (metis of_nat_less_iff of_nat_numeral of_nat_power)
    ultimately show ?thesis using measure_loop [of k tsc n len] total_loop [of n n "len - n" tsc]
      by (simp add: tsc_totals_def)
  qed
  then show ?thesis by (simp add: user_totals_def timer_init_def)
qed

subsection \<open>The array of the latencies\<close>

text \<open>The block has a quarter of the elements that it is used for.\<close>

lemma unat_word_of_int: "unat (word_of_int z :: quad) = nat (z mod 2 ^ 64)"
  by (simp add: unat_eq_nat_uint uint_word_of_int)

lemma calc_latencies_outside:
  assumes "\<And>n arr. heap n = Some arr \<Longrightarrow> length arr = n div 4" and "- (2 ^ 31) \<le> L1_size" "L1_size < 2 ^ 31"
  shows "calc_latencies heap L1_size = Inl Undefined_behaviour"
proof (cases "heap (unat ((word_of_int L1_size :: quad) div 4))")
  case (Some arr)
  let ?n = "nat (L1_size mod 2 ^ 64)" and ?i = "nat ((L1_size - 1) mod 2 ^ 64) div 4"
  have len: "length arr = ?n div 4 div 4" using assms(1) [OF Some] by (simp add: unat_div unat_word_of_int)
  have i: "unat ((word_of_int (L1_size - 1) :: quad) div 4) = ?i" by (simp only: unat_div unat_word_of_int) simp
  have wrap: "z mod 2 ^ 64 = z + 2 ^ 64" if "- (2 ^ 32) \<le> z" "z < 0" for z :: int
  proof -
    have "(z + 2 ^ 64) mod 2 ^ 64 = z + 2 ^ 64" using that by (intro mod_pos_pos_trivial) simp_all
    then show ?thesis by simp
  qed
  have outside: "length arr \<le> ?i" if "1 < length arr"
  proof (cases "0 < L1_size")
    case True
    then have "L1_size mod 2 ^ 64 = L1_size" "(L1_size - 1) mod 2 ^ 64 = L1_size - 1" using assms(3) by simp_all
    then show ?thesis using that unfolding len by simp
  next
    case False
    then show ?thesis
    proof (cases "L1_size = 0")
      case True
      then show ?thesis using that unfolding len by simp
    next
      case neg: False
      have "L1_size mod 2 ^ 64 = L1_size + 2 ^ 64" "(L1_size - 1) mod 2 ^ 64 = L1_size - 1 + 2 ^ 64"
        using wrap [of L1_size] wrap [of "L1_size - 1"] neg False assms(2) by simp_all
      then show ?thesis using assms(2) unfolding len by simp
    qed
  qed
  show ?thesis
    using Some outside [folded i] by (auto simp: calc_latencies_def Let_def arr_store_def arr_load_def and_then_def c_int_def split: sum.split)
qed (simp add: calc_latencies_def)

end
